(* ===== verification/Prelude.thy ===== *)
theory Prelude
  imports Complex_Main "HOL-Library.Word" "HOL-Library.AList"
begin

text \<open>
  Shared vocabulary of the development: Python values (bytes, text, exceptions, dictionaries) and
  the generic facts on slices, integer encodings, substring search and insertion-ordered
  dictionaries that the component theories use.

  A Python \<open>bytes\<close> value is a list of 8-bit words; a Python \<open>str\<close> is the list of its code points
  (so a text with no ASCII encoding is a value like any other); a dictionary is an association
  list in insertion order, updated by \<^const>\<open>AList.update\<close>, which keeps the position of a key
  that is already present exactly as Python does.
\<close>

unbundle bit_operations_syntax

named_theorems slice_simps \<open>slices, prefixes and their lengths\<close>
named_theorems codec_simps \<open>encode / decode cancellation\<close>
named_theorems dict_simps \<open>insertion-ordered dictionaries\<close>

section \<open>Values\<close>

type_synonym byte = "8 word"
type_synonym bytes = "byte list"
type_synonym pystr = "nat list"

definition str :: "string \<Rightarrow> pystr" where
  "str s = map of_char s"

lemma length_str [simp]: "length (str s) = length s"
  by (simp add: str_def)

text \<open>
  The exception classes that the modelled code raises or lets through. \<open>CS2Timeout\<close> and
  \<open>CameraLoginRejected\<close> are subclasses of \<open>CS2Error\<close>; \<open>UnicodeError\<close> and
  \<open>JSONDecodeError\<close> are subclasses of \<open>ValueError\<close>, \<open>TimeoutExpired\<close> of \<open>SubprocessError\<close>, and
  \<open>OSError\<close> stands for its subclasses too (\<open>URLError\<close>, \<open>TimeoutError\<close>, a broken pipe), except in
  the wake client and the Home Assistant client, which tell \<open>AsyncTimeout\<close>, the \<open>TimeoutError\<close> of an
  expired wait, from the others; \<open>StructError\<close> is \<open>struct.error\<close>, and \<open>ApiAuthError\<close> is a subclass of \<open>ApiError\<close>.
  The string is the message.
\<close>

datatype exn =
    CS2Error string
  | CS2Timeout string
  | CameraLoginRejected "int option list"
  | P2PError string
  | UnicodeError
  | ValueError
  | OverflowError
  | OSError
  | TypeError
  | AttributeError
  | AssertionError
  | KeyError
  | JSONDecodeError
  | SubprocessError
  | TimeoutExpired
  | AccountError string
  | WakeError string
  | RuntimeError string
  | AsyncTimeout
  | IncompleteRead
  | StructError
  | ClientError
  | ApiError string
  | ApiAuthError string
  | UpdateFailed string

fun is_cs2_error :: "exn \<Rightarrow> bool" where
  "is_cs2_error (CS2Error _) = True"
| "is_cs2_error (CS2Timeout _) = True"
| "is_cs2_error (CameraLoginRejected _) = True"
| "is_cs2_error _ = False"

fun is_subprocess_error :: "exn \<Rightarrow> bool" where
  "is_subprocess_error SubprocessError = True"
| "is_subprocess_error TimeoutExpired = True"
| "is_subprocess_error _ = False"

fun is_value_error :: "exn \<Rightarrow> bool" where
  "is_value_error ValueError = True"
| "is_value_error UnicodeError = True"
| "is_value_error JSONDecodeError = True"
| "is_value_error _ = False"

text \<open>Sequencing of computations that may raise and have no other effect.\<close>

definition sbind :: "exn + 'a \<Rightarrow> ('a \<Rightarrow> exn + 'b) \<Rightarrow> exn + 'b" where
  "sbind m f = (case m of Inl e \<Rightarrow> Inl e | Inr x \<Rightarrow> f x)"

lemma sbind_simps [simp]: "sbind (Inl e) f = Inl e" "sbind (Inr x) f = f x"
  by (simp_all add: sbind_def)

lemma sbind_eq_Inr: "sbind m f = Inr y \<longleftrightarrow> (\<exists>x. m = Inr x \<and> f x = Inr y)"
  by (cases m) auto

lemma sbind_eq_Inl: "sbind m f = Inl e \<longleftrightarrow> m = Inl e \<or> (\<exists>x. m = Inr x \<and> f x = Inl e)"
  by (cases m) auto

section \<open>Slices\<close>

text \<open>\<open>xs[a:b]\<close> for non-negative indices: silently shorter when the list ends early.\<close>

definition pyslice :: "nat \<Rightarrow> nat \<Rightarrow> 'a list \<Rightarrow> 'a list" where
  "pyslice a b xs = take (b - a) (drop a xs)"

lemma length_pyslice [slice_simps, simp]: "length (pyslice a b xs) = min (b - a) (length xs - a)"
  by (simp add: pyslice_def)

lemma pyslice_append_left [slice_simps]:
  "b \<le> length xs \<Longrightarrow> pyslice a b (xs @ ys) = pyslice a b xs"
  by (cases "a \<le> length xs") (simp_all add: pyslice_def)

lemma pyslice_append_right [slice_simps]:
  "length xs \<le> a \<Longrightarrow> pyslice a b (xs @ ys) = pyslice (a - length xs) (b - length xs) ys"
  by (simp add: pyslice_def)

lemma pyslice_all [slice_simps]: "length xs \<le> b \<Longrightarrow> pyslice 0 b xs = xs"
  by (simp add: pyslice_def)

lemma set_pyslice: "set (pyslice a b xs) \<subseteq> set xs"
  by (auto simp: pyslice_def dest: in_set_takeD in_set_dropD)

lemma take_eq_append: "take (length xs) ys = xs \<longleftrightarrow> (\<exists>zs. ys = xs @ zs)"
  by (metis append_eq_conv_conj append_take_drop_id)

section \<open>Integers as bytes\<close>

text \<open>\<open>int.from_bytes\<close> and \<open>int.to_bytes\<close>, little-endian and big-endian.\<close>

primrec le_nat :: "bytes \<Rightarrow> nat" where
  "le_nat [] = 0"
| "le_nat (b # bs) = unat b + 256 * le_nat bs"

primrec le_bytes :: "nat \<Rightarrow> nat \<Rightarrow> bytes" where
  "le_bytes 0 n = []"
| "le_bytes (Suc k) n = of_nat n # le_bytes k (n div 256)"

definition be_nat :: "bytes \<Rightarrow> nat" where
  "be_nat bs = le_nat (rev bs)"

definition be_bytes :: "nat \<Rightarrow> nat \<Rightarrow> bytes" where
  "be_bytes k n = rev (le_bytes k n)"

lemma length_le_bytes [simp]: "length (le_bytes k n) = k"
  by (induction k arbitrary: n) auto

lemma length_be_bytes [simp]: "length (be_bytes k n) = k"
  by (simp add: be_bytes_def)

lemma le_bytes_numeral [simp]:
  "le_bytes (numeral k) n = of_nat n # le_bytes (pred_numeral k) (n div 256)"
  unfolding numeral_eq_Suc [of k] by (rule le_bytes.simps)

lemma replicate_numeral_Cons [simp]:
  "replicate (numeral k) x = x # replicate (pred_numeral k) x"
  unfolding numeral_eq_Suc [of k] by (rule replicate_Suc)

lemma unat_of_nat_byte: "unat (of_nat n :: byte) = n mod 256"
  by (simp add: unat_of_nat)

lemma unat_byte_less [simp]: "unat (b :: byte) < 256"
  using unsigned_less [of b] by simp

lemma unat_byte_bound: "256 \<le> n \<Longrightarrow> unat (b :: byte) < n"
  using less_le_trans [OF unat_byte_less] .

lemma byte_nibbles:
  "16 * (unat b div 16) + unat b mod 16 = unat (b :: byte)" "unat b div 16 \<le> 15" "unat b mod 16 \<le> 15"
  using div_less_mono [of "unat b" 256 16] less_mult_imp_div_less [of "unat b" 16 16]
    mod_less_divisor [of 16 "unat b"] unat_byte_bound [of 256 b]
  by (simp_all only: mult_div_mod_eq) (auto simp del: unat_byte_less mod_less_divisor)

lemma le_nat_bound: "le_nat bs < 256 ^ length bs"
proof (induction bs)
  case (Cons b bs)
  have "unat b + 256 * le_nat bs < 256 + 256 * le_nat bs"
    by simp
  also have "\<dots> \<le> 256 * 256 ^ length bs"
    using Cons.IH by simp
  finally show ?case by simp
qed simp

lemma be_nat_bound: "be_nat bs < 256 ^ length bs"
  using le_nat_bound [of "rev bs"] by (simp add: be_nat_def)

lemma le_nat_le_bytes [codec_simps]: "le_nat (le_bytes k n) = n mod 256 ^ k"
proof (induction k arbitrary: n)
  case (Suc k)
  have "n mod (256 * 256 ^ k) = 256 * (n div 256 mod 256 ^ k) + n mod 256"
    by (rule mod_mult2_eq)
  with Suc show ?case by (simp add: unat_of_nat_byte)
qed simp

lemma be_nat_be_bytes [codec_simps]: "be_nat (be_bytes k n) = n mod 256 ^ k"
  by (simp add: be_nat_def be_bytes_def le_nat_le_bytes)

lemma le_bytes_le_nat [codec_simps]: "le_bytes (length bs) (le_nat bs) = bs"
proof (induction bs)
  case (Cons b bs)
  have "unat (of_nat (unat b + 256 * le_nat bs) :: byte) = unat b"
    by (simp only: unat_of_nat_byte) simp
  then have "(of_nat (unat b + 256 * le_nat bs) :: byte) = b"
    by (simp only: word_unat_eq_iff)
  then show ?case
    using Cons by (simp del: of_nat_add of_nat_mult)
qed simp

lemma be_bytes_be_nat [codec_simps]: "be_bytes (length bs) (be_nat bs) = bs"
  using le_bytes_le_nat [of "rev bs"] by (simp add: be_nat_def be_bytes_def)

section \<open>Substring search\<close>

text \<open>\<open>hay.find(needle)\<close> and \<open>hay.find(needle, start)\<close>, with \<open>None\<close> for \<open>-1\<close>.\<close>

fun find_sub :: "'a list \<Rightarrow> 'a list \<Rightarrow> nat option" where
  "find_sub needle [] = (if needle = [] then Some 0 else None)"
| "find_sub needle (x # xs) =
     (if take (length needle) (x # xs) = needle then Some 0
      else map_option Suc (find_sub needle xs))"

definition find_from :: "'a list \<Rightarrow> 'a list \<Rightarrow> nat \<Rightarrow> nat option" where
  "find_from needle hay start =
     (if length hay < start then None
      else map_option (\<lambda>i. start + i) (find_sub needle (drop start hay)))"

definition occurs_at :: "'a list \<Rightarrow> 'a list \<Rightarrow> nat \<Rightarrow> bool" where
  "occurs_at needle hay i \<longleftrightarrow> take (length needle) (drop i hay) = needle"

lemma occurs_at_Cons_0: "occurs_at n (x # xs) 0 \<longleftrightarrow> take (length n) (x # xs) = n"
  by (simp add: occurs_at_def)

lemma occurs_at_Cons_Suc [simp]: "occurs_at n (x # xs) (Suc i) \<longleftrightarrow> occurs_at n xs i"
  by (simp add: occurs_at_def)

lemma occurs_at_bound:
  assumes "occurs_at n h i" "n \<noteq> []"
  shows "i + length n \<le> length h"
proof -
  have "length (take (length n) (drop i h)) = length n"
    using assms(1) by (simp only: occurs_at_def)
  with assms(2) show ?thesis
    by (cases n) auto
qed

lemma find_sub_Some:
  "find_sub n h = Some i \<Longrightarrow> occurs_at n h i \<and> (\<forall>j < i. \<not> occurs_at n h j)"
proof (induction h arbitrary: i)
  case (Cons x xs)
  then show ?case
    by (auto simp: occurs_at_Cons_0 less_Suc_eq_0_disj split: if_splits)
qed (auto simp: occurs_at_def split: if_splits)

lemma find_sub_None: "find_sub n h = None \<Longrightarrow> n \<noteq> [] \<Longrightarrow> \<not> occurs_at n h i"
proof (induction h arbitrary: i)
  case (Cons x xs)
  then show ?case
    by (cases i) (auto simp: occurs_at_Cons_0 split: if_splits)
qed (auto simp: occurs_at_def)

lemma occurs_at_drop: "occurs_at n (drop k h) i \<longleftrightarrow> occurs_at n h (k + i)"
  by (simp add: occurs_at_def add.commute)

lemma find_from_Some:
  assumes "find_from n h k = Some i"
  shows "k \<le> i" "occurs_at n h i" "\<And>j. k \<le> j \<Longrightarrow> j < i \<Longrightarrow> \<not> occurs_at n h j"
proof -
  from assms obtain m where m: "find_sub n (drop k h) = Some m" and i: "i = k + m"
    by (auto simp: find_from_def split: if_splits)
  note f = find_sub_Some [OF m]
  show "k \<le> i" by (simp add: i)
  show "occurs_at n h i" using f by (simp add: i occurs_at_drop)
  show "\<not> occurs_at n h j" if "k \<le> j" "j < i" for j
    using f that i by (auto simp: occurs_at_drop dest!: spec [where x = "j - k"])
qed

lemma find_from_None:
  assumes "find_from n h k = None" "n \<noteq> []" "k \<le> j"
  shows "\<not> occurs_at n h j"
proof (cases "length h < k")
  case True
  with assms(2,3) show ?thesis
    by (auto dest: occurs_at_bound)
next
  case False
  with assms(1) have "find_sub n (drop k h) = None"
    by (simp add: find_from_def)
  from find_sub_None [OF this assms(2), of "j - k"] assms(3) show ?thesis
    by (simp add: occurs_at_drop)
qed

section \<open>Dictionaries\<close>

definition dict_get :: "('k \<times> 'v) list \<Rightarrow> 'k \<Rightarrow> 'v \<Rightarrow> 'v" where
  "dict_get d k dflt = (case map_of d k of None \<Rightarrow> dflt | Some v \<Rightarrow> v)"

definition has_key :: "('k \<times> 'v) list \<Rightarrow> 'k \<Rightarrow> bool" where
  "has_key d k \<longleftrightarrow> k \<in> fst ` set d"

lemma has_key_iff: "has_key d k \<longleftrightarrow> map_of d k \<noteq> None"
  by (simp add: has_key_def map_of_eq_None_iff)

lemma map_fst_update:
  "map fst (AList.update k v d) = (if has_key d k then map fst d else map fst d @ [k])"
  by (induction d) (auto simp: has_key_def)

lemma update_new: "\<not> has_key d k \<Longrightarrow> AList.update k v d = d @ [(k, v)]"
  by (induction d) (auto simp: has_key_def)

lemma length_update_dict [dict_simps]:
  "length (AList.update k v d) = (if has_key d k then length d else Suc (length d))"
  using arg_cong [OF map_fst_update [of k v d], of length] by (simp split: if_splits)

lemma has_key_update [dict_simps]: "has_key (AList.update k v d) j \<longleftrightarrow> j = k \<or> has_key d j"
  by (simp add: has_key_iff update_conv')

lemma has_key_delete [dict_simps]: "has_key (AList.delete k d) j \<longleftrightarrow> j \<noteq> k \<and> has_key d j"
  by (simp add: has_key_iff delete_conv')

lemma distinct_update [dict_simps]: "distinct (map fst d) \<Longrightarrow> distinct (map fst (AList.update k v d))"
  by (auto simp: map_fst_update has_key_def)

lemma distinct_delete [dict_simps]: "distinct (map fst d) \<Longrightarrow> distinct (map fst (AList.delete k d))"
  by (simp add: AList.distinct_delete)

lemma set_update_subset: "x \<in> set (AList.update k v d) \<Longrightarrow> x = (k, v) \<or> x \<in> set d"
  by (induction d) (auto split: if_splits)

lemma set_delete_subset: "x \<in> set (AList.delete k d) \<Longrightarrow> x \<in> set d"
  by (auto simp: AList.delete_eq)

lemma length_delete_dict: "length (AList.delete k d) \<le> length d"
  by (simp add: AList.delete_eq)

lemma length_delete_less: "has_key d k \<Longrightarrow> length (AList.delete k d) < length d"
  by (induction d) (auto simp: has_key_def AList.delete_eq le_imp_less_Suc)

end
