(* ===== verification/Effects.thy ===== *)
theory Effects
  imports Prelude
begin

text \<open>
  Effectful Python code as state transformers with three outcomes: a normal return, a raised
  exception, and \<open>Halt\<close>, which stands for the end of the observed run: the script of clock
  readings that the environment supplies is exhausted, so the code has not yet come back. A
  handler never catches \<open>Halt\<close>. The locale \<open>two_state\<close> is the interface of every frame and
  invariant argument about such code: a reflexive and transitive relation between the states
  before and after, closed under sequencing, handlers and loops.
\<close>

datatype 'a outcome = Ret 'a | Raise exn | Halt

type_synonym ('s, 'a) eff = "'s \<Rightarrow> 'a outcome \<times> 's"

definition ret :: "'a \<Rightarrow> ('s, 'a) eff" where
  "ret x = (\<lambda>s. (Ret x, s))"

definition raise :: "exn \<Rightarrow> ('s, 'a) eff" where
  "raise e = (\<lambda>s. (Raise e, s))"

definition halt :: "('s, 'a) eff" where
  "halt = (\<lambda>s. (Halt, s))"

definition gets :: "('s \<Rightarrow> 'a) \<Rightarrow> ('s, 'a) eff" where
  "gets f = (\<lambda>s. (Ret (f s), s))"

definition modify :: "('s \<Rightarrow> 's) \<Rightarrow> ('s, unit) eff" where
  "modify f = (\<lambda>s. (Ret (), f s))"

definition bind :: "('s, 'a) eff \<Rightarrow> ('a \<Rightarrow> ('s, 'b) eff) \<Rightarrow> ('s, 'b) eff" where
  "bind m f = (\<lambda>s. case m s of
      (Ret x, s') \<Rightarrow> f x s'
    | (Raise e, s') \<Rightarrow> (Raise e, s')
    | (Halt, s') \<Rightarrow> (Halt, s'))"

definition seq :: "('s, unit) eff \<Rightarrow> ('s, 'b) eff \<Rightarrow> ('s, 'b) eff" where
  "seq m n = bind m (\<lambda>_. n)"

text \<open>\<open>try: m except: h\<close>; the handler sees every exception and re-raises what it does not want.\<close>

definition catch :: "('s, 'a) eff \<Rightarrow> (exn \<Rightarrow> ('s, 'a) eff) \<Rightarrow> ('s, 'a) eff" where
  "catch m h = (\<lambda>s. case m s of (Raise e, s') \<Rightarrow> h e s' | r \<Rightarrow> r)"

text \<open>\<open>try: m finally: f\<close>; an exception of the clean-up replaces the pending one.\<close>

definition try_finally :: "('s, 'a) eff \<Rightarrow> ('s, unit) eff \<Rightarrow> ('s, 'a) eff" where
  "try_finally m f = (\<lambda>s. case m s of
      (Halt, t) \<Rightarrow> (Halt, t)
    | (r, t) \<Rightarrow> (case f t of
        (Ret _, u) \<Rightarrow> (r, u)
      | (Raise e, u) \<Rightarrow> (Raise e, u)
      | (Halt, u) \<Rightarrow> (Halt, u)))"

definition lift_sum :: "exn + 'a \<Rightarrow> ('s, 'a) eff" where
  "lift_sum r = (case r of Inl e \<Rightarrow> raise e | Inr x \<Rightarrow> ret x)"

definition when_do :: "bool \<Rightarrow> ('s, unit) eff \<Rightarrow> ('s, unit) eff" where
  "when_do b m = (if b then m else ret ())"

text \<open>\<open>for x in xs: f(x)\<close>.\<close>

primrec for_each :: "'x list \<Rightarrow> ('x \<Rightarrow> ('s, unit) eff) \<Rightarrow> ('s, unit) eff" where
  "for_each [] f = ret ()"
| "for_each (x # xs) f = seq (f x) (for_each xs f)"

text \<open>
  \<open>while True: body\<close> over local variables \<open>l\<close>: the body ends an iteration with \<open>Inl l'\<close> (go
  round again) or \<open>Inr x\<close> (leave the loop with \<open>x\<close>). The fuel is the number of iterations.
\<close>

primrec loop :: "nat \<Rightarrow> ('l \<Rightarrow> ('s, 'l + 'a) eff) \<Rightarrow> 'l \<Rightarrow> ('s, 'a) eff" where
  "loop 0 body l = halt"
| "loop (Suc n) body l =
     bind (body l) (\<lambda>r. case r of Inl l' \<Rightarrow> loop n body l' | Inr x \<Rightarrow> ret x)"

lemmas eff_defs = ret_def raise_def halt_def gets_def modify_def bind_def seq_def catch_def
  lift_sum_def when_do_def

lemma bind_Ret: "m s = (Ret x, s') \<Longrightarrow> bind m f s = f x s'"
  by (simp add: bind_def)

lemma bind_Raise: "m s = (Raise e, s') \<Longrightarrow> bind m f s = (Raise e, s')"
  by (simp add: bind_def)

lemma bind_Halt: "m s = (Halt, s') \<Longrightarrow> bind m f s = (Halt, s')"
  by (simp add: bind_def)

lemma bind_eq_Ret:
  "bind m f s = (Ret y, t) \<longleftrightarrow> (\<exists>x u. m s = (Ret x, u) \<and> f x u = (Ret y, t))"
  by (auto simp: bind_def split: prod.splits outcome.splits)

lemma seq_eq_Ret: "seq m n s = (Ret y, t) \<longleftrightarrow> (\<exists>u. m s = (Ret (), u) \<and> n u = (Ret y, t))"
  by (auto simp: seq_def bind_eq_Ret)

lemma bind_cases:
  assumes "bind m f s = (r, t)"
  obtains (Ret) x u where "m s = (Ret x, u)" "f x u = (r, t)"
  | (Raise) e where "m s = (Raise e, t)" "r = Raise e"
  | (Halt) "m s = (Halt, t)" "r = Halt"
  using assms by (auto simp: bind_def split: prod.splits outcome.splits)

lemma ret_apply [simp]: "ret x s = (Ret x, s)"
  and raise_apply [simp]: "raise e s = (Raise e, s)"
  and halt_apply [simp]: "halt s = (Halt, s)"
  and gets_apply [simp]: "gets f s = (Ret (f s), s)"
  and modify_apply [simp]: "modify g s = (Ret (), g s)"
  by (simp_all add: eff_defs)

lemma bind_ret [simp]: "bind (ret x) f = f x"
  and bind_gets: "bind (gets g) f s = f (g s) s"
  and bind_raise [simp]: "bind (raise e) f' = raise e"
  and seq_modify: "seq (modify h) n s = n (h s)"
  by (auto simp: eff_defs)

lemma bind_assoc: "bind (bind m f) g = bind m (\<lambda>x. bind (f x) g)"
  by (auto simp: bind_def fun_eq_iff split: prod.splits outcome.splits)

section \<open>Two-state properties\<close>

text \<open>
  The interface: a relation that any code whose every primitive step respects it respects as a
  whole. The clients are the frame relations, the invariants and the trace relations of the
  components; each interprets the locale on its own relation.
\<close>

definition steps_by :: "('s \<Rightarrow> 's \<Rightarrow> bool) \<Rightarrow> ('s, 'a) eff \<Rightarrow> bool" where
  "steps_by R m \<longleftrightarrow> (\<forall>s. R s (snd (m s)))"

lemma steps_byD: "steps_by R m \<Longrightarrow> m s = (r, t) \<Longrightarrow> R s t"
  by (metis steps_by_def snd_conv)

lemma steps_byI: "(\<And>s r t. m s = (r, t) \<Longrightarrow> R s t) \<Longrightarrow> steps_by R m"
  by (simp add: steps_by_def) (metis surjective_pairing)

locale two_state =
  fixes R :: "'s \<Rightarrow> 's \<Rightarrow> bool"
  assumes R_refl: "R s s"
    and R_trans: "R s t \<Longrightarrow> R t u \<Longrightarrow> R s u"
begin

lemma ret_step: "steps_by R (ret x)"
  by (simp add: steps_by_def R_refl)

lemma raise_step: "steps_by R (raise e)"
  by (simp add: steps_by_def R_refl)

lemma halt_step: "steps_by R halt"
  by (simp add: steps_by_def R_refl)

lemma gets_step: "steps_by R (gets f)"
  by (simp add: steps_by_def R_refl)

lemma lift_sum_step: "steps_by R (lift_sum r)"
  by (simp add: lift_sum_def raise_step ret_step split: sum.split)

lemma bind_step:
  assumes "steps_by R m" "\<And>x. steps_by R (f x)"
  shows "steps_by R (bind m f)"
proof (rule steps_byI)
  fix s r t assume "bind m f s = (r, t)"
  then show "R s t"
    by (cases rule: bind_cases) (auto dest: steps_byD [OF assms(1)] steps_byD [OF assms(2)] R_trans)
qed

lemma seq_step: "steps_by R m \<Longrightarrow> steps_by R n \<Longrightarrow> steps_by R (seq m n)"
  by (simp add: seq_def bind_step)

lemma catch_step:
  assumes "steps_by R m" "\<And>e. steps_by R (h e)"
  shows "steps_by R (catch m h)"
proof (rule steps_byI)
  fix s r t assume c: "catch m h s = (r, t)"
  obtain o' u where m: "m s = (o', u)" by (cases "m s")
  have "R s u" by (rule steps_byD [OF assms(1) m])
  moreover have "R u t" if "o' = Raise e" for e
    using c m that by (auto simp: catch_def intro: steps_byD [OF assms(2)])
  ultimately show "R s t"
    using c m by (cases o') (auto simp: catch_def intro: R_trans)
qed

lemma finally_step:
  assumes "steps_by R m" "steps_by R f"
  shows "steps_by R (try_finally m f)"
proof (rule steps_byI)
  fix s r t assume c: "try_finally m f s = (r, t)"
  obtain o' u where m: "m s = (o', u)" by (cases "m s")
  obtain o'' v where f: "f u = (o'', v)" by (cases "f u")
  have "R s u" "R u v" using steps_byD [OF assms(1) m] steps_byD [OF assms(2) f] .
  with c m f show "R s t"
    by (auto simp: try_finally_def intro: R_trans split: outcome.splits)
qed

lemma when_step: "(b \<Longrightarrow> steps_by R m) \<Longrightarrow> steps_by R (when_do b m)"
  by (simp add: when_do_def ret_step)

lemma for_each_step: "(\<And>x. x \<in> set xs \<Longrightarrow> steps_by R (f x)) \<Longrightarrow> steps_by R (for_each xs f)"
  by (induction xs) (auto intro: ret_step seq_step)

lemma loop_step: "(\<And>l. steps_by R (body l)) \<Longrightarrow> steps_by R (loop n body l)"
proof (induction n arbitrary: l)
  case (Suc n)
  then show ?case
    by (auto intro!: bind_step ret_step split: sum.split)
qed (simp add: halt_step)

lemma modify_step: "(\<And>s. R s (f s)) \<Longrightarrow> steps_by R (modify f)"
  by (simp add: steps_by_def)

lemma if_step: "(b \<Longrightarrow> steps_by R m) \<Longrightarrow> (\<not> b \<Longrightarrow> steps_by R n) \<Longrightarrow> steps_by R (if b then m else n)"
  by simp

lemma option_step:
  "(x = None \<Longrightarrow> steps_by R m) \<Longrightarrow> (\<And>y. x = Some y \<Longrightarrow> steps_by R (f y)) \<Longrightarrow>
   steps_by R (case x of None \<Rightarrow> m | Some y \<Rightarrow> f y)"
  by (simp split: option.split)

lemma pair_step: "(\<And>a b. x = (a, b) \<Longrightarrow> steps_by R (f a b)) \<Longrightarrow> steps_by R (case x of (a, b) \<Rightarrow> f a b)"
  by (simp split: prod.split)

lemma let_step: "(\<And>y. y = x \<Longrightarrow> steps_by R (f y)) \<Longrightarrow> steps_by R (let y = x in f y)"
  by (simp add: Let_def)

lemmas step_rules = if_step option_step pair_step let_step ret_step raise_step halt_step gets_step lift_sum_step bind_step seq_step
  catch_step finally_step when_step for_each_step loop_step

end

text \<open>Every invariant is such a relation.\<close>

definition inv_rel :: "('s \<Rightarrow> bool) \<Rightarrow> 's \<Rightarrow> 's \<Rightarrow> bool" where
  "inv_rel P s t \<longleftrightarrow> (P s \<longrightarrow> P t)"

lemma two_state_inv_rel: "two_state (inv_rel P)"
  by unfold_locales (auto simp: inv_rel_def)

lemma steps_by_invD: "steps_by (inv_rel P) m \<Longrightarrow> P s \<Longrightarrow> m s = (r, t) \<Longrightarrow> P t"
  by (auto dest: steps_byD simp: inv_rel_def)

text \<open>So is preorder on any projection of the state.\<close>

definition same_on :: "('s \<Rightarrow> 'a) \<Rightarrow> 's \<Rightarrow> 's \<Rightarrow> bool" where
  "same_on f s t \<longleftrightarrow> f t = f s"

lemma two_state_same_on: "two_state (same_on f)"
  by unfold_locales (auto simp: same_on_def)

section \<open>Code that always comes back\<close>

definition no_halt :: "('s, 'a) eff \<Rightarrow> bool" where
  "no_halt m \<longleftrightarrow> (\<forall>s. fst (m s) \<noteq> Halt)"

lemma no_haltD: "no_halt m \<Longrightarrow> m s \<noteq> (Halt, t)"
  by (metis no_halt_def fst_conv)

lemma no_haltI: "(\<And>s t. m s \<noteq> (Halt, t)) \<Longrightarrow> no_halt m"
  by (metis no_halt_def prod.collapse)

lemma no_halt_basic: "no_halt (ret x)" "no_halt (raise e)" "no_halt (gets f)" "no_halt (modify g)"
  "no_halt (lift_sum r)"
  by (simp_all add: no_halt_def lift_sum_def split: sum.split)

lemma no_halt_bind: "no_halt m \<Longrightarrow> (\<And>x. no_halt (f x)) \<Longrightarrow> no_halt (bind m f)"
  by (rule no_haltI) (auto elim!: bind_cases dest: no_haltD)

lemma no_halt_seq: "no_halt m \<Longrightarrow> no_halt n \<Longrightarrow> no_halt (seq m n)"
  by (simp add: seq_def no_halt_bind)

lemma no_halt_catch: "no_halt m \<Longrightarrow> (\<And>e. no_halt (h e)) \<Longrightarrow> no_halt (catch m h)"
  by (rule no_haltI) (auto simp: catch_def split: prod.splits outcome.splits dest: no_haltD)

lemma no_halt_choice:
  "no_halt m \<Longrightarrow> no_halt n \<Longrightarrow> no_halt (if b then m else n)"
  "no_halt m \<Longrightarrow> (\<And>y. no_halt (f y)) \<Longrightarrow> no_halt (case x of None \<Rightarrow> m | Some y \<Rightarrow> f y)"
  "(\<And>a b. no_halt (g a b)) \<Longrightarrow> no_halt (case z of (a, b) \<Rightarrow> g a b)"
  "(\<And>y. no_halt (k y)) \<Longrightarrow> no_halt (let y = w in k y)"
  "no_halt m' \<Longrightarrow> no_halt (when_do b m')"
  by (auto simp: when_do_def no_halt_basic split: option.split prod.split)

lemma no_halt_for_each: "(\<And>x. no_halt (f x)) \<Longrightarrow> no_halt (for_each xs f)"
  by (induction xs) (simp_all add: no_halt_basic no_halt_seq)

lemmas no_halt_rules = no_halt_basic no_halt_bind no_halt_seq no_halt_catch no_halt_choice
  no_halt_for_each

text \<open>A loop that returns ended with an iteration that left it.\<close>

lemma loop_Ret:
  assumes "loop n body l s = (Ret x, t)" "two_state R" "\<And>l. steps_by R (body l)"
  obtains l' u where "R s u" "body l' u = (Ret (Inr x), t)"
  using assms(1)
proof (induction n arbitrary: l s thesis)
  case (Suc n)
  obtain r u where u: "body l s = (Ret r, u)"
    and rest: "(case r of Inl l' \<Rightarrow> loop n body l' | Inr x \<Rightarrow> ret x) u = (Ret x, t)"
    using Suc.prems(2) by (auto simp: bind_eq_Ret)
  have Rsu: "R s u" by (rule steps_byD [OF assms(3) u])
  show ?case
  proof (cases r)
    case (Inl l')
    with rest have "loop n body l' u = (Ret x, t)" by simp
    from Suc.IH [OF _ this] obtain l'' v where "R u v" "body l'' v = (Ret (Inr x), t)" by blast
    then show ?thesis using Suc.prems(1) two_state.R_trans [OF assms(2) Rsu] by blast
  next
    case (Inr y)
    with rest u have "body l s = (Ret (Inr x), t)" by simp
    then show ?thesis using Suc.prems(1) two_state.R_refl [OF assms(2)] by blast
  qed
qed simp

section \<open>Two parts of a state\<close>

definition on_fst :: "('a, 'r) eff \<Rightarrow> ('a \<times> 'b, 'r) eff" where
  "on_fst m = (\<lambda>(a, b). case m a of (r, a') \<Rightarrow> (r, (a', b)))"

definition on_snd :: "('b, 'r) eff \<Rightarrow> ('a \<times> 'b, 'r) eff" where
  "on_snd m = (\<lambda>(a, b). case m b of (r, b') \<Rightarrow> (r, (a, b')))"

lemma on_snd_steps: "steps_by R m \<Longrightarrow> steps_by (\<lambda>s t. fst t = fst s \<and> R (snd s) (snd t)) (on_snd m)"
  by (rule steps_byI) (auto simp: on_snd_def dest: steps_byD split: prod.splits)

lemma on_fst_steps: "steps_by R m \<Longrightarrow> steps_by (\<lambda>s t. snd t = snd s \<and> R (fst s) (fst t)) (on_fst m)"
  by (rule steps_byI) (auto simp: on_fst_def dest: steps_byD split: prod.splits)

lemma on_fst_eq: "on_fst m (a, b) = (r, t) \<longleftrightarrow> (\<exists>a'. m a = (r, a') \<and> t = (a', b))"
  and on_snd_eq: "on_snd m' (a, b) = (r, t) \<longleftrightarrow> (\<exists>b'. m' b = (r, b') \<and> t = (a, b'))"
  by (auto simp: on_fst_def on_snd_def split: prod.splits)

end
