(* ===== verification/PyText.thy ===== *)
theory PyText
  imports Prelude
begin

text \<open>
  The parts of Python's text model and of the C socket library that the program relies on: ASCII
  and UTF-8 codecs, decimal and hexadecimal numerals, character classes, and \<open>inet_aton\<close> /
  \<open>inet_ntoa\<close> as \<open>inet(3)\<close> documents them. The classes of code points outside ASCII come from
  the Unicode database, which is not code of this repository: they are the argument of type
  \<open>unicode\<close> of the definitions that consult them.
\<close>

section \<open>ASCII and UTF-8\<close>

definition ascii_str :: "pystr \<Rightarrow> bool" where
  "ascii_str s \<longleftrightarrow> list_all (\<lambda>c. c < 128) s"

definition encode_ascii :: "pystr \<Rightarrow> exn + bytes" where
  "encode_ascii s = (if ascii_str s then Inr (map of_nat s) else Inl UnicodeError)"

definition decode_ascii :: "bytes \<Rightarrow> exn + pystr" where
  "decode_ascii bs =
     (if list_all (\<lambda>b. unat b < 128) bs then Inr (map unat bs) else Inl UnicodeError)"

definition is_surrogate :: "nat \<Rightarrow> bool" where
  "is_surrogate c \<longleftrightarrow> 0xD800 \<le> c \<and> c < 0xE000"

definition utf8_bytes :: "nat \<Rightarrow> bytes" where
  "utf8_bytes c =
     (if c < 0x80 then [of_nat c]
      else if c < 0x800 then [of_nat (0xC0 + c div 64), of_nat (0x80 + c mod 64)]
      else if c < 0x10000 then
        [of_nat (0xE0 + c div 4096), of_nat (0x80 + c div 64 mod 64), of_nat (0x80 + c mod 64)]
      else
        [of_nat (0xF0 + c div 262144), of_nat (0x80 + c div 4096 mod 64),
         of_nat (0x80 + c div 64 mod 64), of_nat (0x80 + c mod 64)])"

definition scalar_str :: "pystr \<Rightarrow> bool" where
  "scalar_str s \<longleftrightarrow> list_all (\<lambda>c. c < 0x110000 \<and> \<not> is_surrogate c) s"

text \<open>\<open>s.encode("utf-8")\<close>: a lone surrogate raises.\<close>

definition encode_utf8 :: "pystr \<Rightarrow> exn + bytes" where
  "encode_utf8 s = (if scalar_str s then Inr (concat (map utf8_bytes s)) else Inl UnicodeError)"

definition is_cont :: "byte \<Rightarrow> bool" where
  "is_cont b \<longleftrightarrow> 0x80 \<le> unat b \<and> unat b < 0xC0"

definition low6 :: "byte \<Rightarrow> nat" where
  "low6 b = unat b - 0x80"

text \<open>One code point of a strict UTF-8 decoder: no overlong forms, surrogates or values above
  \<open>0x10FFFF\<close>.\<close>

definition utf8_next :: "bytes \<Rightarrow> (nat \<times> bytes) option" where
  "utf8_next bs = (case bs of
      [] \<Rightarrow> None
    | b # r \<Rightarrow>
       (let n = unat b in
        if n < 0x80 then Some (n, r)
        else if 0xC2 \<le> n \<and> n < 0xE0 then
          (case r of
             b1 # r1 \<Rightarrow> if is_cont b1 then Some ((n - 0xC0) * 64 + low6 b1, r1) else None
           | _ \<Rightarrow> None)
        else if 0xE0 \<le> n \<and> n < 0xF0 then
          (case r of
             b1 # b2 # r2 \<Rightarrow>
               (let c = (n - 0xE0) * 4096 + low6 b1 * 64 + low6 b2 in
                if is_cont b1 \<and> is_cont b2 \<and> 0x800 \<le> c \<and> \<not> is_surrogate c
                then Some (c, r2) else None)
           | _ \<Rightarrow> None)
        else if 0xF0 \<le> n \<and> n < 0xF5 then
          (case r of
             b1 # b2 # b3 # r3 \<Rightarrow>
               (let c = (n - 0xF0) * 262144 + low6 b1 * 4096 + low6 b2 * 64 + low6 b3 in
                if is_cont b1 \<and> is_cont b2 \<and> is_cont b3 \<and> 0x10000 \<le> c \<and> c < 0x110000
                then Some (c, r3) else None)
           | _ \<Rightarrow> None)
        else None))"

lemma utf8_next_shorter: "utf8_next bs = Some (c, r) \<Longrightarrow> length r < length bs"
  by (auto simp: utf8_next_def Let_def split: list.splits if_splits)

function decode_utf8 :: "bytes \<Rightarrow> exn + pystr" where
  "decode_utf8 bs =
     (if bs = [] then Inr []
      else case utf8_next bs of
        None \<Rightarrow> Inl UnicodeError
      | Some (c, r) \<Rightarrow> sbind (decode_utf8 r) (\<lambda>s. Inr (c # s)))"
  by pat_completeness auto
termination
  by (relation "measure length") (auto dest: utf8_next_shorter)

declare decode_utf8.simps [simp del]

lemma unat_of_nat_small: "n < 256 \<Longrightarrow> unat (of_nat n :: byte) = n"
  by (simp add: unat_of_nat)

lemma nat_split_4096: "(n :: nat) = n div 4096 * 4096 + n div 64 mod 64 * 64 + n mod 64"
proof -
  have "n div 64 = n div 4096 * 64 + n div 64 mod 64"
    using div_mult_mod_eq [of "n div 64" 64] by (simp add: div_mult2_eq [symmetric])
  with div_mult_mod_eq [of n 64] show ?thesis
    by linarith
qed

lemma nat_split_262144:
  "(n :: nat) = n div 262144 * 262144 + n div 4096 mod 64 * 4096 + n div 64 mod 64 * 64 + n mod 64"
proof -
  have "n div 4096 = n div 262144 * 64 + n div 4096 mod 64"
    using div_mult_mod_eq [of "n div 4096" 64] by (simp add: div_mult2_eq [symmetric])
  with nat_split_4096 [of n] show ?thesis
    by linarith
qed

lemma utf8_next_bytes:
  assumes "c < 0x110000" "\<not> is_surrogate c"
  shows "utf8_next (utf8_bytes c @ r) = Some (c, r)"
proof -
  consider "c < 0x80" | "0x80 \<le> c" "c < 0x800" | "0x800 \<le> c" "c < 0x10000" | "0x10000 \<le> c"
    by linarith
  then show ?thesis
  proof cases
    case 1
    then show ?thesis
      by (simp add: utf8_bytes_def utf8_next_def unat_of_nat_small)
  next
    case 2
    define q m where "q = c div 64" and "m = c mod 64"
    have c: "c = q * 64 + m" and "m < 64" and "2 \<le> q" and "q < 32"
      using 2 unfolding q_def m_def by auto
    then show ?thesis
      using 2 unfolding utf8_bytes_def q_def [symmetric] m_def [symmetric]
      by (simp add: utf8_next_def unat_of_nat_small is_cont_def low6_def del: of_nat_add)
  next
    case 3
    define h q m where "h = c div 4096" and "q = c div 64 mod 64" and "m = c mod 64"
    have "m < 64" and "q < 64" and "h < 16"
      using 3 unfolding h_def q_def m_def by auto
    moreover have c: "c = h * 4096 + q * 64 + m"
      using nat_split_4096 [of c] by (simp add: h_def q_def m_def)
    moreover have "\<not> is_surrogate (h * 4096 + q * 64 + m)" "0x800 \<le> h * 4096 + q * 64 + m"
      using assms 3 c by auto
    ultimately show ?thesis
      using 3 unfolding utf8_bytes_def h_def [symmetric] q_def [symmetric] m_def [symmetric]
      by (simp add: utf8_next_def unat_of_nat_small is_cont_def low6_def del: of_nat_add)
  next
    case 4
    define t h q m where "t = c div 262144" and "h = c div 4096 mod 64"
      and "q = c div 64 mod 64" and "m = c mod 64"
    have "m < 64" and "q < 64" and "h < 64" and "t < 5"
      using assms 4 unfolding t_def h_def q_def m_def by auto
    moreover have c: "c = t * 262144 + h * 4096 + q * 64 + m"
      using nat_split_262144 [of c] by (simp add: t_def h_def q_def m_def)
    moreover have "0x10000 \<le> t * 262144 + h * 4096 + q * 64 + m"
      "t * 262144 + h * 4096 + q * 64 + m < 0x110000"
      using assms 4 c by auto
    ultimately show ?thesis
      using 4 unfolding utf8_bytes_def t_def [symmetric] h_def [symmetric] q_def [symmetric]
        m_def [symmetric]
      by (simp add: utf8_next_def unat_of_nat_small is_cont_def low6_def del: of_nat_add)
  qed
qed

lemma utf8_bytes_nonempty [simp]: "utf8_bytes c \<noteq> []"
  by (simp add: utf8_bytes_def)

lemma decode_utf8_concat:
  "scalar_str s \<Longrightarrow> decode_utf8 (concat (map utf8_bytes s)) = Inr s"
proof (induction s)
  case (Cons c s)
  then have "utf8_next (utf8_bytes c @ concat (map utf8_bytes s)) = Some (c, concat (map utf8_bytes s))"
    by (simp add: scalar_str_def utf8_next_bytes)
  with Cons show ?case
    by (simp add: decode_utf8.simps [of "_ @ _"] scalar_str_def)
qed (simp add: decode_utf8.simps)

lemma decode_encode_utf8 [codec_simps]:
  "encode_utf8 s = Inr bs \<Longrightarrow> decode_utf8 bs = Inr s"
  by (auto simp: encode_utf8_def decode_utf8_concat split: if_splits)

lemma decode_encode_ascii [codec_simps]: "encode_ascii s = Inr bs \<Longrightarrow> decode_ascii bs = Inr s"
proof -
  assume "encode_ascii s = Inr bs"
  then have s: "ascii_str s" and bs: "bs = map of_nat s"
    by (auto simp: encode_ascii_def split: if_splits)
  have u: "unat (of_nat c :: byte) = c" if "c \<in> set s" for c
    using s that by (auto simp: ascii_str_def list_all_iff intro!: unat_of_nat_small)
  have "map unat (map of_nat s :: bytes) = s"
    using u by (simp add: comp_def map_idI)
  moreover have "list_all (\<lambda>b. unat b < 128) (map of_nat s :: bytes)"
    using s u by (simp add: ascii_str_def list_all_iff)
  ultimately show ?thesis
    by (simp add: decode_ascii_def bs)
qed

section \<open>Numerals\<close>

fun show_nat :: "nat \<Rightarrow> pystr" where
  "show_nat n = (if n < 10 then [48 + n] else show_nat (n div 10) @ [48 + n mod 10])"

declare show_nat.simps [simp del]

definition dec_value :: "nat list \<Rightarrow> nat" where
  "dec_value = foldl (\<lambda>a d. a * 10 + d) 0"

definition hex_digit :: "nat \<Rightarrow> char" where
  "hex_digit n = ''0123456789abcdef'' ! n"

text \<open>\<open>bs.hex()\<close>.\<close>

definition hex_bytes :: "bytes \<Rightarrow> string" where
  "hex_bytes bs = concat (map (\<lambda>b. [hex_digit (unat b div 16), hex_digit (unat b mod 16)]) bs)"

text \<open>\<open>str(n)\<close> as an ASCII text, for counter names.\<close>

definition show_nat_string :: "nat \<Rightarrow> string" where
  "show_nat_string n = map char_of (show_nat n)"

lemma show_nat_digits: "c \<in> set (show_nat n) \<Longrightarrow> 48 \<le> c \<and> c < 58"
proof (induction n rule: show_nat.induct)
  case (1 n)
  then show ?case
    by (subst (asm) (2) show_nat.simps) (auto split: if_splits)
qed

lemma show_nat_nonempty [simp]: "show_nat n \<noteq> []"
  by (subst show_nat.simps) simp

lemma hd_show_nat: "0 < n \<Longrightarrow> hd (show_nat n) \<noteq> 48"
proof (induction n rule: show_nat.induct)
  case (1 n)
  show ?case
  proof (cases "n < 10")
    case True
    with 1 show ?thesis by (subst show_nat.simps) simp
  next
    case False
    with 1 have "hd (show_nat (n div 10)) \<noteq> 48" by simp
    with False show ?thesis by (subst show_nat.simps) simp
  qed
qed

lemma dec_value_snoc: "dec_value (ds @ [d]) = dec_value ds * 10 + d"
  by (simp add: dec_value_def)

lemma dec_value_show_nat [codec_simps]: "dec_value (map (\<lambda>c. c - 48) (show_nat n)) = n"
proof (induction n rule: show_nat.induct)
  case (1 n)
  show ?case
    by (subst show_nat.simps) (use 1 in \<open>auto simp: dec_value_snoc, simp add: dec_value_def\<close>)
qed

lemma length_show_nat: "n < 10 ^ k \<Longrightarrow> 0 < k \<Longrightarrow> length (show_nat n) \<le> k"
proof (induction k arbitrary: n)
  case (Suc k)
  show ?case
  proof (cases "n < 10")
    case True
    then show ?thesis by (subst show_nat.simps) simp
  next
    case False
    with Suc.prems have "n div 10 < 10 ^ k" and "0 < k"
      by (auto simp: less_mult_imp_div_less intro: gr0I)
    with Suc.IH [of "n div 10"] False show ?thesis
      by (subst show_nat.simps) simp
  qed
qed simp

section \<open>Character classes\<close>

record unicode =
  uni_isalnum :: "nat \<Rightarrow> bool"
  uni_isalpha :: "nat \<Rightarrow> bool"
  uni_isdigit :: "nat \<Rightarrow> bool"
  uni_decimal :: "nat \<Rightarrow> nat option"

definition ascii_digit :: "nat \<Rightarrow> bool" where
  "ascii_digit c \<longleftrightarrow> 48 \<le> c \<and> c < 58"

definition ascii_alpha :: "nat \<Rightarrow> bool" where
  "ascii_alpha c \<longleftrightarrow> (65 \<le> c \<and> c < 91) \<or> (97 \<le> c \<and> c < 123)"

definition isalnum :: "unicode \<Rightarrow> pystr \<Rightarrow> bool" where
  "isalnum db s \<longleftrightarrow> s \<noteq> [] \<and>
     list_all (\<lambda>c. if c < 128 then ascii_alpha c \<or> ascii_digit c else uni_isalnum db c) s"

definition isalpha :: "unicode \<Rightarrow> pystr \<Rightarrow> bool" where
  "isalpha db s \<longleftrightarrow> s \<noteq> [] \<and>
     list_all (\<lambda>c. if c < 128 then ascii_alpha c else uni_isalpha db c) s"

definition isdigit :: "unicode \<Rightarrow> pystr \<Rightarrow> bool" where
  "isdigit db s \<longleftrightarrow> s \<noteq> [] \<and>
     list_all (\<lambda>c. if c < 128 then ascii_digit c else uni_isdigit db c) s"

text \<open>
  \<open>int(s)\<close> for a non-empty \<open>s\<close> all of whose characters are digits in the sense of \<open>str.isdigit\<close>:
  a digit with no decimal value (a superscript, say) raises \<open>ValueError\<close>.
\<close>

definition decimal_of :: "unicode \<Rightarrow> nat \<Rightarrow> nat option" where
  "decimal_of db c = (if c < 128 then (if ascii_digit c then Some (c - 48) else None)
                      else uni_decimal db c)"

definition int_of_digits :: "unicode \<Rightarrow> pystr \<Rightarrow> exn + nat" where
  "int_of_digits db s =
     (if s \<noteq> [] \<and> list_all (\<lambda>c. decimal_of db c \<noteq> None) s
      then Inr (dec_value (map (\<lambda>c. the (decimal_of db c)) s)) else Inl ValueError)"

lemma dec_value_bound:
  "list_all (\<lambda>d. d < 10) ds \<Longrightarrow> dec_value ds < 10 ^ length ds"
proof (induction ds rule: rev_induct)
  case (snoc d ds)
  then have "dec_value ds + 1 \<le> 10 ^ length ds" and "d < 10"
    by simp_all
  then show ?case
    by (simp add: dec_value_snoc)
qed (simp add: dec_value_def)

section \<open>IPv4 text forms\<close>

definition inet_ntoa :: "bytes \<Rightarrow> exn + pystr" where
  "inet_ntoa bs = (case bs of
      [a, b, c, d] \<Rightarrow> Inr (show_nat (unat a) @ 46 # show_nat (unat b) @ 46 #
                           show_nat (unat c) @ 46 # show_nat (unat d))
    | _ \<Rightarrow> Inl OSError)"

definition digit_value :: "nat \<Rightarrow> nat option" where
  "digit_value c =
     (if 48 \<le> c \<and> c < 58 then Some (c - 48)
      else if 97 \<le> c \<and> c < 103 then Some (c - 87)
      else if 65 \<le> c \<and> c < 71 then Some (c - 55) else None)"

definition digit_in :: "nat \<Rightarrow> nat \<Rightarrow> bool" where
  "digit_in base c \<longleftrightarrow> (case digit_value c of None \<Rightarrow> False | Some d \<Rightarrow> d < base)"

text \<open>\<open>strtoul\<close> with base 0 at a decimal digit: the value and the rest of the text.\<close>

definition scan_digits :: "nat \<Rightarrow> pystr \<Rightarrow> nat \<times> pystr" where
  "scan_digits base s =
     (foldl (\<lambda>a c. a * base + the (digit_value c)) 0 (takeWhile (digit_in base) s),
      dropWhile (digit_in base) s)"

definition strtoul :: "pystr \<Rightarrow> nat \<times> pystr" where
  "strtoul s =
     (if 3 \<le> length s \<and> s ! 0 = 48 \<and> (s ! 1 = 120 \<or> s ! 1 = 88) \<and> digit_in 16 (s ! 2)
      then scan_digits 16 (drop 2 s)
      else if s \<noteq> [] \<and> hd s = 48 then scan_digits 8 s
      else scan_digits 10 s)"

definition c_isspace :: "nat \<Rightarrow> bool" where
  "c_isspace c \<longleftrightarrow> (9 \<le> c \<and> c < 14) \<or> c = 32"

text \<open>The numeric parts, at most \<open>k\<close> further ones after the first; a space ends the address.\<close>

primrec aton_parts :: "nat \<Rightarrow> pystr \<Rightarrow> nat list option" where
  "aton_parts 0 s =
     (if s = [] \<or> \<not> ascii_digit (hd s) then None
      else let (v, r) = strtoul s in
        if 2 ^ 32 \<le> v \<or> (r \<noteq> [] \<and> \<not> c_isspace (hd r)) then None else Some [v])"
| "aton_parts (Suc k) s =
     (if s = [] \<or> \<not> ascii_digit (hd s) then None
      else let (v, r) = strtoul s in
        if 2 ^ 32 \<le> v then None
        else if r \<noteq> [] \<and> hd r = 46 then
          (if 255 < v then None else map_option ((#) v) (aton_parts k (tl r)))
        else if r \<noteq> [] \<and> \<not> c_isspace (hd r) then None else Some [v])"

definition inet_aton :: "pystr \<Rightarrow> exn + bytes" where
  "inet_aton s =
     (if 0 \<in> set s then Inl ValueError
      else if list_ex is_surrogate s then Inl UnicodeError
      else case aton_parts 3 s of
        None \<Rightarrow> Inl OSError
      | Some ps \<Rightarrow>
          (if last ps < 256 ^ (5 - length ps)
           then Inr (map of_nat (butlast ps) @ be_bytes (5 - length ps) (last ps))
           else Inl OSError))"


subsection \<open>\<open>inet_aton\<close> reads back what \<open>inet_ntoa\<close> prints\<close>

lemma strtoul_show_nat:
  assumes "r = [] \<or> hd r = 46"
  shows "strtoul (show_nat n @ r) = (n, r)"
proof -
  have digs: "digit_in 10 c" "the (digit_value c) = c - 48" if "c \<in> set (show_nat n)" for c
    using show_nat_digits [OF that] by (auto simp: digit_in_def digit_value_def)
  have stop: "takeWhile (digit_in b) r = []" "dropWhile (digit_in b) r = r" for b
    using assms by (cases r; simp add: digit_in_def digit_value_def)+
  have val: "foldl (\<lambda>a c. a * 10 + the (digit_value c)) 0 (show_nat n) = n"
  proof -
    have "foldl (\<lambda>a c. a * 10 + the (digit_value c)) 0 (show_nat n)
        = foldl (\<lambda>a c. a * 10 + (c - 48)) 0 (show_nat n)"
      using digs(2) by (intro foldl_cong) auto
    also have "\<dots> = dec_value (map (\<lambda>c. c - 48) (show_nat n))"
      by (simp add: dec_value_def foldl_map)
    finally show ?thesis by (simp add: dec_value_show_nat)
  qed
  show ?thesis
  proof (cases "n = 0")
    case True
    have "show_nat 0 = [48]" by (simp add: show_nat.simps)
    moreover have "r ! 0 = 46" if "r \<noteq> []"
      using that assms by (simp add: hd_conv_nth)
    ultimately show ?thesis
      using True stop [of 8]
      by (cases r) (auto simp: strtoul_def scan_digits_def digit_in_def digit_value_def)
  next
    case False
    then have "hd (show_nat n @ r) \<noteq> 48" "(show_nat n @ r) ! 0 \<noteq> 48"
      using hd_show_nat [of n] by (simp_all add: hd_conv_nth nth_append)
    moreover have "scan_digits 10 (show_nat n @ r) = (n, r)"
      using digs(1) stop [of 10] val
      by (simp add: scan_digits_def takeWhile_append2 dropWhile_append2)
    ultimately show ?thesis
      by (simp add: strtoul_def)
  qed
qed

lemma hd_show_nat_digit: "ascii_digit (hd (show_nat n))"
  using show_nat_digits [of "hd (show_nat n)" n] by (simp add: ascii_digit_def)

lemma aton_parts_last:
  "n < 256 \<Longrightarrow> aton_parts k (show_nat n) = Some [n]"
  using strtoul_show_nat [of "[]" n] hd_show_nat_digit [of n] by (cases k) auto

lemma aton_parts_dot:
  "n < 256 \<Longrightarrow> aton_parts (Suc k) (show_nat n @ 46 # r) = map_option ((#) n) (aton_parts k r)"
  using strtoul_show_nat [of "46 # r" n] hd_show_nat_digit [of n] by auto

lemma inet_aton_ntoa [codec_simps]:
  assumes "inet_ntoa bs = Inr host"
  shows "inet_aton host = Inr bs"
proof -
  from assms obtain a b c d where bs: "bs = [a, b, c, d]"
    and host: "host = show_nat (unat a) @ 46 # show_nat (unat b) @ 46 #
      show_nat (unat c) @ 46 # show_nat (unat d)"
    by (auto simp: inet_ntoa_def split: list.splits)
  have chars: "46 \<le> x \<and> x < 58" if "x \<in> set host" for x
    using that unfolding host by (auto dest!: show_nat_digits)
  then have "0 \<notin> set host" "\<not> list_ex is_surrogate host"
    by (fastforce simp: list_ex_iff is_surrogate_def)+
  moreover have "aton_parts 3 host = Some [unat a, unat b, unat c, unat d]"
    unfolding host
    by (simp add: numeral_3_eq_3 aton_parts_dot aton_parts_last del: aton_parts.simps)
  ultimately show ?thesis
    by (simp add: inet_aton_def bs be_bytes_def)
qed

lemma inet_ntoa_inject: "inet_ntoa a = Inr h \<Longrightarrow> inet_ntoa b = Inr h \<Longrightarrow> a = b"
  using inet_aton_ntoa [of a h] inet_aton_ntoa [of b h] by simp

lemma inet_ntoa_total: "length bs = 4 \<Longrightarrow> \<exists>h. inet_ntoa bs = Inr h"
  by (auto simp: inet_ntoa_def length_Suc_conv numeral_eq_Suc)

lemma inet_ntoa_length: "inet_ntoa bs = Inr h \<Longrightarrow> length bs = 4"
  by (auto simp: inet_ntoa_def split: list.splits)

lemma inet_aton_errors: "inet_aton s = Inl e \<Longrightarrow> e = ValueError \<or> e = UnicodeError \<or> e = OSError"
  by (auto simp: inet_aton_def sbind_eq_Inl encode_ascii_def split: if_splits option.splits list.splits)

lemma inet_aton_length: "inet_aton s = Inr bs \<Longrightarrow> length bs = 4"
proof -
  have len: "0 < length ps \<and> length ps \<le> Suc k" if "aton_parts k s = Some ps" for k s ps
    using that
  proof (induction k arbitrary: s ps)
    case (Suc k)
    then show ?case by (force split: if_splits prod.splits)
  qed (auto split: if_splits prod.splits)
  show "length bs = 4" if "inet_aton s = Inr bs"
    using that len [of 3 s] by (force simp: inet_aton_def neq_Nil_conv split: if_splits option.splits)
qed

end
