(* ===== verification/CS2_Codec.thy ===== *)
theory CS2_Codec
  imports PyText
begin

text \<open>
  The wire formats of \<open>src/src/okam_native/cs2.py\<close> that need no session: the service parameter,
  the device identifier, network addresses, the packet cipher and its mixed clear / encrypted
  envelopes, and the relay packets. Names follow the source; a leading underscore is dropped.
\<close>

section \<open>Constants\<close>

definition DIRECTORY_PORT :: nat where [simp]: "DIRECTORY_PORT = 32100"
definition MAX_FIELD_BYTES :: nat where [simp]: "MAX_FIELD_BYTES = 4096"

definition ENCRYPTED_PACKET_TYPES :: "bytes list" where
  "ENCRYPTED_PACKET_TYPES =
     [[0xf1, 0x00], [0xf1, 0x20], [0xf1, 0x67], [0xf1, 0x70], [0xf1, 0x72],
      [0xf1, 0xd0], [0xf1, 0xd1], [0xf1, 0xe0], [0xf1, 0xe1], [0xf1, 0xf0]]"

definition DUAL_WIRE_PACKET_TYPES :: "bytes list" where
  "DUAL_WIRE_PACKET_TYPES =
     [[0xf1, 0x41], [0xf1, 0x42], [0xf1, 0x43], [0xf1, 0x80], [0xf1, 0x83], [0xf1, 0xd1],
      [0xf1, 0xe1]]"

definition DECODE_LOOKUP :: bytes where
  "DECODE_LOOKUP = [
   0x49, 0x59, 0x43, 0x3d, 0xb5, 0xbf, 0x6d, 0xa3, 0x47, 0x53, 0x4f, 0x61, 0x65, 0xe3, 0x71, 0xe9,
   0x67, 0x7f, 0x02, 0x03, 0x0b, 0xad, 0xb3, 0x89, 0x2b, 0x2f, 0x35, 0xc1, 0x6b, 0x8b, 0x95, 0x97,
   0x11, 0xe5, 0xa7, 0x0d, 0xef, 0xf1, 0x05, 0x07, 0x83, 0xfb, 0x9d, 0x3b, 0xc5, 0xc7, 0x13, 0x17,
   0x1d, 0x1f, 0x25, 0x29, 0xd3, 0xdf]"

definition SHUFFLE :: bytes where
  "SHUFFLE = [
   0x7c, 0x9c, 0xe8, 0x4a, 0x13, 0xde, 0xdc, 0xb2, 0x2f, 0x21, 0x23, 0xe4, 0x30, 0x7b, 0x3d, 0x8c,
   0xbc, 0x0b, 0x27, 0x0c, 0x3c, 0xf7, 0x9a, 0xe7, 0x08, 0x71, 0x96, 0x00, 0x97, 0x85, 0xef, 0xc1,
   0x1f, 0xc4, 0xdb, 0xa1, 0xc2, 0xeb, 0xd9, 0x01, 0xfa, 0xba, 0x3b, 0x05, 0xb8, 0x15, 0x87, 0x83,
   0x28, 0x72, 0xd1, 0x8b, 0x5a, 0xd6, 0xda, 0x93, 0x58, 0xfe, 0xaa, 0xcc, 0x6e, 0x1b, 0xf0, 0xa3,
   0x88, 0xab, 0x43, 0xc0, 0x0d, 0xb5, 0x45, 0x38, 0x4f, 0x50, 0x22, 0x66, 0x20, 0x7f, 0x07, 0x5b,
   0x14, 0x98, 0x1d, 0x9b, 0xa7, 0x2a, 0xb9, 0xa8, 0xcb, 0xf1, 0xfc, 0x49, 0x47, 0x06, 0x3e, 0xb1,
   0x0e, 0x04, 0x3a, 0x94, 0x5e, 0xee, 0x54, 0x11, 0x34, 0xdd, 0x4d, 0xf9, 0xec, 0xc7, 0xc9, 0xe3,
   0x78, 0x1a, 0x6f, 0x70, 0x6b, 0xa4, 0xbd, 0xa9, 0x5d, 0xd5, 0xf8, 0xe5, 0xbb, 0x26, 0xaf, 0x42,
   0x37, 0xd8, 0xe1, 0x02, 0x0a, 0xae, 0x5f, 0x1c, 0xc5, 0x73, 0x09, 0x4e, 0x69, 0x24, 0x90, 0x6d,
   0x12, 0xb3, 0x19, 0xad, 0x74, 0x8a, 0x29, 0x40, 0xf5, 0x2d, 0xbe, 0xa5, 0x59, 0xe0, 0xf4, 0x79,
   0xd2, 0x4b, 0xce, 0x89, 0x82, 0x48, 0x84, 0x25, 0xc6, 0x91, 0x2b, 0xa2, 0xfb, 0x8f, 0xe9, 0xa6,
   0xb0, 0x9e, 0x3f, 0x65, 0xf6, 0x03, 0x31, 0x2e, 0xac, 0x0f, 0x95, 0x2c, 0x5c, 0xed, 0x39, 0xb7,
   0x33, 0x6c, 0x56, 0x7e, 0xb4, 0xa0, 0xfd, 0x7a, 0x81, 0x53, 0x51, 0x86, 0x8d, 0x9f, 0x77, 0xff,
   0x6a, 0x80, 0xdf, 0xe2, 0xbf, 0x10, 0xd7, 0x75, 0x64, 0x57, 0x76, 0xf3, 0x55, 0xcd, 0xd0, 0xc8,
   0x18, 0xe6, 0x36, 0x41, 0x62, 0xcf, 0x99, 0xf2, 0x32, 0x4c, 0x67, 0x60, 0x61, 0x92, 0xca, 0xd3,
   0xea, 0x63, 0x7d, 0x16, 0xb6, 0x8e, 0xd4, 0x68, 0x35, 0xc3, 0x52, 0x9d, 0x46, 0x44, 0x1e, 0x17]"

section \<open>Operations\<close>

type_synonym endpoint = "pystr \<times> nat"

definition service_invalid :: exn where
  "service_invalid = CS2Error ''official P2P service parameter is invalid''"

fun split_on :: "nat \<Rightarrow> pystr \<Rightarrow> pystr list" where
  "split_on c [] = [[]]"
| "split_on c (x # xs) =
     (if x = c then [] # split_on c xs
      else (case split_on c xs of [] \<Rightarrow> [[x]] | y # ys \<Rightarrow> (x # y) # ys))"

definition rstrip_nul :: "bytes \<Rightarrow> bytes" where
  "rstrip_nul bs = rev (dropWhile (\<lambda>b. b = 0) (rev bs))"

text \<open>The loop over \<open>decoded[index]\<close>: each byte is chained with all bytes decoded before it.\<close>

definition chain :: "bytes \<Rightarrow> byte" where
  "chain decoded = foldl (XOR) 57 decoded"

fun decode_pairs :: "pystr \<Rightarrow> bytes \<Rightarrow> exn + bytes" where
  "decode_pairs (h # l # r) decoded =
     (if 65 \<le> h \<and> h - 65 \<le> 15 \<and> 65 \<le> l \<and> l - 65 \<le> 15
      then decode_pairs r (decoded @
        [chain decoded XOR DECODE_LOOKUP ! (length decoded mod length DECODE_LOOKUP)
           XOR of_nat (16 * (h - 65) + (l - 65))])
      else Inl service_invalid)"
| "decode_pairs _ decoded = Inr decoded"

fun check_servers :: "pystr list \<Rightarrow> exn + unit" where
  "check_servers [] = Inr ()"
| "check_servers (s # ss) = sbind (inet_aton s) (\<lambda>_. check_servers ss)"

text \<open>The body of the \<open>try\<close> block, then the handler for \<open>(UnicodeError, OSError)\<close>.\<close>

definition decode_service_body :: "pystr \<Rightarrow> pystr \<Rightarrow> exn + pystr list \<times> pystr" where
  "decode_service_body encoded key =
     sbind (decode_pairs encoded []) (\<lambda>decoded.
     sbind (decode_ascii (rstrip_nul decoded)) (\<lambda>text.
     (let servers = filter (\<lambda>i. i \<noteq> []) (split_on 44 text) in
      if servers = [] \<or> length servers > 16
      then Inl (CS2Error ''official P2P directory list is invalid'')
      else sbind (check_servers servers) (\<lambda>_.
           sbind (encode_ascii key) (\<lambda>_. Inr (servers, key))))))"

definition decode_service_parameter :: "pystr \<Rightarrow> exn + pystr list \<times> pystr" where
  "decode_service_parameter value =
     (let encoded = takeWhile (\<lambda>c. c \<noteq> 58) value;
          key = drop 1 (dropWhile (\<lambda>c. c \<noteq> 58) value) in
      if 58 \<notin> set value \<or> key = [] \<or> length key > 128 \<or> odd (length encoded)
      then Inl service_invalid
      else if encoded = [] \<or> length encoded > MAX_FIELD_BYTES then Inl service_invalid
      else case decode_service_body encoded key of
        Inl e \<Rightarrow> if e = UnicodeError \<or> e = OSError then Inl service_invalid else Inl e
      | Inr r \<Rightarrow> Inr r)"

definition uid_invalid :: exn where
  "uid_invalid = CS2Error ''camera transport identifier is invalid''"

definition encode_uid :: "unicode \<Rightarrow> pystr \<Rightarrow> exn + bytes" where
  "encode_uid db uid =
     (if length uid \<noteq> 15 \<or> \<not> isalnum db (take 4 uid) \<or> \<not> isdigit db (pyslice 4 10 uid) \<or>
         \<not> isalpha db (drop 10 uid)
      then Inl uid_invalid
      else case
        sbind (encode_ascii (take 4 uid)) (\<lambda>prefix.
        sbind (int_of_digits db (pyslice 4 10 uid)) (\<lambda>n.
        sbind (if n < 256 ^ 4 then Inr (be_bytes 4 n) else Inl OverflowError) (\<lambda>serial.
        sbind (encode_ascii (drop 10 uid)) (\<lambda>suffix.
          Inr (prefix @ replicate 4 0 @ serial @ suffix @ replicate 3 0))))) of
        Inl e \<Rightarrow> if e = UnicodeError \<or> e = OverflowError then Inl uid_invalid else Inl e
      | Inr r \<Rightarrow> Inr r)"

definition encode_network_address :: "pystr \<Rightarrow> nat \<Rightarrow> exn + bytes" where
  "encode_network_address host port =
     (if \<not> (0 < port \<and> port \<le> 65535) then Inl (CS2Error ''local P2P port is invalid'')
      else case inet_aton host of
        Inl e \<Rightarrow> if e = OSError then Inl (CS2Error ''local P2P address is invalid'') else Inl e
      | Inr address \<Rightarrow> Inr ([0x00, 0x02] @ le_bytes 2 port @ rev address @ replicate 8 0))"

definition remote_invalid :: exn where
  "remote_invalid = CS2Error ''remote P2P address is invalid''"

definition decode_network_address :: "bytes \<Rightarrow> exn + endpoint" where
  "decode_network_address payload =
     (if length payload < 16 \<or> take 2 payload \<noteq> [0x00, 0x02] then Inl remote_invalid
      else let port = le_nat (pyslice 2 4 payload) in
        case inet_ntoa (rev (pyslice 4 8 payload)) of
          Inl e \<Rightarrow> if e = OSError then Inl remote_invalid else Inl e
        | Inr host \<Rightarrow>
            if port = 0 \<or> host = str ''0.0.0.0'' then Inl remote_invalid else Inr (host, port))"

text \<open>The four running sums of \<open>_key_hash\<close>; the entries are bytes, so \<open>& 0xFF\<close> is implicit.\<close>

definition hash_step :: "byte \<times> byte \<times> byte \<times> byte \<Rightarrow> byte \<Rightarrow> byte \<times> byte \<times> byte \<times> byte" where
  "hash_step = (\<lambda>(a, b, c, d) v. (a + v, b - v, c + of_nat (unat v div 3), d XOR v))"

definition key_hash :: "pystr \<Rightarrow> exn + bytes" where
  "key_hash key = (case encode_ascii key of
      Inl e \<Rightarrow> Inl (CS2Error ''P2P transport key is invalid'')
    | Inr encoded \<Rightarrow>
        (case foldl hash_step (0, 0, 0, 0) encoded of (a, b, c, d) \<Rightarrow> Inr [a, b, c, d]))"

definition mask :: "bytes \<Rightarrow> byte \<Rightarrow> byte" where
  "mask hashed previous = SHUFFLE ! unat (hashed ! unat (previous AND 3) + previous)"

fun encrypt_from :: "bytes \<Rightarrow> byte \<Rightarrow> bytes \<Rightarrow> bytes" where
  "encrypt_from hashed previous [] = []"
| "encrypt_from hashed previous (value # clear) =
     (let encoded = value XOR mask hashed previous
      in encoded # encrypt_from hashed encoded clear)"

fun decrypt_from :: "bytes \<Rightarrow> byte \<Rightarrow> bytes \<Rightarrow> bytes" where
  "decrypt_from hashed previous [] = []"
| "decrypt_from hashed previous (value # encrypted) =
     (value XOR mask hashed previous) # decrypt_from hashed value encrypted"

definition encrypt_packet :: "pystr \<Rightarrow> bytes \<Rightarrow> exn + bytes" where
  "encrypt_packet key clear = sbind (key_hash key) (\<lambda>h. Inr (encrypt_from h 0 clear))"

definition decrypt_packet :: "pystr \<Rightarrow> bytes \<Rightarrow> exn + bytes" where
  "decrypt_packet key encrypted = sbind (key_hash key) (\<lambda>h. Inr (decrypt_from h 0 encrypted))"

definition encode_wire_packets :: "pystr \<Rightarrow> bytes \<Rightarrow> exn + bytes list" where
  "encode_wire_packets key packet =
     sbind (encrypt_packet key packet) (\<lambda>encrypted.
       if take 2 packet \<in> set DUAL_WIRE_PACKET_TYPES then Inr [packet, encrypted]
       else if take 2 packet \<in> set ENCRYPTED_PACKET_TYPES then Inr [encrypted]
       else Inr [packet])"

text \<open>
  A Python set of endpoints is a list without repetitions, in insertion order. The iteration
  order of a set is unspecified; no statement below depends on it.
\<close>

definition set_add :: "'a \<Rightarrow> 'a list \<Rightarrow> 'a list" where
  "set_add x xs = (if x \<in> set xs then xs else xs @ [x])"

primrec decode_relay_entries :: "bytes \<Rightarrow> nat list \<Rightarrow> endpoint list \<Rightarrow> endpoint list" where
  "decode_relay_entries packet [] result = result"
| "decode_relay_entries packet (i # is) result =
     (let offset = 8 + i * 16 in
      case decode_network_address (pyslice offset (offset + 16) packet) of
        Inl e \<Rightarrow> decode_relay_entries packet is result
      | Inr a \<Rightarrow> decode_relay_entries packet is (set_add a result))"

definition decode_relay_list :: "bytes \<Rightarrow> endpoint list" where
  "decode_relay_list packet =
     (if length packet < 8 \<or> take 2 packet \<noteq> [0xf1, 0x69] then []
      else let count = unat (packet ! 4) in
        if count > 32 \<or> length packet \<noteq> 8 + count * 16 then []
        else decode_relay_entries packet [0..<count] [])"

definition make_relay_request :: "bytes \<Rightarrow> bytes \<Rightarrow> 32 word \<Rightarrow> bytes" where
  "make_relay_request uid local_address token =
     [0xf1, 0x80, 0x00, 0x28] @ uid @ local_address @ be_bytes 4 (unat token)"

definition make_relay_punch :: "bytes \<Rightarrow> 32 word \<Rightarrow> bytes" where
  "make_relay_punch uid token =
     [0xf1, 0x83, 0x00, 0x1c] @ be_bytes 4 (unat token) @ uid @ [0, 0, 0, 0]"

definition make_relay_request_from_ack ::
  "bytes \<Rightarrow> endpoint \<Rightarrow> bytes \<Rightarrow> exn + bytes option" where
  "make_relay_request_from_ack uid relay_endpoint packet =
     (if length packet \<noteq> 12 \<or> take 2 packet \<noteq> [0xf1, 0x73] then Inr None
      else let token = of_nat (be_nat (pyslice 4 8 packet));
               allocated_port = be_nat (pyslice 8 10 packet) in
        case encode_network_address (fst relay_endpoint) allocated_port of
          Inl e \<Rightarrow> if is_cs2_error e then Inr None else Inl e
        | Inr allocated_address \<Rightarrow> Inr (Some (make_relay_request uid allocated_address token)))"

text \<open>How \<open>_receive_clear\<close> tells a clear packet from an encrypted one: by its first byte.\<close>

definition open_packet :: "pystr \<Rightarrow> bytes \<Rightarrow> exn + bytes" where
  "open_packet key encrypted =
     (if take 1 encrypted = [0xf1] then Inr encrypted else decrypt_packet key encrypted)"

section \<open>The packet cipher\<close>

text \<open>
  The interface of a packet cipher: what the session layer needs of the two functions that turn
  a packet into its wire form and back.
\<close>

locale packet_cipher =
  fixes enc :: "bytes \<Rightarrow> bytes" and dec :: "bytes \<Rightarrow> bytes"
  assumes dec_enc: "dec (enc p) = p"
    and enc_dec: "enc (dec c) = c"
    and length_enc: "length (enc p) = length p"
begin

lemma enc_inject: "enc p = enc q \<longleftrightarrow> p = q"
  by (metis dec_enc)

lemma length_dec: "length (dec c) = length c"
  by (metis enc_dec length_enc)

lemma surj_enc: "\<exists>p. enc p = c"
  using enc_dec by blast

end

lemma length_encrypt_from [simp]: "length (encrypt_from h p bs) = length bs"
  by (induction h p bs rule: encrypt_from.induct) (auto simp: Let_def)

lemma decrypt_encrypt_from [codec_simps]: "decrypt_from h p (encrypt_from h p bs) = bs"
  by (induction h p bs rule: encrypt_from.induct) (auto simp: Let_def xor.assoc)

lemma encrypt_decrypt_from [codec_simps]: "encrypt_from h p (decrypt_from h p bs) = bs"
  by (induction h p bs rule: decrypt_from.induct) (auto simp: Let_def xor.assoc)

interpretation cs2_cipher: packet_cipher "encrypt_from h 0" "decrypt_from h 0" for h
  by unfold_locales (simp_all add: codec_simps)

lemma encrypt_from_append:
  "encrypt_from h p (xs @ ys) =
     encrypt_from h p xs @ encrypt_from h (last (p # encrypt_from h p xs)) ys"
  by (induction h p xs rule: encrypt_from.induct) (auto simp: Let_def)

lemma length_SHUFFLE: "length SHUFFLE = 256"
  by (simp add: SHUFFLE_def)

lemma SHUFFLE_27: "SHUFFLE ! 27 = 0"
  by (simp add: SHUFFLE_def)

lemma SHUFFLE_nonzero: "list_all (\<lambda>b. b \<noteq> 0) (take 27 SHUFFLE)"
  "list_all (\<lambda>b. b \<noteq> 0) (drop 28 SHUFFLE)"
  by (simp_all add: SHUFFLE_def)

lemma SHUFFLE_zero:
  assumes "i < 256"
  shows "SHUFFLE ! i = 0 \<longleftrightarrow> i = 27"
proof -
  consider "i < 27" | "i = 27" | "27 < i" by linarith
  then show ?thesis
  proof cases
    case 1
    then have "SHUFFLE ! i = take 27 SHUFFLE ! i" and "i < length (take 27 SHUFFLE)"
      by (simp_all add: length_SHUFFLE)
    then have "SHUFFLE ! i \<noteq> 0"
      using SHUFFLE_nonzero(1) unfolding list_all_length by (simp del: nth_take)
    with 1 show ?thesis by simp
  next
    case 2
    then show ?thesis by (simp add: SHUFFLE_27)
  next
    case 3
    with assms have "SHUFFLE ! i = drop 28 SHUFFLE ! (i - 28)" and "i - 28 < length (drop 28 SHUFFLE)"
      by (simp_all add: length_SHUFFLE)
    then have "SHUFFLE ! i \<noteq> 0"
      using SHUFFLE_nonzero(2) unfolding list_all_length by (simp del: nth_drop)
    with 3 show ?thesis by simp
  qed
qed

lemma mask_start: "h \<noteq> [] \<Longrightarrow> mask h 0 = 0 \<longleftrightarrow> unat (hd h) = 27"
  by (simp add: mask_def SHUFFLE_zero hd_conv_nth)

lemma key_hash_length: "key_hash key = Inr h \<Longrightarrow> length h = 4"
  by (auto simp: key_hash_def split: sum.splits prod.splits)

lemma key_hash_ascii: "(\<exists>h. key_hash key = Inr h) \<longleftrightarrow> ascii_str key"
  by (auto simp: key_hash_def encode_ascii_def split: sum.splits prod.splits if_splits)

lemma hash_foldl_fst:
  "fst (foldl hash_step (a, r) bs) = a + sum_list bs"
  by (induction bs arbitrary: a r) (auto simp: hash_step_def split: prod.splits)

text \<open>The first hash byte is the byte sum of the key.\<close>

lemma key_hash_hd:
  assumes "key_hash key = Inr h"
  shows "hd h = sum_list (map of_nat key)"
proof -
  obtain a b c d where f: "foldl hash_step (0, 0, 0, 0) (map of_nat key) = (a, b, c, d)"
    by (metis prod_cases4)
  with hash_foldl_fst [of 0 "(0, 0, 0)" "map of_nat key"] assms show ?thesis
    by (auto simp: key_hash_def encode_ascii_def split: if_splits)
qed

lemma xor_eq_self_iff: "a XOR m = a \<longleftrightarrow> m = (0 :: byte)"
proof
  assume "a XOR m = a"
  then have "a XOR (a XOR m) = a XOR a" by simp
  then show "m = 0" by (simp only: bit.xor_left_self xor_self_eq)
qed simp

lemma open_packet_wire:
  assumes kh: "key_hash key = Inr h" and w: "encode_wire_packets key (0xf1 # p) = Inr ws"
    and i: "w \<in> set ws"
  shows "open_packet key w = Inr (if unat (hd h) = 27 then w else 0xf1 # p)"
proof -
  let ?e = "encrypt_from h 0 (0xf1 # p)"
  have "h \<noteq> []" using key_hash_length [OF kh] by auto
  have ws: "set ws \<subseteq> {0xf1 # p, ?e}"
    using w kh by (auto simp: encode_wire_packets_def encrypt_packet_def split: if_splits)
  have hd_e: "take 1 ?e = [0xf1 XOR mask h 0]"
    by (simp add: Let_def)
  have flip: "0xf1 XOR m = (0xf1 :: byte) \<longleftrightarrow> m = 0" for m
    by (rule xor_eq_self_iff)
  show ?thesis
  proof (cases "unat (hd h) = 27")
    case True
    then have "take 1 w = [0xf1]"
      using ws i hd_e mask_start [OF \<open>h \<noteq> []\<close>] by auto
    with True show ?thesis by (simp add: open_packet_def)
  next
    case False
    then have "open_packet key ?e = Inr (0xf1 # p)"
      using hd_e flip mask_start [OF \<open>h \<noteq> []\<close>] kh cs2_cipher.dec_enc [of h "0xf1 # p"]
      by (simp add: open_packet_def decrypt_packet_def del: encrypt_from.simps)
    moreover have "open_packet key (0xf1 # p) = Inr (0xf1 # p)"
      by (simp add: open_packet_def)
    ultimately show ?thesis using ws i False by auto
  qed
qed

text \<open>C35: Decrypting what \<open>encrypt_packet\<close> produced gives the packet back, encrypting what
  \<open>decrypt_packet\<close> produced gives the ciphertext back, for every ASCII key, and both keep the
  length.\<close>

theorem cipher_roundtrip:
  "(encrypt_packet key p = Inr c \<longleftrightarrow> decrypt_packet key c = Inr p) \<and>
   (encrypt_packet key p = Inr c \<longrightarrow> length c = length p) \<and>
   ((\<exists>c'. encrypt_packet key p = Inr c') \<longleftrightarrow> ascii_str key)"
  by (auto simp: encrypt_packet_def decrypt_packet_def sbind_eq_Inr codec_simps key_hash_ascii)

text \<open>The vector of the unit tests, and the first two statements applied to it.\<close>

lemma cipher_vector: "encrypt_packet (str ''SSD@cs2-network.'') [0xf1, 0, 0, 0] = Inr [0xb1, 0x96, 0xec, 0x02]"
  by code_simp

theorem cipher_roundtrip_witness:
  "decrypt_packet (str ''SSD@cs2-network.'') [0xb1, 0x96, 0xec, 0x02] = Inr [0xf1, 0, 0, 0] \<and>
   length [0xb1, 0x96, 0xec, 0x02 :: byte] = length [0xf1, 0, 0, 0 :: byte]"
  using cipher_roundtrip [of "str ''SSD@cs2-network.''" "[0xf1, 0, 0, 0]" "[0xb1, 0x96, 0xec, 0x02]"]
    cipher_vector by simp

text \<open>C36: Every wire form of a packet that starts with \<open>F1\<close> (the clear one, the encrypted one, or
  both) is opened to that packet, provided the byte sum of the key is not 27 modulo 256. With such
  a key the cipher leaves the leading \<open>F1\<close> unchanged, so the encrypted form is taken for a clear
  packet and never decrypted.\<close>

theorem wire_forms_open:
  assumes "encode_wire_packets key (0xf1 # p) = Inr ws" and "w \<in> set ws"
  shows "open_packet key w =
    Inr (if sum_list (map of_nat key) = (27 :: byte) then w else 0xf1 # p)"
proof -
  from assms(1) obtain h where h: "key_hash key = Inr h"
    by (auto simp: encode_wire_packets_def encrypt_packet_def sbind_eq_Inr)
  have "unat (hd h) = 27 \<longleftrightarrow> hd h = 27"
    by (simp add: word_unat_eq_iff)
  then show ?thesis
    using open_packet_wire [OF h assms] key_hash_hd [OF h] by simp
qed

lemma collision_wire:
  "encode_wire_packets (str ''za@'') [0xf1, 0xe0, 0, 0] = Inr [[0xf1, 0x37, 0x19, 0x1e]]"
  by code_simp

theorem wire_forms_open_witness:
  "open_packet (str ''za@'') [0xf1, 0x37, 0x19, 0x1e] = Inr [0xf1, 0x37, 0x19, 0x1e]"
  using wire_forms_open [OF collision_wire, of "[0xf1, 0x37, 0x19, 0x1e]"] by (simp add: str_def)

section \<open>Network addresses\<close>

lemma length_le_bytes_split: "take 2 ([0x00, 0x02] @ xs) = [0x00, 0x02 :: byte]"
  by simp

lemma pyslice_four_eight:
  assumes "length a = 4"
  shows "pyslice 4 8 ([x, y :: byte] @ le_bytes 2 n @ a @ zs) = a"
    "pyslice 2 4 ([x, y :: byte] @ le_bytes 2 n @ a @ zs) = le_bytes 2 n"
  using assms by (simp_all add: pyslice_def)

lemma zero_address: "inet_ntoa [0, 0, 0, 0] = Inr (str ''0.0.0.0'')"
  by (simp add: inet_ntoa_def show_nat.simps str_def)

lemma encode_network_address_ntoa:
  assumes "inet_ntoa q = Inr host" and "0 < port" and "port \<le> 65535"
  shows "encode_network_address host port =
    Inr ([0x00, 0x02] @ le_bytes 2 port @ rev q @ replicate 8 0)"
  using assms by (simp add: encode_network_address_def inet_aton_ntoa del: le_bytes_numeral)

text \<open>The address of a dotted quad other than 0.0.0.0 and a port in 1..65535 is encoded in 16
  bytes, and decoding those bytes, whatever follows them, gives the host and the port back.\<close>

theorem network_address_roundtrip:
  assumes "inet_ntoa q = Inr host" and "q \<noteq> [0, 0, 0, 0]" and "0 < port" and "port \<le> 65535"
  shows "\<exists>bs. encode_network_address host port = Inr bs \<and> length bs = 16 \<and>
    decode_network_address (bs @ rest) = Inr (host, port)"
proof -
  let ?bs = "[0x00, 0x02] @ le_bytes 2 port @ rev q @ replicate 8 0"
  have q: "length (rev q) = 4" using inet_ntoa_length [OF assms(1)] by simp
  have host: "host \<noteq> str ''0.0.0.0''"
    using assms(1,2) zero_address inet_ntoa_inject by metis
  have "port mod 65536 = port" using assms(4) by simp
  then have "decode_network_address (?bs @ rest) = Inr (host, port)"
    using pyslice_four_eight [OF q, of 0 2 port "replicate 8 0 @ rest"] assms(1,3) host q
    by (simp add: decode_network_address_def le_nat_le_bytes del: le_bytes_numeral append_Cons)
  moreover have "length ?bs = 16" using q by simp
  ultimately show ?thesis
    using encode_network_address_ntoa [OF assms(1,3,4)] by blast
qed

lemma relay_host: "inet_ntoa [192, 0, 2, 10] = Inr (str ''192.0.2.10'')"
  by (simp add: inet_ntoa_def show_nat.simps str_def)

theorem network_address_roundtrip_witness:
  "\<exists>bs. encode_network_address (str ''192.0.2.10'') 32100 = Inr bs \<and> length bs = 16 \<and>
    decode_network_address (bs @ [7]) = Inr (str ''192.0.2.10'', 32100)"
  using network_address_roundtrip [OF relay_host, of 32100 "[7]"] by simp

lemma decode_network_address_Inr:
  assumes "decode_network_address payload = Inr (host, port)"
  shows "16 \<le> length payload" "take 2 payload = [0x00, 0x02]" "0 < port" "port \<le> 65535"
    "port = le_nat (pyslice 2 4 payload)" "inet_ntoa (rev (pyslice 4 8 payload)) = Inr host"
proof -
  show l: "16 \<le> length payload" and "take 2 payload = [0x00, 0x02]"
    and p: "port = le_nat (pyslice 2 4 payload)" and "0 < port"
    and "inet_ntoa (rev (pyslice 4 8 payload)) = Inr host"
    using assms by (auto simp: decode_network_address_def Let_def split: if_splits sum.splits)
  have "le_nat (pyslice 2 4 payload) < 256 ^ 2"
    using le_nat_bound [of "pyslice 2 4 payload"] l by simp
  then show "port \<le> 65535" by (simp add: p)
qed

lemma decode_network_address_Inl:
  "decode_network_address payload = Inl e \<Longrightarrow> e = remote_invalid"
  using inet_ntoa_total [of "rev (pyslice 4 8 payload)"]
  by (fastforce simp: decode_network_address_def Let_def split: if_splits)

text \<open>Whatever \<open>decode_network_address\<close> accepts is a usable endpoint: its port is in 1..65535 and
  its host parses, so it can be sent to and encoded again, to the same first eight bytes.\<close>

theorem decoded_address_usable:
  assumes "decode_network_address payload = Inr (host, port)"
  shows "0 < port \<and> port \<le> 65535 \<and>
    inet_aton host = Inr (rev (pyslice 4 8 payload)) \<and>
    encode_network_address host port = Inr (take 8 payload @ replicate 8 0)"
proof -
  note d = decode_network_address_Inr [OF assms]
  have "take 8 payload = take 2 payload @ pyslice 2 4 payload @ pyslice 4 8 payload"
    using take_add [of 2 2 payload] take_add [of 4 4 payload] by (simp add: pyslice_def)
  moreover have "le_bytes 2 port = pyslice 2 4 payload"
    using le_bytes_le_nat [of "pyslice 2 4 payload"] d(1,5) by (simp del: le_bytes_numeral)
  ultimately show ?thesis
    using encode_network_address_ntoa [OF d(6,3,4)] d inet_aton_ntoa [OF d(6)] by simp
qed

lemma decode_example:
  "decode_network_address [0, 2, 52, 18, 60, 3, 168, 192, 0, 0, 0, 0, 0, 0, 0, 0] =
     Inr (str ''192.168.3.60'', 0x1234)"
  by (simp add: decode_network_address_def pyslice_def inet_ntoa_def show_nat.simps str_def)

theorem decoded_address_usable_witness:
  "encode_network_address (str ''192.168.3.60'') 0x1234 =
     Inr ([0, 2, 52, 18, 60, 3, 168, 192] @ replicate 8 0)"
  using decoded_address_usable [OF decode_example] by simp

section \<open>Device identifiers\<close>

lemma dec_value_inject:
  "length xs = length ys \<Longrightarrow> list_all (\<lambda>d. d < 10) xs \<Longrightarrow> list_all (\<lambda>d. d < 10) ys \<Longrightarrow>
   dec_value xs = dec_value ys \<Longrightarrow> xs = ys"
proof (induction xs arbitrary: ys rule: rev_induct)
  case (snoc x xs)
  then obtain ys' y where ys: "ys = ys' @ [y]"
    by (cases ys rule: rev_cases) auto
  with snoc.prems have "dec_value xs * 10 + x = dec_value ys' * 10 + y" "x < 10" "y < 10"
    by (auto simp: dec_value_snoc)
  then have "dec_value xs = dec_value ys' \<and> x = y" by arith
  with snoc ys show ?case by auto
qed simp

lemma add_sub_digits: "\<forall>c \<in> set s. 48 \<le> c \<Longrightarrow> map ((+) 48) (map (\<lambda>c. c - 48) s) = (s :: pystr)"
  by (simp add: map_idI)

lemma int_of_digits_ascii:
  assumes "isdigit db s" "ascii_str s"
  shows "int_of_digits db s = Inr (dec_value (map (\<lambda>c. c - 48) s))"
    "list_all (\<lambda>d. d < 10) (map (\<lambda>c. c - 48) s)" "\<forall>c \<in> set s. 48 \<le> c"
proof -
  have d: "decimal_of db c = Some (c - 48)" "c - 48 < 10" "48 \<le> c" if "c \<in> set s" for c
    using assms that
    by (auto simp: isdigit_def ascii_str_def list_all_iff decimal_of_def ascii_digit_def)
  show "list_all (\<lambda>d. d < 10) (map (\<lambda>c. c - 48) s)" "\<forall>c \<in> set s. 48 \<le> c"
    using d by (auto simp: list_all_iff)
  have "map (\<lambda>c. the (decimal_of db c)) s = map (\<lambda>c. c - 48) s"
    using d by simp
  then show "int_of_digits db s = Inr (dec_value (map (\<lambda>c. c - 48) s))"
    using d(1) assms(1)
    by (simp add: int_of_digits_def isdigit_def list_all_iff del: map_eq_conv)
qed

lemma encode_uid_Inr:
  assumes "encode_uid db u = Inr b"
  obtains n where "length u = 15" "isdigit db (pyslice 4 10 u)" "ascii_str (take 4 u)"
    "ascii_str (drop 10 u)" "int_of_digits db (pyslice 4 10 u) = Inr n" "n < 256 ^ 4"
    "b = map of_nat (take 4 u) @ replicate 4 0 @ be_bytes 4 n @ map of_nat (drop 10 u) @
         replicate 3 0"
  using assms
  by (auto simp: encode_uid_def sbind_eq_Inr sbind_eq_Inl encode_ascii_def
      split: if_splits sum.splits)

lemma ascii_parts:
  assumes "ascii_str u"
  shows "ascii_str (take n u)" "ascii_str (drop n u)" "ascii_str (pyslice m n u)"
  using assms set_pyslice [of m n u]
  by (auto simp: ascii_str_def list_all_iff dest: in_set_takeD in_set_dropD)

lemma of_nat_inject_ascii:
  "ascii_str xs \<Longrightarrow> ascii_str ys \<Longrightarrow> map (of_nat :: nat \<Rightarrow> byte) xs = map of_nat ys \<Longrightarrow> xs = ys"
  by (metis decode_encode_ascii encode_ascii_def sum.inject(2))

text \<open>An encoded device identifier has exactly 20 bytes, and two ASCII identifiers with the same
  encoding are equal: the camera is addressed unambiguously.\<close>

theorem encode_uid_injective:
  assumes "encode_uid db u = Inr b" and "encode_uid db v = Inr b"
    and "ascii_str u" and "ascii_str v"
  shows "length b = 20 \<and> u = v"
proof -
  obtain n where u: "length u = 15" "isdigit db (pyslice 4 10 u)"
    "int_of_digits db (pyslice 4 10 u) = Inr n" "n < 256 ^ 4"
    "b = map of_nat (take 4 u) @ replicate 4 0 @ be_bytes 4 n @ map of_nat (drop 10 u) @
         replicate 3 0"
    by (rule encode_uid_Inr [OF assms(1)])
  obtain m where v: "length v = 15" "isdigit db (pyslice 4 10 v)"
    "int_of_digits db (pyslice 4 10 v) = Inr m" "m < 256 ^ 4"
    "b = map of_nat (take 4 v) @ replicate 4 0 @ be_bytes 4 m @ map of_nat (drop 10 v) @
         replicate 3 0"
    by (rule encode_uid_Inr [OF assms(2)])
  have eq: "map (of_nat :: nat \<Rightarrow> byte) (take 4 u) = map of_nat (take 4 v)"
    "be_bytes 4 n = be_bytes 4 m" "map (of_nat :: nat \<Rightarrow> byte) (drop 10 u) = map of_nat (drop 10 v)"
    using u(5) [unfolded v(5)] u(1) v(1) by (simp_all add: append_eq_append_conv)
  have "n = m"
    using arg_cong [OF eq(2), of be_nat] u(4) v(4) by (simp add: be_nat_be_bytes)
  moreover note du = int_of_digits_ascii [OF u(2) ascii_parts(3) [OF assms(3)]]
  moreover note dv = int_of_digits_ascii [OF v(2) ascii_parts(3) [OF assms(4)]]
  ultimately have "map (\<lambda>c. c - 48) (pyslice 4 10 u) = map (\<lambda>c. c - 48) (pyslice 4 10 v)"
    using u(1,3) v(1,3) by (intro dec_value_inject) auto
  then have mid: "pyslice 4 10 u = pyslice 4 10 v"
    using add_sub_digits [OF du(3)] add_sub_digits [OF dv(3)] by (metis (no_types))
  have "w = take 4 w @ pyslice 4 10 w @ drop 10 w" if "length w = 15" for w :: pystr
    using take_add [of 4 6 w] append_take_drop_id [of 10 w] by (simp add: pyslice_def)
  then have "u = v"
    using eq(1,3) mid u(1) v(1) of_nat_inject_ascii ascii_parts assms(3,4) by metis
  moreover have "length b = 20" using u(1,5) by simp
  ultimately show ?thesis by simp
qed

theorem encode_uid_injective_witness:
  "length ([86, 83, 84, 78, 0, 0, 0, 0, 0, 1, 226, 64, 65, 66, 67, 68, 69, 0, 0, 0] :: bytes) = 20 \<and>
   str ''VSTN123456ABCDE'' = str ''VSTN123456ABCDE''"
proof -
  let ?db = "\<lparr>uni_isalnum = (\<lambda>_. False), uni_isalpha = (\<lambda>_. False), uni_isdigit = (\<lambda>_. False),
    uni_decimal = (\<lambda>_. None)\<rparr>"
  have e: "encode_uid ?db (str ''VSTN123456ABCDE'') =
    Inr [86, 83, 84, 78, 0, 0, 0, 0, 0, 1, 226, 64, 65, 66, 67, 68, 69, 0, 0, 0]"
    by (simp add: encode_uid_def str_def isalnum_def isdigit_def isalpha_def pyslice_def
        ascii_alpha_def ascii_digit_def encode_ascii_def ascii_str_def int_of_digits_def
        decimal_of_def dec_value_def be_bytes_def)
  show ?thesis
    by (rule encode_uid_injective [OF e e]) (simp_all add: ascii_str_def str_def)
qed

text \<open>\<open>encode_uid\<close> fails with the one sanitized message, with a single exception: when the serial
  holds a character that is a digit to \<open>str.isdigit\<close> but has no decimal value, \<open>int\<close> raises a
  \<open>ValueError\<close> that the handler does not catch.\<close>

theorem encode_uid_errors:
  assumes "encode_uid db u = Inl e"
  shows "e = uid_invalid \<or>
    (e = ValueError \<and>
     (\<exists>c \<in> set (pyslice 4 10 u). 128 \<le> c \<and> uni_isdigit db c \<and> uni_decimal db c = None))"
proof -
  have nov: "\<exists>c \<in> set (pyslice 4 10 u). 128 \<le> c \<and> uni_isdigit db c \<and> uni_decimal db c = None"
    if d: "isdigit db (pyslice 4 10 u)" and f: "int_of_digits db (pyslice 4 10 u) = Inl ValueError"
  proof -
    from f d obtain c where c: "c \<in> set (pyslice 4 10 u)" "decimal_of db c = None"
      by (auto simp: int_of_digits_def isdigit_def list_all_iff split: if_splits)
    with d have "128 \<le> c \<and> uni_isdigit db c \<and> uni_decimal db c = None"
      by (auto simp: isdigit_def list_all_iff decimal_of_def split: if_splits)
    with c(1) show ?thesis by blast
  qed
  show ?thesis
    using assms nov
    by (auto simp: encode_uid_def sbind_eq_Inl encode_ascii_def int_of_digits_def
        split: if_splits sum.splits)
qed

definition superscript_db :: unicode where
  "superscript_db = \<lparr>uni_isalnum = (\<lambda>c. c = 0xB2), uni_isalpha = (\<lambda>_. False),
     uni_isdigit = (\<lambda>c. c = 0xB2), uni_decimal = (\<lambda>_. None)\<rparr>"

lemma superscript_serial:
  "encode_uid superscript_db (str ''VSTN'' @ [0xB2, 50, 51, 52, 53, 54] @ str ''ABCDE'') = Inl ValueError"
  by (simp add: encode_uid_def superscript_db_def str_def isalnum_def isdigit_def isalpha_def
      pyslice_def ascii_alpha_def ascii_digit_def encode_ascii_def ascii_str_def int_of_digits_def
      decimal_of_def)

theorem encode_uid_errors_witness:
  "ValueError \<noteq> uid_invalid \<and>
   (\<exists>c \<in> set (pyslice 4 10 (str ''VSTN'' @ [0xB2, 50, 51, 52, 53, 54] @ str ''ABCDE'')).
      128 \<le> c \<and> uni_isdigit superscript_db c \<and> uni_decimal superscript_db c = None)"
  using encode_uid_errors [OF superscript_serial] by (simp add: uid_invalid_def)

section \<open>Relay lists\<close>

lemma set_add_simps [simp]:
  "set (set_add x xs) = insert x (set xs)"
  "distinct (set_add x xs) = distinct xs"
  "length (set_add x xs) \<le> Suc (length xs)"
  by (auto simp: set_add_def)

lemma decode_relay_entries_set:
  "set (decode_relay_entries p is r) =
     set r \<union> {a. \<exists>i \<in> set is. decode_network_address (pyslice (8 + i * 16) (8 + i * 16 + 16) p) = Inr a}"
  by (induction "is" arbitrary: r) (auto simp: Let_def split: sum.splits)

lemma decode_relay_entries_distinct:
  "distinct r \<Longrightarrow> distinct (decode_relay_entries p is r)"
  by (induction "is" arbitrary: r) (auto simp: Let_def split: sum.splits)

lemma decode_relay_entries_length:
  "length (decode_relay_entries p is r) \<le> length r + length is"
proof (induction "is" arbitrary: r)
  case (Cons i "is")
  have "length (decode_relay_entries p is (set_add a r)) \<le> Suc (length r + length is)" for a
    using Cons.IH [of "set_add a r"] set_add_simps(3) [of a r] by linarith
  with Cons.IH [of r] show ?case
    by (auto simp: Let_def le_SucI split: sum.splits)
qed simp

lemma pyslice_concat:
  assumes "\<forall>e \<in> set es. length e = w" and "i < length es"
  shows "pyslice (i * w) (i * w + w) (concat es) = es ! i"
  using assms
proof (induction es arbitrary: i)
  case (Cons e es)
  show ?case
  proof (cases i)
    case 0
    with Cons.prems show ?thesis by (simp add: pyslice_def)
  next
    case (Suc j)
    with Cons.prems Cons.IH [of j] show ?thesis
      by (simp add: pyslice_append_right add.commute)
  qed
qed simp

text \<open>A well-formed relay list yields exactly the addresses that its entries hold (undecodable
  entries are skipped), without repetitions and at most 32 of them.\<close>

theorem relay_list_decoded:
  assumes "length hdr = 8" and "take 2 hdr = [0xf1, 0x69]" and "unat (hdr ! 4) = length es"
    and "length es \<le> 32" and "\<forall>e \<in> set es. length e = 16"
  shows "set (decode_relay_list (hdr @ concat es)) = {a. \<exists>e \<in> set es. decode_network_address e = Inr a} \<and>
    distinct (decode_relay_list (hdr @ concat es)) \<and> length (decode_relay_list (hdr @ concat es)) \<le> 32"
proof -
  let ?p = "hdr @ concat es"
  have len: "length (concat es) = length es * 16"
    using assms(5) by (induction es) auto
  have fourth: "?p ! 4 = hdr ! 4" using assms(1) by (simp add: nth_append)
  have run: "decode_relay_list ?p = decode_relay_entries ?p [0..<length es] []"
    using assms fourth len by (simp add: decode_relay_list_def)
  have entry: "pyslice (8 + i * 16) (8 + i * 16 + 16) ?p = es ! i" if "i < length es" for i
    using that assms(1) pyslice_concat [OF assms(5) that]
    by (simp add: pyslice_append_right add.commute)
  have "set (decode_relay_list ?p) = {a. \<exists>i < length es. decode_network_address (es ! i) = Inr a}"
    unfolding run decode_relay_entries_set using entry by auto
  also have "\<dots> = {a. \<exists>e \<in> set es. decode_network_address e = Inr a}"
    by (simp add: set_conv_nth) blast
  finally show ?thesis
    unfolding run using assms(4) decode_relay_entries_length [of ?p "[0..<length es]" "[]"]
    by (simp add: decode_relay_entries_distinct)
qed

theorem relay_list_decoded_witness:
  "set (decode_relay_list ([0xf1, 0x69, 0, 20, 1, 0, 0, 0] @
     concat [[0, 2, 52, 18, 60, 3, 168, 192, 0, 0, 0, 0, 0, 0, 0, 0]])) =
   {a. \<exists>e \<in> {[0, 2, 52, 18, 60, 3, 168, 192, 0, 0, 0, 0, 0, 0, 0, 0]}. decode_network_address e = Inr a}"
  using relay_list_decoded [of "[0xf1, 0x69, 0, 20, 1, 0, 0, 0]"
      "[[0, 2, 52, 18, 60, 3, 168, 192, 0, 0, 0, 0, 0, 0, 0, 0]]"]
  by simp

section \<open>The service parameter\<close>

text \<open>
  The encoder that the unit tests use to build a service parameter
  (\<open>_encode_service_parameter\<close> of \<open>src/tests/test_cs2.py\<close>) is the reference for the decoder.
\<close>

fun encode_pairs :: "bytes \<Rightarrow> bytes \<Rightarrow> pystr" where
  "encode_pairs [] decoded = []"
| "encode_pairs (value # rest) decoded =
     (let raw = value XOR chain decoded XOR DECODE_LOOKUP ! (length decoded mod length DECODE_LOOKUP)
      in (65 + unat raw div 16) # (65 + unat raw mod 16) # encode_pairs rest (decoded @ [value]))"

fun join :: "nat \<Rightarrow> pystr list \<Rightarrow> pystr" where
  "join c [] = []"
| "join c [s] = s"
| "join c (s # t # ss) = s @ c # join c (t # ss)"

definition encode_service_parameter :: "pystr list \<Rightarrow> pystr \<Rightarrow> pystr" where
  "encode_service_parameter servers key =
     encode_pairs (map of_nat (join 44 servers)) [] @ 58 # key"

lemma decode_encode_pairs: "decode_pairs (encode_pairs bs d) d = Inr (d @ bs)"
proof (induction bs d rule: encode_pairs.induct)
  case (2 v vs decoded)
  have cancel: "k XOR l XOR (v XOR k XOR l) = (v :: byte)" for k l v
    using xor.left_commute [of l v l] by (simp add: xor.assoc xor.left_commute)
  show ?case
    using 2 by (simp add: Let_def byte_nibbles cancel)
qed simp

lemma encode_pairs_letters: "c \<in> set (encode_pairs bs d) \<Longrightarrow> 65 \<le> c \<and> c \<le> 80"
proof (induction bs d rule: encode_pairs.induct)
  case (2 v vs decoded)
  have "65 + unat r div 16 \<le> 80" "65 + unat r mod 16 \<le> 80" for r :: byte
    using byte_nibbles [of r] by linarith+
  with 2 show ?case by (auto simp: Let_def)
qed simp

lemma length_encode_pairs: "length (encode_pairs bs d) = 2 * length bs"
  by (induction bs d rule: encode_pairs.induct) (auto simp: Let_def)

lemma split_on_none: "c \<notin> set s \<Longrightarrow> split_on c s = [s]"
  by (induction s) auto

lemma split_on_join_step: "c \<notin> set s \<Longrightarrow> split_on c (s @ c # r) = s # split_on c r"
  by (induction s) auto

lemma split_on_join: "ss \<noteq> [] \<Longrightarrow> \<forall>s \<in> set ss. c \<notin> set s \<Longrightarrow> split_on c (join c ss) = ss"
  by (induction c ss rule: join.induct) (auto simp: split_on_none split_on_join_step)

lemma set_join: "set (join c ss) \<subseteq> insert c (\<Union>s \<in> set ss. set s)"
  by (induction c ss rule: join.induct) auto

lemma inet_ntoa_text:
  assumes "inet_ntoa q = Inr s"
  shows "s \<noteq> []" "length s \<le> 15" "\<forall>c \<in> set s. 46 \<le> c \<and> c < 58"
proof -
  have l: "length (show_nat (unat b)) \<le> 3" for b :: byte
    by (rule length_show_nat) (simp_all add: unat_byte_bound)
  from assms obtain a b c d where q: "q = [a, b, c, d]"
    by (auto simp: inet_ntoa_def split: list.splits)
  with assms have s: "s = show_nat (unat a) @ 46 # show_nat (unat b) @ 46 #
      show_nat (unat c) @ 46 # show_nat (unat d)"
    by (simp add: inet_ntoa_def)
  show "s \<noteq> []" by (simp add: s)
  show "length s \<le> 15"
    using l [of a] l [of b] l [of c] l [of d] by (simp add: s)
  show "\<forall>c \<in> set s. 46 \<le> c \<and> c < 58"
    by (auto simp: s dest!: show_nat_digits)
qed

lemma length_join: "\<forall>s \<in> set ss. length s \<le> n \<Longrightarrow> length (join c ss) \<le> length ss * Suc n"
  by (induction c ss rule: join.induct) auto

lemma check_servers_ok: "\<forall>s \<in> set ss. \<exists>q. inet_aton s = Inr q \<Longrightarrow> check_servers ss = Inr ()"
  by (induction ss) auto

lemma join_nonempty: "ss \<noteq> [] \<Longrightarrow> \<forall>s \<in> set ss. s \<noteq> [] \<Longrightarrow> join c ss \<noteq> [] \<and> last (join c ss) \<in> set (last ss)"
  by (induction c ss rule: join.induct) auto

lemma rstrip_nul_id: "bs \<noteq> [] \<Longrightarrow> last bs \<noteq> 0 \<Longrightarrow> rstrip_nul bs = bs"
  by (cases bs rule: rev_cases) (auto simp: rstrip_nul_def)

lemma inet_ntoa_list:
  assumes "\<forall>s \<in> set servers. \<exists>q. inet_ntoa q = Inr s" and "servers \<noteq> []" and "length servers \<le> 16"
  shows "list_all (\<lambda>c. 44 \<le> c \<and> c < 58) (join 44 servers)" and "join 44 servers \<noteq> []"
    and "length (join 44 servers) \<le> 256" and "split_on 44 (join 44 servers) = servers"
    and "[] \<notin> set servers" and "\<forall>s \<in> set servers. \<exists>q. inet_aton s = Inr q"
proof -
  have t: "s \<noteq> []" "length s \<le> 15" "\<forall>c \<in> set s. 46 \<le> c \<and> c < 58" "\<exists>q. inet_aton s = Inr q"
    if "s \<in> set servers" for s
  proof -
    from assms(1) that obtain q where q: "inet_ntoa q = Inr s" by blast
    from inet_ntoa_text [OF q] inet_aton_ntoa [OF q]
    show "s \<noteq> []" "length s \<le> 15" "\<forall>c \<in> set s. 46 \<le> c \<and> c < 58" "\<exists>q. inet_aton s = Inr q"
      by auto
  qed
  show "list_all (\<lambda>c. 44 \<le> c \<and> c < 58) (join 44 servers)"
    using set_join [of 44 servers] t(3) by (fastforce simp: list_all_iff)
  show "join 44 servers \<noteq> []"
    using join_nonempty [of servers 44] assms(2) t(1) by blast
  have "length (join 44 servers) \<le> length servers * Suc 15"
    using t(2) by (intro length_join) blast
  with assms(3) show "length (join 44 servers) \<le> 256" by simp
  show "split_on 44 (join 44 servers) = servers"
    using t(3) by (intro split_on_join [OF assms(2)]) fastforce
  show "[] \<notin> set servers" using t(1) by blast
  show "\<forall>s \<in> set servers. \<exists>q. inet_aton s = Inr q" using t(4) by blast
qed

text \<open>The decoder of the service parameter undoes the encoder of the test suite: any one to sixteen
  dotted-quad directory addresses and any ASCII transport key of 1 to 128 characters come back
  unchanged and in order.\<close>

theorem service_parameter_roundtrip:
  assumes "\<forall>s \<in> set servers. \<exists>q. inet_ntoa q = Inr s" and "servers \<noteq> []" and "length servers \<le> 16"
    and "ascii_str key" and "key \<noteq> []" and "length key \<le> 128"
  shows "decode_service_parameter (encode_service_parameter servers key) = Inr (servers, key)"
proof -
  let ?text = "join 44 servers" and ?enc = "encode_pairs (map of_nat (join 44 servers)) []"
  note l = inet_ntoa_list [OF assms(1-3)]
  have colon: "58 \<notin> set ?enc" by (auto dest: encode_pairs_letters)
  have parts: "takeWhile (\<lambda>c. c \<noteq> 58) (?enc @ 58 # key) = ?enc"
    "dropWhile (\<lambda>c. c \<noteq> 58) (?enc @ 58 # key) = 58 # key"
    using colon by (auto simp: takeWhile_append2 dropWhile_append2 takeWhile_append dropWhile_append)
  have ascii: "ascii_str ?text" using l(1) by (auto simp: ascii_str_def list_all_iff)
  have "(of_nat (last ?text) :: byte) \<noteq> 0"
  proof
    assume "(of_nat (last ?text) :: byte) = 0"
    then have "last ?text mod 256 = 0" using unat_of_nat_byte [of "last ?text"] by simp
    moreover have "44 \<le> last ?text \<and> last ?text < 58"
      using l(1,2) by (auto simp: list_all_iff)
    ultimately show False by simp
  qed
  then have strip: "rstrip_nul (map of_nat ?text) = map of_nat ?text"
    using l(2) by (intro rstrip_nul_id) (simp_all add: last_map)
  have dec: "decode_ascii (map of_nat ?text) = Inr ?text"
    using ascii decode_encode_ascii [of ?text] by (simp add: encode_ascii_def)
  have filt: "filter (\<lambda>i. i \<noteq> []) servers = servers"
    using l(5) by (auto simp: filter_id_conv)
  have "decode_service_body ?enc key = Inr (servers, key)"
    using assms(2-4) l(4)
    by (simp add: decode_service_body_def decode_encode_pairs strip dec filt
        check_servers_ok [OF l(6)] encode_ascii_def Let_def)
  then show ?thesis
    using assms(5,6) l(2,3)
    by (simp add: decode_service_parameter_def encode_service_parameter_def Let_def parts
        length_encode_pairs)
       (metis l(2) length_encode_pairs length_0_conv length_map mult_is_0 zero_neq_numeral)
qed

theorem service_parameter_roundtrip_witness:
  "decode_service_parameter (encode_service_parameter [str ''1.2.3.4'', str ''203.0.113.9''] (str ''key''))
     = Inr ([str ''1.2.3.4'', str ''203.0.113.9''], str ''key'')"
proof (rule service_parameter_roundtrip)
  have "inet_ntoa [1, 2, 3, 4] = Inr (str ''1.2.3.4'')"
    and "inet_ntoa [203, 0, 113, 9] = Inr (str ''203.0.113.9'')"
    by (simp_all add: inet_ntoa_def str_def show_nat.simps)
  then show "\<forall>s \<in> set [str ''1.2.3.4'', str ''203.0.113.9'']. \<exists>q. inet_ntoa q = Inr s"
    by auto
qed (simp_all add: ascii_str_def str_def)

lemma check_servers_Inr: "check_servers ss = Inr () \<Longrightarrow> s \<in> set ss \<Longrightarrow> \<exists>q. inet_aton s = Inr q"
  by (induction ss) (auto simp: sbind_eq_Inr)

lemma check_servers_Inl: "check_servers ss = Inl e \<Longrightarrow> \<exists>s \<in> set ss. inet_aton s = Inl e"
  by (induction ss) (auto simp: sbind_eq_Inl)

lemma decode_pairs_Inl: "decode_pairs v d = Inl e \<Longrightarrow> e = service_invalid"
  by (induction v d rule: decode_pairs.induct) (auto split: if_splits)

text \<open>Whatever text the service sends, the decoder either returns one to sixteen non-empty directory
  addresses, each of them accepted by \<open>inet_aton\<close>, with an ASCII key of 1 to 128 characters; or it
  fails with one of its two sanitized messages; or, when a directory holds an embedded NUL
  character, the \<open>ValueError\<close> of \<open>inet_aton\<close> escapes the handler.\<close>

theorem service_parameter_decoded:
  "case decode_service_parameter value of
     Inr (servers, key) \<Rightarrow>
       1 \<le> length servers \<and> length servers \<le> 16 \<and>
       list_all (\<lambda>s. s \<noteq> [] \<and> (\<exists>q. inet_aton s = Inr q)) servers \<and>
       ascii_str key \<and> 1 \<le> length key \<and> length key \<le> 128
   | Inl e \<Rightarrow>
       e = service_invalid \<or> e = CS2Error ''official P2P directory list is invalid'' \<or>
       e = ValueError"
proof -
  have err: "e = service_invalid \<or> e = CS2Error ''official P2P directory list is invalid'' \<or>
       e = ValueError \<or> e = UnicodeError \<or> e = OSError"
    if "decode_service_body encoded key = Inl e" for encoded key e
    using that inet_aton_errors
    by (auto simp: decode_service_body_def sbind_eq_Inl encode_ascii_def decode_ascii_def Let_def
        split: if_splits dest!: decode_pairs_Inl check_servers_Inl)
  have ok: "1 \<le> length servers \<and> length servers \<le> 16 \<and>
       list_all (\<lambda>s. s \<noteq> [] \<and> (\<exists>q. inet_aton s = Inr q)) servers \<and> ascii_str k \<and> k = key"
    if "decode_service_body encoded key = Inr (servers, k)" for encoded key servers k
  proof -
    from that have c: "check_servers servers = Inr ()" "servers \<noteq> []" "length servers \<le> 16"
      "[] \<notin> set servers" "ascii_str k" "k = key"
      by (auto simp: decode_service_body_def sbind_eq_Inr encode_ascii_def Let_def split: if_splits)
    from c(1) have "list_all (\<lambda>s. \<exists>q. inet_aton s = Inr q) servers"
      by (simp add: list_all_iff check_servers_Inr)
    with c(2-6) show ?thesis
      by (auto simp: list_all_iff Suc_le_eq)
  qed
  let ?encoded = "takeWhile (\<lambda>c. c \<noteq> 58) value" and ?key = "drop 1 (dropWhile (\<lambda>c. c \<noteq> 58) value)"
  show ?thesis
  proof (cases "decode_service_parameter value")
    case (Inl e)
    then show ?thesis
      using err [of ?encoded ?key]
      by (auto simp: decode_service_parameter_def Let_def split: if_splits sum.splits)
  next
    case (Inr r)
    then have "decode_service_body ?encoded ?key = Inr r" "1 \<le> length ?key" "length ?key \<le> 128"
      by (auto simp: decode_service_parameter_def Let_def Suc_le_eq split: if_splits sum.splits)
    with ok [of ?encoded ?key "fst r" "snd r"] Inr show ?thesis
      by (cases r) simp
  qed
qed

end
