(* ===== verification/CS2_Channel.thy ===== *)
theory CS2_Channel
  imports Effects CS2_Codec "HOL-Library.Sublist"
begin

text \<open>
  The class \<open>CS2Session\<close> of \<open>src/src/okam_native/cs2.py\<close> apart from \<open>connect\<close>: its state, packet
  counters, sending and receiving, the reliable channels with their acknowledgements,
  reordering and retransmission, \<open>write\<close>, \<open>read_exact\<close> and \<open>close\<close>. A session owns its
  environment: the readings of the monotonic clock still to come, the datagrams the socket will
  deliver, whether each \<open>sendto\<close> fails, and two histories, \<open>wire\<close> (what \<open>sendto\<close> accepted) and
  \<open>requests\<close> (the calls of \<open>_send_clear\<close>). Clock readings are rationals; when they run out the
  observed run ends with \<^const>\<open>Halt\<close>.
\<close>

section \<open>State\<close>

datatype recv = Silence | Datagram bytes endpoint | RecvError

record env =
  ticks :: "rat list"
  inbox :: "recv list"
  send_errors :: "bool list"
  wire :: "(bytes \<times> endpoint) list"
  requests :: "(bytes \<times> endpoint) list"

datatype socket = NoSocket | OpenSocket | ClosedSocket

record cs2 = env +
  prefer_relay :: bool
  sess_uid :: bytes
  servers :: "pystr list"
  sess_key :: pystr
  sock :: socket
  peer :: "endpoint option"
  outgoing_sequence :: "16 word list"
  incoming_sequence :: "16 word list"
  channel_buffers :: "bytes list"
  out_of_order :: "(16 word \<times> bytes) list list"
  pending :: "((nat \<times> 16 word) \<times> (bytes \<times> rat \<times> nat)) list"
  closed :: bool
  counters :: "(string \<times> nat) list"
  close_targets :: "endpoint list"
  connect_path :: string

definition DRW_CHUNK_BYTES :: nat where [simp]: "DRW_CHUNK_BYTES = 1024"
definition MAX_FRAME_BYTES :: nat where [simp]: "MAX_FRAME_BYTES = 8 * 1024 * 1024"
definition RETRANSMIT_SECONDS :: rat where [simp]: "RETRANSMIT_SECONDS = 1 / 2"
definition MAX_RETRANSMITS :: nat where [simp]: "MAX_RETRANSMITS = 20"
definition MAX_COUNTER_KEYS :: nat where [simp]: "MAX_COUNTER_KEYS = 48"

definition init_session ::
  "unicode \<Rightarrow> env \<Rightarrow> pystr \<Rightarrow> pystr \<Rightarrow> bool \<Rightarrow> exn + cs2" where
  "init_session db e uid service_parameter relay =
     sbind (encode_uid db uid) (\<lambda>u.
     sbind (decode_service_parameter service_parameter) (\<lambda>(ss, k).
       Inr \<lparr>ticks = ticks e, inbox = inbox e, send_errors = send_errors e, wire = wire e,
            requests = requests e,
            prefer_relay = relay, sess_uid = u, servers = ss, sess_key = k, sock = NoSocket,
            peer = None, outgoing_sequence = replicate 8 0, incoming_sequence = replicate 8 0,
            channel_buffers = replicate 8 [], out_of_order = replicate 8 [], pending = [],
            closed = False, counters = [], close_targets = [], connect_path = ''''\<rparr>))"

section \<open>Environment calls\<close>

text \<open>\<open>time.monotonic()\<close>.\<close>

definition monotonic :: "('z env_scheme, rat) eff" where
  "monotonic s = (case ticks s of [] \<Rightarrow> (Halt, s) | t # ts \<Rightarrow> (Ret t, s\<lparr>ticks := ts\<rparr>))"

text \<open>\<open>socket.sendto\<close> and \<open>socket.recvfrom\<close>; an empty script sends without error and receives
  nothing before the socket's timeout.\<close>

definition sendto :: "bytes \<Rightarrow> endpoint \<Rightarrow> (cs2, unit) eff" where
  "sendto packet address s =
     (if sock s = ClosedSocket then (Raise OSError, s)
      else case send_errors s of
        [] \<Rightarrow> (Ret (), s\<lparr>wire := wire s @ [(packet, address)]\<rparr>)
      | True # es \<Rightarrow> (Raise OSError, s\<lparr>send_errors := es\<rparr>)
      | False # es \<Rightarrow> (Ret (), s\<lparr>send_errors := es, wire := wire s @ [(packet, address)]\<rparr>))"

definition recvfrom :: "(cs2, (bytes \<times> endpoint) option) eff" where
  "recvfrom s =
     (if sock s = ClosedSocket then (Raise OSError, s)
      else case inbox s of
        [] \<Rightarrow> (Ret None, s)
      | Silence # r \<Rightarrow> (Ret None, s\<lparr>inbox := r\<rparr>)
      | RecvError # r \<Rightarrow> (Raise OSError, s\<lparr>inbox := r\<rparr>)
      | Datagram d a # r \<Rightarrow> (Ret (Some (d, a)), s\<lparr>inbox := r\<rparr>))"

section \<open>Counters\<close>

definition count_in :: "string \<Rightarrow> nat \<Rightarrow> (string \<times> nat) list \<Rightarrow> (string \<times> nat) list" where
  "count_in name amount cs = AList.update name (dict_get cs name 0 + amount) cs"

definition count_amount :: "string \<Rightarrow> nat \<Rightarrow> (cs2, unit) eff" where
  "count_amount name amount = modify (\<lambda>s. s\<lparr>counters := count_in name amount (counters s)\<rparr>)"

definition count :: "string \<Rightarrow> (cs2, unit) eff" where
  "count name = count_amount name 1"

definition count_kind :: "string \<Rightarrow> string \<Rightarrow> (cs2, unit) eff" where
  "count_kind pre kind =
     bind (gets counters) (\<lambda>cs.
       when_do (has_key cs (pre @ kind) \<or> length cs < MAX_COUNTER_KEYS) (count (pre @ kind)))"

section \<open>Packets\<close>

definition connected :: "cs2 \<Rightarrow> bool" where
  "connected s \<longleftrightarrow> peer s \<noteq> None \<and> \<not> closed s"

definition require_connected :: "(cs2, unit) eff" where
  "require_connected =
     bind (gets connected) (\<lambda>c.
       if c then ret () else raise (CS2Error ''native P2P session is not connected''))"

text \<open>The call itself is recorded in \<open>requests\<close>.\<close>

definition send_clear :: "bytes \<Rightarrow> endpoint \<Rightarrow> (cs2, unit) eff" where
  "send_clear packet address =
     seq (modify (\<lambda>s. s\<lparr>requests := requests s @ [(packet, address)]\<rparr>))
     (bind (gets sock) (\<lambda>k.
      if k = NoSocket then raise (CS2Error ''P2P socket is unavailable'')
      else catch
        (bind (gets sess_key) (\<lambda>sk.
         bind (lift_sum (encode_wire_packets sk packet)) (\<lambda>ws.
           for_each ws (\<lambda>w. sendto w address))))
        (\<lambda>e. raise (if e = OSError then CS2Error ''native P2P send failed'' else e))))"

definition receive_clear :: "(cs2, (bytes \<times> endpoint) option) eff" where
  "receive_clear =
     bind (gets sock) (\<lambda>k.
     if k = NoSocket then ret None
     else bind (catch recvfrom
            (\<lambda>e. raise (if e = OSError then CS2Error ''native P2P receive failed'' else e))) (\<lambda>r.
       case r of
         None \<Rightarrow> ret None
       | Some (encrypted, address) \<Rightarrow>
           seq (count ''packets_received'')
           (bind (gets sess_key) (\<lambda>sk.
            bind (lift_sum (open_packet sk encrypted)) (\<lambda>clear.
              if length clear < 4 \<or> clear ! 0 \<noteq> 0xf1
              then seq (count ''packets_undecodable'') (ret None)
              else if be_nat (pyslice 2 4 clear) \<noteq> length clear - 4
              then seq (count ''packets_length_mismatch'') (ret None)
              else ret (Some (clear, address)))))))"

section \<open>Reliable channels\<close>

definition ack_invalid :: "bytes \<Rightarrow> bool" where
  "ack_invalid body \<longleftrightarrow>
     length body < 4 \<or> body ! 0 \<noteq> 0xd1 \<or> 8 \<le> unat (body ! 1) \<or>
     512 < be_nat (pyslice 2 4 body) \<or> length body \<noteq> 4 + be_nat (pyslice 2 4 body) * 2"

definition acked_sequence :: "bytes \<Rightarrow> nat \<Rightarrow> 16 word" where
  "acked_sequence body offset = of_nat (be_nat (pyslice (4 + offset * 2) (6 + offset * 2) body))"

definition handle_ack :: "bytes \<Rightarrow> (cs2, unit) eff" where
  "handle_ack packet =
     (let body = drop 4 packet in
      if ack_invalid body then ret ()
      else for_each [0..<be_nat (pyslice 2 4 body)] (\<lambda>offset.
        modify (\<lambda>s. s\<lparr>pending :=
          AList.delete (unat (body ! 1), acked_sequence body offset) (pending s)\<rparr>)))"

text \<open>The inner loop of \<open>_handle_data\<close>: hand over the held chunks that have become due.\<close>

function drain ::
  "(16 word \<times> bytes) list \<Rightarrow> 16 word \<Rightarrow> bytes \<Rightarrow> bytes \<times> (16 word \<times> bytes) list \<times> 16 word" where
  "drain held expected buffer =
     (case map_of held expected of
        None \<Rightarrow> (buffer, held, expected)
      | Some chunk \<Rightarrow> drain (AList.delete expected held) (expected + 1) (buffer @ chunk))"
  by pat_completeness auto
termination
  by (relation "measure (\<lambda>(held, _, _). length held)")
     (auto intro!: length_delete_less simp: has_key_iff)

declare drain.simps [simp del]

definition accept_chunk :: "nat \<Rightarrow> 16 word \<Rightarrow> bytes \<Rightarrow> cs2 \<Rightarrow> cs2" where
  "accept_chunk channel sequence chunk s =
     (let expected = incoming_sequence s ! channel; held = out_of_order s ! channel in
      if sequence = expected then
        (case drain held (expected + 1) (channel_buffers s ! channel @ chunk) of
          (buffer, held', expected') \<Rightarrow>
            s\<lparr>channel_buffers := (channel_buffers s)[channel := buffer],
              out_of_order := (out_of_order s)[channel := held'],
              incoming_sequence := (incoming_sequence s)[channel := expected']\<rparr>)
      else if \<not> has_key held sequence \<and> length held < 64 then
        (let distance = sequence - expected in
         if 0 < distance \<and> distance < 0x8000
         then s\<lparr>out_of_order := (out_of_order s)[channel := AList.update sequence chunk held]\<rparr>
         else s)
      else s)"

definition data_invalid :: "bytes \<Rightarrow> bool" where
  "data_invalid packet \<longleftrightarrow>
     (let body = drop 4 packet in
      length packet < 4 \<or> be_nat (pyslice 2 4 packet) \<noteq> length body \<or> length body < 4 \<or>
      body ! 0 \<noteq> 0xd1 \<or> 8 \<le> unat (body ! 1))"

definition ack_packet :: "bytes \<Rightarrow> bytes" where
  "ack_packet body =
     [0xf1, 0xd1, 0x00, 0x06, 0xd1, body ! 1, 0x00, 0x01] @ pyslice 2 4 body"

definition channel_counter :: "nat \<Rightarrow> string \<Rightarrow> string" where
  "channel_counter channel ending = ''channel'' @ show_nat_string channel @ ending"

definition handle_data :: "bytes \<Rightarrow> (cs2, unit) eff" where
  "handle_data packet =
     (let body = drop 4 packet; channel = unat (body ! 1) in
      if data_invalid packet then count ''data_packets_invalid''
      else seq (count (channel_counter channel ''_packets''))
        (seq (count_amount (channel_counter channel ''_bytes'') (length body - 4))
        (bind (gets peer) (\<lambda>p. case p of
           None \<Rightarrow> raise AssertionError
         | Some address \<Rightarrow>
             seq (send_clear (ack_packet body) address)
             (modify (accept_chunk channel (of_nat (be_nat (pyslice 2 4 body))) (drop 4 body)))))))"

definition retransmit_one ::
  "rat \<Rightarrow> endpoint \<Rightarrow> (nat \<times> 16 word) \<times> (bytes \<times> rat \<times> nat) \<Rightarrow> (cs2, unit) eff" where
  "retransmit_one now address = (\<lambda>(k, packet, sent_at, attempts).
     if now - sent_at < RETRANSMIT_SECONDS then ret ()
     else if attempts \<ge> MAX_RETRANSMITS then
       seq (modify (\<lambda>s. s\<lparr>pending := AList.delete k (pending s)\<rparr>))
           (raise (CS2Error ''camera did not acknowledge native P2P data''))
     else seq (send_clear packet address)
         (seq (count ''retransmits'')
         (modify (\<lambda>s. s\<lparr>pending := AList.update k (packet, now, attempts + 1) (pending s)\<rparr>))))"

definition retransmit :: "(cs2, unit) eff" where
  "retransmit =
     bind (gets peer) (\<lambda>p. case p of
       None \<Rightarrow> ret ()
     | Some address \<Rightarrow>
         bind monotonic (\<lambda>now.
         bind (gets pending) (\<lambda>items. for_each items (retransmit_one now address))))"

section \<open>Closing, pumping, writing, reading\<close>

primrec notify_close :: "endpoint list \<Rightarrow> bool \<Rightarrow> (cs2, bool) eff" where
  "notify_close [] sent = ret sent"
| "notify_close (target # targets) sent =
     bind (catch (seq (send_clear [0xf1, 0xf0, 0x00, 0x00] target) (ret True))
            (\<lambda>e. if is_cs2_error e then ret sent else raise e))
       (notify_close targets)"

definition close_session :: "(cs2, bool) eff" where
  "close_session =
     bind (gets closed) (\<lambda>already.
     if already then ret True
     else bind (gets (\<lambda>s. case peer s of None \<Rightarrow> close_targets s
                          | Some p \<Rightarrow> set_add p (close_targets s))) (\<lambda>targets.
          bind (gets sock) (\<lambda>k.
          bind (if k \<noteq> NoSocket then notify_close targets False else ret False) (\<lambda>sent.
          seq (when_do (k \<noteq> NoSocket) (modify (\<lambda>s. s\<lparr>sock := ClosedSocket\<rparr>)))
          (seq (modify (\<lambda>s. s\<lparr>closed := True, peer := None\<rparr>))
               (ret sent))))))"

definition dispatch :: "bytes \<Rightarrow> endpoint \<Rightarrow> (cs2, unit) eff" where
  "dispatch packet address =
     (let kind = take 2 packet in
      if kind = [0xf1, 0xe0] then
        seq (count ''alive_requests'') (send_clear [0xf1, 0xe1, 0x00, 0x00] address)
      else if kind = [0xf1, 0x41] then
        seq (count ''punch_repeats'')
          (bind (gets sess_uid) (\<lambda>u. send_clear ([0xf1, 0x42, 0x00, 0x14] @ u) address))
      else if kind = [0xf1, 0x42] then
        seq (count ''readiness_requests'') (send_clear [0xf1, 0x43, 0x00, 0x00] address)
      else if kind = [0xf1, 0xd1] then
        seq (count ''ack_packets'') (handle_ack packet)
      else if kind = [0xf1, 0xd0] then
        seq (count ''data_packets'') (handle_data packet)
      else if kind = [0xf1, 0xf0] then
        seq (count ''close_packets'')
          (bind close_session (\<lambda>_. raise (CS2Error ''camera closed the native P2P session'')))
      else seq (count ''other_packets'') (count_kind ''other_'' (hex_bytes kind)))"

definition pump :: "(cs2, unit) eff" where
  "pump =
     seq retransmit
     (bind receive_clear (\<lambda>received. case received of
        None \<Rightarrow> ret ()
      | Some (packet, address) \<Rightarrow>
          seq (count ''pump_packets'')
          (bind (gets peer) (\<lambda>p.
           if Some address = p then dispatch packet address
           else case p of
             None \<Rightarrow> count ''packets_from_other_source''
           | Some q \<Rightarrow>
               if fst address \<noteq> fst q then count ''packets_from_other_source''
               else seq (count ''peer_port_drift'') (dispatch packet address)))))"

definition chunks_of :: "bytes \<Rightarrow> bytes list" where
  "chunks_of payload =
     map (\<lambda>i. pyslice (i * DRW_CHUNK_BYTES) (i * DRW_CHUNK_BYTES + DRW_CHUNK_BYTES) payload)
       [0..<(length payload + (DRW_CHUNK_BYTES - 1)) div DRW_CHUNK_BYTES]"

definition data_packet :: "nat \<Rightarrow> 16 word \<Rightarrow> bytes \<Rightarrow> bytes" where
  "data_packet channel sequence chunk =
     (let body = [0xd1, of_nat channel] @ be_bytes 2 (unat sequence) @ chunk
      in [0xf1, 0xd0] @ be_bytes 2 (length body) @ body)"

primrec send_chunks :: "nat \<Rightarrow> bytes list \<Rightarrow> (nat \<times> 16 word) list \<Rightarrow> (cs2, (nat \<times> 16 word) list) eff"
where
  "send_chunks channel [] sent_sequences = ret sent_sequences"
| "send_chunks channel (chunk # chunks) sent_sequences =
     bind (gets (\<lambda>s. outgoing_sequence s ! channel)) (\<lambda>sequence.
     seq (modify (\<lambda>s. s\<lparr>outgoing_sequence := (outgoing_sequence s)[channel := sequence + 1]\<rparr>))
     (bind (gets peer) (\<lambda>p. case p of
        None \<Rightarrow> raise AssertionError
      | Some address \<Rightarrow>
          (let packet = data_packet channel sequence chunk in
           seq (send_clear packet address)
           (bind monotonic (\<lambda>now.
            seq (modify (\<lambda>s. s\<lparr>pending :=
                   AList.update (channel, sequence) (packet, now, 1) (pending s)\<rparr>))
            (send_chunks channel chunks (sent_sequences @ [(channel, sequence)]))))))))"

definition await_acks :: "(nat \<times> 16 word) list \<Rightarrow> rat \<Rightarrow> unit \<Rightarrow> (cs2, unit + unit) eff" where
  "await_acks sent_sequences deadline = (\<lambda>_.
     bind (gets (\<lambda>s. list_ex (has_key (pending s)) sent_sequences)) (\<lambda>waiting.
     if \<not> waiting then ret (Inr ())
     else bind monotonic (\<lambda>now.
       if now \<ge> deadline then raise (CS2Error ''camera did not acknowledge native P2P data'')
       else seq pump (ret (Inl ())))))"

text \<open>Every iteration of the waiting loops reads the clock, so one unit of fuel per reading left
  is enough.\<close>

definition session_write :: "int \<Rightarrow> bytes \<Rightarrow> rat \<Rightarrow> (cs2, unit) eff" where
  "session_write channel payload timeout =
     seq require_connected
     (bind (gets (\<lambda>s. length (channel_buffers s))) (\<lambda>n.
      if \<not> (0 \<le> channel \<and> channel < int n) then raise (CS2Error ''P2P channel is invalid'')
      else bind (send_chunks (nat channel) (chunks_of payload) []) (\<lambda>sent_sequences.
           bind monotonic (\<lambda>start.
           bind (gets (\<lambda>s. Suc (length (ticks s)))) (\<lambda>fuel.
             loop fuel (await_acks sent_sequences (start + timeout)) ())))))"

definition await_bytes :: "nat \<Rightarrow> nat \<Rightarrow> rat \<Rightarrow> unit \<Rightarrow> (cs2, unit + unit) eff" where
  "await_bytes channel wanted deadline = (\<lambda>_.
     bind (gets (\<lambda>s. length (channel_buffers s ! channel))) (\<lambda>n.
     if \<not> n < wanted then ret (Inr ())
     else bind monotonic (\<lambda>now.
       if now \<ge> deadline then raise (CS2Timeout ''camera channel read timed out'')
       else seq pump (ret (Inl ())))))"

definition read_exact :: "int \<Rightarrow> int \<Rightarrow> rat \<Rightarrow> (cs2, bytes) eff" where
  "read_exact channel amount timeout =
     seq require_connected
     (bind (gets (\<lambda>s. length (channel_buffers s))) (\<lambda>n.
      if \<not> (0 \<le> channel \<and> channel < int n) \<or> amount < 0 \<or> amount > int MAX_FRAME_BYTES
      then raise (CS2Error ''P2P read request is invalid'')
      else bind monotonic (\<lambda>start.
           bind (gets (\<lambda>s. Suc (length (ticks s)))) (\<lambda>fuel.
           seq (loop fuel (await_bytes (nat channel) (nat amount) (start + timeout)) ())
           (bind (gets (\<lambda>s. channel_buffers s ! nat channel)) (\<lambda>buffer.
            seq (modify (\<lambda>s. s\<lparr>channel_buffers :=
                   (channel_buffers s)[nat channel := drop (nat amount) buffer]\<rparr>))
            (ret (take (nat amount) buffer))))))))"

section \<open>Frames\<close>

text \<open>What a session is apart from its environment and its counters.\<close>

definition core where
  "core s = ((sess_uid s, sess_key s, servers s, prefer_relay s, sock s, peer s, closed s,
              close_targets s, connect_path s),
             (outgoing_sequence s, incoming_sequence s, channel_buffers s, out_of_order s, pending s))"

interpretation core: two_state "same_on core"
  by (rule two_state_same_on)

lemma core_monotonic: "steps_by (same_on core) (monotonic :: (cs2, rat) eff)"
  by (simp add: steps_by_def same_on_def core_def monotonic_def split: list.split)

lemma core_sendto: "steps_by (same_on core) (sendto packet address)"
  by (simp add: steps_by_def same_on_def core_def sendto_def split: list.split bool.split)

lemma core_recvfrom: "steps_by (same_on core) recvfrom"
  by (simp add: steps_by_def same_on_def core_def recvfrom_def split: list.split recv.split)

lemma core_count_amount: "steps_by (same_on core) (count_amount name n)"
  unfolding count_amount_def by (rule core.modify_step) (simp add: same_on_def core_def)

lemma core_count: "steps_by (same_on core) (count name)"
  unfolding count_def by (rule core_count_amount)

lemma core_count_kind: "steps_by (same_on core) (count_kind pre kind)"
  unfolding count_kind_def by (intro core.step_rules core_count)

lemma core_send_clear: "steps_by (same_on core) (send_clear packet address)"
  unfolding send_clear_def
  by (intro core.step_rules core_sendto core.modify_step)
     (simp_all add: same_on_def core_def)

lemma core_receive_clear: "steps_by (same_on core) receive_clear"
  unfolding receive_clear_def
  by (intro core.step_rules core_count core_recvfrom)

lemmas core_steps = core_monotonic core_sendto core_recvfrom core_count_amount core_count
  core_count_kind core_send_clear core_receive_clear

section \<open>The session invariant\<close>

definition FIXED_COUNTERS :: "string list" where
  "FIXED_COUNTERS =
     [''packets_received'', ''packets_undecodable'', ''packets_length_mismatch'', ''pump_packets'',
      ''packets_from_other_source'', ''peer_port_drift'', ''alive_requests'', ''punch_repeats'',
      ''readiness_requests'', ''ack_packets'', ''data_packets'', ''close_packets'',
      ''other_packets'', ''data_packets_invalid'', ''retransmits'', ''declined_readiness''] @
     map (\<lambda>c. channel_counter c ''_packets'') [0..<8] @
     map (\<lambda>c. channel_counter c ''_bytes'') [0..<8]"

definition counters_ok :: "(string \<times> nat) list \<Rightarrow> bool" where
  "counters_ok cs \<longleftrightarrow> distinct (map fst cs) \<and>
     length (filter (\<lambda>n. n \<notin> set FIXED_COUNTERS) (map fst cs)) \<le> MAX_COUNTER_KEYS"

definition channel_ok :: "16 word \<Rightarrow> (16 word \<times> bytes) list \<Rightarrow> bool" where
  "channel_ok expected held \<longleftrightarrow> distinct (map fst held) \<and> length held \<le> 64 \<and>
     list_all (\<lambda>(k, _). 0 < k - expected \<and> k - expected < 0x8000) held"

definition item_ok :: "(nat \<times> 16 word) \<times> (bytes \<times> rat \<times> nat) \<Rightarrow> bool" where
  "item_ok = (\<lambda>((channel, sequence), (packet, sent_at, attempts)).
     channel < 8 \<and> 1 \<le> attempts \<and> attempts \<le> MAX_RETRANSMITS \<and>
     packet = data_packet channel sequence (drop 8 packet) \<and> length packet \<le> 8 + DRW_CHUNK_BYTES)"

definition pending_ok :: "((nat \<times> 16 word) \<times> (bytes \<times> rat \<times> nat)) list \<Rightarrow> bool" where
  "pending_ok p \<longleftrightarrow> distinct (map fst p) \<and> list_all item_ok p"

definition session_ok :: "cs2 \<Rightarrow> bool" where
  "session_ok s \<longleftrightarrow>
     length (outgoing_sequence s) = 8 \<and> length (incoming_sequence s) = 8 \<and>
     length (channel_buffers s) = 8 \<and> length (out_of_order s) = 8 \<and>
     list_all2 channel_ok (incoming_sequence s) (out_of_order s) \<and>
     pending_ok (pending s) \<and> counters_ok (counters s) \<and>
     (peer s \<noteq> None \<longrightarrow> sock s = OpenSocket \<and> \<not> closed s) \<and>
     ascii_str (sess_key s) \<and> length (sess_uid s) = 20"

interpretation ok: two_state "inv_rel session_ok"
  by (rule two_state_inv_rel)

lemma inv_gets_step:
  assumes "\<And>s. P s \<Longrightarrow> steps_by (inv_rel P) (f (g s))"
  shows "steps_by (inv_rel P) (bind (gets g) f)"
  using assms by (auto simp: steps_by_def inv_rel_def bind_gets)

lemma session_ok_core: "core t = core s \<Longrightarrow> counters t = counters s \<Longrightarrow> session_ok s \<Longrightarrow> session_ok t"
  by (simp add: session_ok_def core_def)

lemma FIXED_COUNTERS_distinct: "distinct FIXED_COUNTERS" "length FIXED_COUNTERS = 32"
  by code_simp+

lemma counters_ok_new:
  assumes "counters_ok cs" "\<not> has_key cs name" "name \<in> set FIXED_COUNTERS \<or> length cs < MAX_COUNTER_KEYS"
  shows "counters_ok (cs @ [(name, n)])"
proof -
  have "length (filter (\<lambda>n. n \<notin> set FIXED_COUNTERS) (map fst cs)) < MAX_COUNTER_KEYS"
    if "length cs < MAX_COUNTER_KEYS"
    using le_less_trans [OF length_filter_le [of _ "map fst cs"], of MAX_COUNTER_KEYS] that by simp
  with assms show ?thesis
    by (auto simp: counters_ok_def has_key_def image_iff simp del: filter_map)
qed

lemma counters_ok_count:
  assumes "counters_ok cs" "name \<in> set FIXED_COUNTERS \<or> has_key cs name \<or> length cs < MAX_COUNTER_KEYS"
  shows "counters_ok (count_in name n cs)"
proof (cases "has_key cs name")
  case True
  with assms(1) show ?thesis
    by (simp add: counters_ok_def count_in_def map_fst_update)
next
  case False
  with assms have "counters_ok (cs @ [(name, 0)])"
    by (intro counters_ok_new) auto
  with False show ?thesis
    by (simp add: counters_ok_def count_in_def map_fst_update)
qed

lemma counters_bound:
  assumes "counters_ok cs"
  shows "length cs \<le> 80"
proof -
  let ?fixed = "filter (\<lambda>n. n \<in> set FIXED_COUNTERS) (map fst cs)"
  have "card (set ?fixed) \<le> card (set FIXED_COUNTERS)"
    by (rule card_mono) auto
  moreover have "distinct ?fixed"
    using assms by (simp add: counters_ok_def)
  ultimately have "length ?fixed \<le> 32"
    using FIXED_COUNTERS_distinct distinct_card by metis
  then show ?thesis
    using assms sum_length_filter_compl [of "\<lambda>n. n \<in> set FIXED_COUNTERS" "map fst cs"]
    by (simp add: counters_ok_def)
qed

lemma inv_core_step:
  assumes "steps_by (same_on core) m" "steps_by (same_on counters) m"
  shows "steps_by (inv_rel session_ok) m"
  using assms by (auto simp: steps_by_def same_on_def inv_rel_def intro: session_ok_core)

interpretation stats: two_state "same_on counters"
  by (rule two_state_same_on)

lemma stats_monotonic: "steps_by (same_on counters) (monotonic :: (cs2, rat) eff)"
  by (simp add: steps_by_def same_on_def monotonic_def split: list.split)

lemma stats_sendto: "steps_by (same_on counters) (sendto packet address)"
  by (simp add: steps_by_def same_on_def sendto_def split: list.split bool.split)

lemma stats_recvfrom: "steps_by (same_on counters) recvfrom"
  by (simp add: steps_by_def same_on_def recvfrom_def split: list.split recv.split)

lemma stats_send_clear: "steps_by (same_on counters) (send_clear packet address)"
  unfolding send_clear_def
  by (intro stats.step_rules stats_sendto stats.modify_step) (simp_all add: same_on_def)

lemmas ok_core_steps = inv_core_step [OF core_monotonic stats_monotonic]
  inv_core_step [OF core_recvfrom stats_recvfrom] inv_core_step [OF core_send_clear stats_send_clear]

lemma ok_count_amount:
  "name \<in> set FIXED_COUNTERS \<Longrightarrow> steps_by (inv_rel session_ok) (count_amount name n)"
  unfolding count_amount_def
  by (intro ok.modify_step) (auto simp: inv_rel_def session_ok_def intro: counters_ok_count)

lemma ok_count: "name \<in> set FIXED_COUNTERS \<Longrightarrow> steps_by (inv_rel session_ok) (count name)"
  unfolding count_def by (rule ok_count_amount)

lemma ok_count_kind: "steps_by (inv_rel session_ok) (count_kind pre kind)"
  by (auto simp: steps_by_def inv_rel_def count_kind_def count_def count_amount_def bind_gets
      when_do_def session_ok_def intro: counters_ok_count simp del: MAX_COUNTER_KEYS_def)

lemma fixed_names:
  "''packets_received'' \<in> set FIXED_COUNTERS" "''packets_undecodable'' \<in> set FIXED_COUNTERS"
  "''packets_length_mismatch'' \<in> set FIXED_COUNTERS" "''pump_packets'' \<in> set FIXED_COUNTERS"
  "''packets_from_other_source'' \<in> set FIXED_COUNTERS" "''peer_port_drift'' \<in> set FIXED_COUNTERS"
  "''alive_requests'' \<in> set FIXED_COUNTERS" "''punch_repeats'' \<in> set FIXED_COUNTERS"
  "''readiness_requests'' \<in> set FIXED_COUNTERS" "''ack_packets'' \<in> set FIXED_COUNTERS"
  "''data_packets'' \<in> set FIXED_COUNTERS" "''close_packets'' \<in> set FIXED_COUNTERS"
  "''other_packets'' \<in> set FIXED_COUNTERS" "''data_packets_invalid'' \<in> set FIXED_COUNTERS"
  "''retransmits'' \<in> set FIXED_COUNTERS" "''declined_readiness'' \<in> set FIXED_COUNTERS"
  by (simp_all add: FIXED_COUNTERS_def)

lemma channel_names:
  assumes "c < 8"
  shows "channel_counter c ''_packets'' \<in> set FIXED_COUNTERS"
    and "channel_counter c ''_bytes'' \<in> set FIXED_COUNTERS"
  using assms by (auto simp: FIXED_COUNTERS_def)

lemma ok_receive_clear: "steps_by (inv_rel session_ok) receive_clear"
  unfolding receive_clear_def
  by (intro ok.step_rules ok_count ok_core_steps fixed_names)

subsection \<open>Reordering\<close>

lemma drain_step:
  "map_of held e = None \<Longrightarrow> drain held e b = (b, held, e)"
  "map_of held e = Some c \<Longrightarrow> drain held e b = drain (AList.delete e held) (e + 1) (b @ c)"
  by (simp_all add: drain.simps [of held e b])

lemma channel_ok_drain:
  assumes "distinct (map fst held)" "length held \<le> 64" "\<forall>(k, c) \<in> set held. k - e < 0x8000"
    and "drain held e b = (b', held', e')"
  shows "channel_ok e' held'"
  using assms
proof (induction held e b rule: drain.induct)
  case (1 held e b)
  show ?case
  proof (cases "map_of held e")
    case None
    with 1 have "held' = held" "e' = e" by (simp_all add: drain_step)
    moreover have "k \<noteq> e" if "(k, c) \<in> set held" for k c
      using None that by (force simp: map_of_eq_None_iff)
    ultimately show ?thesis
      using 1(2,3,4) by (auto simp: channel_ok_def list_all_iff word_gt_0)
  next
    case (Some chunk)
    have near: "k - (e + 1) < 0x8000" if "(k, c) \<in> set (AList.delete e held)" for k c
    proof -
      from that have "k - e \<noteq> 0" "(k, c) \<in> set held" by (auto simp: AList.delete_eq)
      then have "unat (k - e - 1) < unat (k - e)" "k - e < 0x8000"
        using 1(4) by (auto intro: measure_unat)
      then show ?thesis by (auto simp: word_less_nat_alt diff_diff_eq)
    qed
    have "length (AList.delete e held) \<le> 64"
      using 1(3) length_delete_dict [of e held] by linarith
    moreover have "drain (AList.delete e held) (e + 1) (b @ chunk) = (b', held', e')"
      using 1(5) Some by (simp add: drain_step)
    ultimately show ?thesis
      using 1(1) [OF Some] 1(2) near by (auto simp: dict_simps)
  qed
qed

lemma drain_prefix:
  "drain held e b = (b', held', e') \<Longrightarrow> prefix b b'"
proof (induction held e b rule: drain.induct)
  case (1 held e b)
  then show ?case
    by (cases "map_of held e") (auto simp: drain_step dest: append_prefixD)
qed

lemma channel_ok_advance:
  assumes "channel_ok e held" "drain held (e + 1) b = (b', held', e')"
  shows "channel_ok e' held'"
proof (rule channel_ok_drain [OF _ _ _ assms(2)])
  have "k - (e + 1) < 0x8000" if "0 < k - e" "k - e < 0x8000" for k :: "16 word"
  proof -
    have "unat (k - e - 1) < unat (k - e)" using that(1) by (intro measure_unat) auto
    with that(2) show ?thesis by (auto simp: word_less_nat_alt diff_diff_eq)
  qed
  with assms(1) show "\<forall>(k, c) \<in> set held. k - (e + 1) < 0x8000"
    by (auto simp: channel_ok_def list_all_iff)
qed (use assms(1) in \<open>auto simp: channel_ok_def\<close>)

lemma channel_ok_hold:
  assumes "channel_ok e held" "length held < 64" "0 < k - e" "k - e < 0x8000"
  shows "channel_ok e (AList.update k c held)"
  using assms
  by (auto simp: channel_ok_def dict_simps length_update_dict list_all_iff dest!: set_update_subset)

lemma session_ok_accept:
  assumes "session_ok s"
  shows "session_ok (accept_chunk ch sq c s)"
proof (cases "ch < 8")
  case True
  let ?e = "incoming_sequence s ! ch" and ?held = "out_of_order s ! ch"
  from assms True have ok: "channel_ok ?e ?held"
    by (auto simp: session_ok_def list_all2_conv_all_nth)
  obtain b h e where d: "drain ?held (?e + 1) (channel_buffers s ! ch @ c) = (b, h, e)"
    using prod_cases3 by blast
  from assms True ok channel_ok_advance [OF ok d] channel_ok_hold [OF ok] show ?thesis
    by (auto simp: accept_chunk_def Let_def d session_ok_def list_all2_conv_all_nth nth_list_update)
next
  case False
  with assms show ?thesis
    by (auto simp: accept_chunk_def Let_def session_ok_def list_update_beyond split: prod.split)
qed

lemma ok_handle_data: "steps_by (inv_rel session_ok) (handle_data packet)"
  unfolding handle_data_def
  by (intro ok.step_rules ok_count ok_count_amount ok_core_steps fixed_names channel_names
      ok.modify_step)
     (auto simp: inv_rel_def data_invalid_def Let_def session_ok_accept)

lemma pending_ok_delete: "pending_ok p \<Longrightarrow> pending_ok (AList.delete k p)"
  by (auto simp: pending_ok_def dict_simps list_all_iff dest: set_delete_subset)

lemma pending_ok_update: "pending_ok p \<Longrightarrow> item_ok (k, v) \<Longrightarrow> pending_ok (AList.update k v p)"
  by (auto simp: pending_ok_def dict_simps list_all_iff dest!: set_update_subset)

lemma ok_handle_ack: "steps_by (inv_rel session_ok) (handle_ack packet)"
  unfolding handle_ack_def
  by (intro ok.step_rules ok.modify_step) (auto simp: inv_rel_def session_ok_def pending_ok_delete)

subsection \<open>The remaining operations\<close>

lemma data_packet_shape:
  "length (data_packet ch sq chunk) = 8 + length chunk" "drop 8 (data_packet ch sq chunk) = chunk"
  by (simp_all add: data_packet_def Let_def be_bytes_def)

lemma item_ok_new:
  "ch < 8 \<Longrightarrow> length chunk \<le> DRW_CHUNK_BYTES \<Longrightarrow> item_ok ((ch, sq), (data_packet ch sq chunk, now, 1))"
  by (simp add: item_ok_def data_packet_shape)

lemma item_ok_again:
  "item_ok (k, packet, sent_at, attempts) \<Longrightarrow> attempts < MAX_RETRANSMITS \<Longrightarrow>
   item_ok (k, packet, now, attempts + 1)"
  by (auto simp: item_ok_def)

lemma ok_pending_step:
  "(\<And>p. pending_ok p \<Longrightarrow> pending_ok (f p)) \<Longrightarrow>
   steps_by (inv_rel session_ok) (modify (\<lambda>s. s\<lparr>pending := f (pending s)\<rparr>))"
  by (intro ok.modify_step) (auto simp: inv_rel_def session_ok_def)

lemma ok_retransmit_one:
  assumes "item_ok item"
  shows "steps_by (inv_rel session_ok) (retransmit_one now address item)"
  unfolding retransmit_one_def
  using assms
  by (intro ok.step_rules ok_core_steps ok_count fixed_names ok_pending_step pending_ok_update
      pending_ok_delete item_ok_again)
     auto

lemma ok_retransmit_all:
  "steps_by (inv_rel session_ok)
     (bind (gets pending) (\<lambda>items. for_each items (retransmit_one now address)))"
  by (intro inv_gets_step ok.for_each_step ok_retransmit_one)
     (auto simp: session_ok_def pending_ok_def list_all_iff)

lemma ok_retransmit: "steps_by (inv_rel session_ok) retransmit"
  unfolding retransmit_def
  by (intro ok_retransmit_all ok.option_step ok.bind_step ok.gets_step ok_core_steps ok.ret_step)

lemma ok_notify_close: "steps_by (inv_rel session_ok) (notify_close targets sent)"
  by (induction targets arbitrary: sent) (auto intro!: ok.step_rules ok_core_steps)

lemma ok_shut:
  "steps_by (inv_rel session_ok)
     (seq (when_do b (modify (\<lambda>s. s\<lparr>sock := ClosedSocket\<rparr>)))
     (seq (modify (\<lambda>s. s\<lparr>closed := True, peer := None\<rparr>)) (ret sent)))"
  by (auto simp: steps_by_def inv_rel_def when_do_def seq_modify session_ok_def seq_def bind_def)

lemma ok_close: "steps_by (inv_rel session_ok) close_session"
  unfolding close_session_def
  by (intro ok_shut ok.if_step ok.ret_step ok.bind_step ok.gets_step ok_notify_close)

lemma ok_dispatch: "steps_by (inv_rel session_ok) (dispatch packet address)"
  unfolding dispatch_def
  by (intro ok.step_rules ok_core_steps ok_count fixed_names ok_handle_ack ok_handle_data ok_close
      ok_count_kind)

lemma ok_pump: "steps_by (inv_rel session_ok) pump"
  unfolding pump_def
  by (intro ok.step_rules ok_count fixed_names ok_retransmit ok_receive_clear ok_dispatch)

lemma chunks_of_bound: "chunk \<in> set (chunks_of payload) \<Longrightarrow> length chunk \<le> DRW_CHUNK_BYTES"
  by (auto simp: chunks_of_def)

lemma ok_send_chunks:
  "ch < 8 \<Longrightarrow> \<forall>chunk \<in> set chunks. length chunk \<le> DRW_CHUNK_BYTES \<Longrightarrow>
   steps_by (inv_rel session_ok) (send_chunks ch chunks sent)"
proof (induction chunks arbitrary: sent)
  case (Cons chunk chunks)
  have out: "steps_by (inv_rel session_ok)
      (modify (\<lambda>s. s\<lparr>outgoing_sequence := (outgoing_sequence s)[ch := sq]\<rparr>))" for sq
    by (intro ok.modify_step) (auto simp: inv_rel_def session_ok_def)
  show ?case
    unfolding send_chunks.simps
    using Cons
    by (intro ok.step_rules out ok_core_steps ok_pending_step pending_ok_update Cons.IH)
       (auto intro!: item_ok_new [simplified])
qed (simp add: ok.ret_step)

lemma ok_require: "steps_by (inv_rel session_ok) require_connected"
  unfolding require_connected_def by (intro ok.step_rules)

lemma ok_write: "steps_by (inv_rel session_ok) (session_write channel payload timeout)"
  unfolding session_write_def await_acks_def
proof (intro ok.seq_step ok_require inv_gets_step ok.if_step ok.raise_step)
  fix s
  assume "session_ok s" "\<not> \<not> (0 \<le> channel \<and> channel < int (length (channel_buffers s)))"
  then have "nat channel < 8" by (auto simp: session_ok_def)
  then show "steps_by (inv_rel session_ok)
     (bind (send_chunks (nat channel) (chunks_of payload) []) (\<lambda>sent_sequences.
      bind monotonic (\<lambda>start.
      bind (gets (\<lambda>s. Suc (length (ticks s)))) (\<lambda>fuel.
        loop fuel (\<lambda>_. bind (gets (\<lambda>s. list_ex (has_key (pending s)) sent_sequences)) (\<lambda>waiting.
          if \<not> waiting then ret (Inr ())
          else bind monotonic (\<lambda>now.
            if now \<ge> start + timeout
            then raise (CS2Error ''camera did not acknowledge native P2P data'')
            else seq pump (ret (Inl ()))))) ()))))"
    using chunks_of_bound
    by (intro ok.step_rules ok_send_chunks ok_core_steps ok_pump) auto
qed

lemma ok_read: "steps_by (inv_rel session_ok) (read_exact channel amount timeout)"
proof -
  have cut: "steps_by (inv_rel session_ok)
      (modify (\<lambda>s. s\<lparr>channel_buffers := (channel_buffers s)[n := b]\<rparr>))" for n b
    by (intro ok.modify_step) (auto simp: inv_rel_def session_ok_def)
  show ?thesis
    unfolding read_exact_def await_bytes_def
    by (intro ok.step_rules ok_require ok_core_steps ok_pump cut)
qed


definition quiet_env :: env where
  "quiet_env = \<lparr>ticks = [], inbox = [], send_errors = [], wire = [], requests = []\<rparr>"

definition test_session :: cs2 where
  "test_session =
     \<lparr>ticks = [0, 1], inbox = [], send_errors = [], wire = [], requests = [], prefer_relay = True,
      sess_uid = replicate 20 7, servers = [str ''192.0.2.1''], sess_key = str ''SSD@cs2-network.'',
      sock = OpenSocket, peer = Some (str ''192.0.2.10'', 32100), outgoing_sequence = replicate 8 0,
      incoming_sequence = replicate 8 0, channel_buffers = replicate 8 [],
      out_of_order = replicate 8 [], pending = [], closed = False, counters = [],
      close_targets = [], connect_path = ''relay''\<rparr>"

lemma test_session_ok: "session_ok test_session"
  by (simp add: session_ok_def test_session_def channel_ok_def pending_ok_def counters_ok_def
      ascii_str_def str_def)


end
