(* ===== verification/CS2_Delivery.thy ===== *)
theory CS2_Delivery
  imports CS2_Channel
begin

text \<open>
  What the reliable channels of \<open>CS2Session\<close> promise. The receiving side is compared with an
  abstract receiver, which knows only how many chunks of the sender's stream it has handed over
  and which later ones it holds; sixteen-bit sequence numbers, the buffer and the dictionary of
  held chunks refine it. The sending side is described by what \<open>write\<close>, \<open>_handle_ack\<close> and
  \<open>_retransmit\<close> do to the pending packets.
\<close>

section \<open>The abstract receiver\<close>

inductive receiver_step :: "nat \<times> nat set \<Rightarrow> nat \<Rightarrow> nat \<times> nat set \<Rightarrow> bool" where
  due: "k < k' \<Longrightarrow> {k + 1..<k'} \<subseteq> H \<Longrightarrow> k' \<notin> H \<Longrightarrow> receiver_step (k, H) k (k', H - {k..k'})"
| hold: "k < i \<Longrightarrow> i < k + 0x8000 \<Longrightarrow> i \<notin> H \<Longrightarrow> card H < 64 \<Longrightarrow>
    receiver_step (k, H) i (k, insert i H)"
| discard: "i < k \<or> k + 0x8000 \<le> i \<or> (i \<noteq> k \<and> (i \<in> H \<or> 64 \<le> card H)) \<Longrightarrow>
    receiver_step (k, H) i (k, H)"

inductive_cases receiver_stepE: "receiver_step (k, H) i (k', H')"

inductive receiver_run :: "nat \<times> nat set \<Rightarrow> nat list \<Rightarrow> nat \<times> nat set \<Rightarrow> bool" where
  run_nil: "receiver_run a [] a"
| run_cons: "receiver_step a i b \<Longrightarrow> receiver_run b is c \<Longrightarrow> receiver_run a (i # is) c"

inductive_simps receiver_run_simps: "receiver_run a [] c" "receiver_run a (i # is) c"

lemma receiver_step_mono: "receiver_step (k, H) i (k', H') \<Longrightarrow> k \<le> k'"
  by (auto elim: receiver_stepE)

lemma receiver_step_due: "receiver_step (k, H) k (k', H') \<Longrightarrow> k < k'"
  by (auto elim: receiver_stepE)

lemma advance_bound:
  assumes "{Suc k..<k'} \<subseteq> H" "H \<subseteq> {..<n}" "k < n"
  shows "k' \<le> n"
proof (rule ccontr)
  assume "\<not> k' \<le> n"
  with assms(3) have "n \<in> {Suc k..<k'}" by simp
  with assms(1,2) show False by blast
qed

lemma receiver_step_bound:
  "receiver_step (k, H) i (k', H') \<Longrightarrow> i < n \<Longrightarrow> H \<subseteq> {..<n} \<Longrightarrow> k \<le> n \<Longrightarrow> H' \<subseteq> {..<n} \<and> k' \<le> n"
  by (erule receiver_stepE) (auto dest: advance_bound)

lemma receiver_run_bound:
  "receiver_run (k, H) is (k', H') \<Longrightarrow> \<forall>i \<in> set is. i < n \<Longrightarrow> H \<subseteq> {..<n} \<Longrightarrow> k \<le> n \<Longrightarrow>
   k \<le> k' \<and> k' \<le> n"
proof (induction "is" arbitrary: k H)
  case (Cons i "is")
  then obtain j G where s: "receiver_step (k, H) i (j, G)" "receiver_run (j, G) is (k', H')"
    by (auto simp: receiver_run_simps)
  with Cons.prems receiver_step_bound [OF s(1), of n] Cons.IH [OF s(2)] receiver_step_mono [OF s(1)]
  show ?case by auto
qed (auto simp: receiver_run_simps)

text \<open>A stream whose chunks arrive in order, possibly between other packets, comes through.\<close>

lemma receiver_run_complete:
  "receiver_run (k, H) is (k', H') \<Longrightarrow> subseq [m..<n] is \<Longrightarrow> m \<le> k \<Longrightarrow> n \<le> k \<or> n \<le> k'"
proof (induction "is" arbitrary: k H m)
  case Nil
  then show ?case by (cases "m < n") (auto simp: receiver_run_simps)
next
  case (Cons i "is")
  then obtain j G where s: "receiver_step (k, H) i (j, G)" "receiver_run (j, G) is (k', H')"
    by (auto simp: receiver_run_simps)
  note jk = receiver_step_mono [OF s(1)]
  have up: "n \<le> j \<or> n \<le> k'" if "subseq [m'..<n] is" "m' \<le> j" for m'
    using Cons.IH [OF s(2) that] .
  have fin: "n \<le> k'" if "n \<le> j"
  proof -
    have "j \<le> k'" using s(2)
      by (induction "is" arbitrary: j G) (auto simp: receiver_run_simps dest!: receiver_step_mono intro: order_trans)
    with that show ?thesis by simp
  qed
  show ?case
  proof (cases "m < n")
    case True
    then have m: "[m..<n] = m # [Suc m..<n]" by (simp add: upt_conv_Cons)
    show ?thesis
    proof (cases "i = m")
      case True
      with Cons.prems(2) m have sub: "subseq [Suc m..<n] is" by (metis subseq_Cons2_iff)
      have "Suc m \<le> j"
        using Cons.prems(3) jk receiver_step_due [of k H j G] s(1) True by (cases "m = k") auto
      from up [OF sub this] fin show ?thesis by auto
    next
      case False
      with Cons.prems(2) m have sub: "subseq [m..<n] is" by (metis subseq_Cons2_neq)
      from up [OF sub] Cons.prems(3) jk fin show ?thesis by auto
    qed
  next
    case False
    with Cons.prems(3) show ?thesis by auto
  qed
qed

section \<open>The channel refines the abstract receiver\<close>

text \<open>
  Channel \<open>ch\<close> of session \<open>s\<close> represents the abstract state \<open>(k, H)\<close> of the stream \<open>f\<close>: the chunks
  \<open>first..<k\<close> have been handed over behind \<open>base\<close>, and exactly the chunks of \<open>H\<close> are held.
\<close>

definition represents ::
  "(nat \<Rightarrow> bytes) \<Rightarrow> nat \<Rightarrow> bytes \<Rightarrow> nat \<Rightarrow> nat \<times> nat set \<Rightarrow> cs2 \<Rightarrow> bool" where
  "represents f ch base first a s \<longleftrightarrow>
     (case a of (k, H) \<Rightarrow>
        first \<le> k \<and> incoming_sequence s ! ch = of_nat k \<and>
        channel_buffers s ! ch = base @ concat (map f [first..<k]) \<and>
        H \<subseteq> {k<..<k + 0x8000} \<and> distinct (map fst (out_of_order s ! ch)) \<and>
        set (out_of_order s ! ch) = (\<lambda>j. (of_nat j, f j)) ` H)"

lemma seq_eq_near:
  assumes "(of_nat j :: 16 word) = of_nat k" "j < k + 65536" "k < j + 65536"
  shows "j = k"
proof -
  have "j mod 65536 = k mod 65536"
    using assms(1) by (simp add: word_of_nat_eq_iff take_bit_eq_mod)
  then show ?thesis
  proof (cases "k \<le> j")
    case True
    with \<open>j mod 65536 = k mod 65536\<close> obtain q where "j = k + 65536 * q"
      using mod_eq_nat1E by blast
    with assms(2) show ?thesis by (cases q) auto
  next
    case False
    with \<open>j mod 65536 = k mod 65536\<close> obtain q where "k = j + 65536 * q"
      using mod_eq_nat2E [of j 65536 k] by auto
    with assms(3) show ?thesis by (cases q) auto
  qed
qed

lemma unat_distance_ahead:
  assumes "k \<le> i" "i < k + 65536"
  shows "unat (of_nat i - of_nat k :: 16 word) = i - k"
proof -
  have "(of_nat i - of_nat k :: 16 word) = of_nat (i - k)"
    using assms(1) by (simp add: of_nat_diff)
  with assms show ?thesis
    by (simp add: unat_of_nat del: of_nat_diff)
qed

lemma unat_distance_behind:
  assumes "i < k" "k \<le> i + 0x8000"
  shows "0x8000 \<le> unat (of_nat i - of_nat k :: 16 word)"
proof -
  have "(of_nat i - of_nat k :: 16 word) = of_nat (i + 65536 - k)"
    using assms by (simp add: of_nat_diff)
  then have "unat (of_nat i - of_nat k :: 16 word) = i + 65536 - k"
    using assms by (simp add: unat_of_nat del: of_nat_diff of_nat_add)
  with assms show ?thesis by simp
qed


lemma drain_represents:
  assumes "k \<le> m" "distinct (map fst held)" "set held = (\<lambda>j. (of_nat j, f j)) ` H" "H \<subseteq> {m..<m + 0x8000}"
    and "drain held (of_nat m) (base @ concat (map f [k..<m])) = (b, held', e)"
  shows "\<exists>m'. m \<le> m' \<and> {m..<m'} \<subseteq> H \<and> m' \<notin> H \<and> e = of_nat m' \<and>
    b = base @ concat (map f [k..<m']) \<and> distinct (map fst held') \<and>
    set held' = (\<lambda>j. (of_nat j, f j)) ` (H - {m..m'})"
  using assms
proof (induction "length held" arbitrary: held m H rule: less_induct)
  case less
  have near: "j = m" if "j \<in> H" "(of_nat j :: 16 word) = of_nat m" for j
    using less.prems(4) that by (intro seq_eq_near) auto
  show ?case
  proof (cases "map_of held (of_nat m)")
    case None
    then have "m \<notin> H" using less.prems(3) by (force simp: map_of_eq_None_iff)
    moreover have "H - {m..m} = H" using \<open>m \<notin> H\<close> by auto
    ultimately show ?thesis
      using less.prems None by (intro exI [of _ m]) (simp add: drain_step)
  next
    case (Some chunk)
    let ?held = "AList.delete (of_nat m) held"
    from Some have "(of_nat m, chunk) \<in> set held" by (rule map_of_SomeD)
    then have m: "m \<in> H" and c: "chunk = f m" using near less.prems(3) by auto
    have del: "set ?held = (\<lambda>j. (of_nat j, f j)) ` (H - {m})"
      using less.prems(3) near by (auto simp: AList.delete_eq)
    have shorter: "length ?held < length held"
      using Some by (intro length_delete_less) (simp add: has_key_iff)
    have sub: "H - {m} \<subseteq> {Suc m..<Suc m + 0x8000}"
      using less.prems(4) by force
    have run: "drain ?held (of_nat (Suc m)) (base @ concat (map f [k..<Suc m])) = (b, held', e)"
      using less.prems(1,5) Some c by (simp add: drain_step add.commute)
    obtain m' where m': "Suc m \<le> m'" "{Suc m..<m'} \<subseteq> H - {m}" "m' \<notin> H - {m}" "e = of_nat m'"
      "b = base @ concat (map f [k..<m'])" "distinct (map fst held')"
      "set held' = (\<lambda>j. (of_nat j, f j)) ` (H - {m} - {Suc m..m'})"
      using less.hyps [OF shorter _ _ del sub run] less.prems(1,2) by (auto simp: dict_simps)
    have "{m..<m'} \<subseteq> H" "m' \<notin> H" "H - {m} - {Suc m..m'} = H - {m..m'}"
      using m m'(1-3) by (auto simp: Suc_le_eq) (metis atLeastLessThan_iff le_neq_implies_less
          not_less_eq_eq subsetD Diff_iff Suc_leI)+
    with m' show ?thesis by (intro exI [of _ m']) auto
  qed
qed


lemma accept_represents:
  assumes "session_ok s" "ch < 8" "represents f ch base first (k, H) s"
    and "k \<le> i + 0x8000" "i < k + 65536"
  shows "\<exists>a. receiver_step (k, H) i a \<and> represents f ch base first a (accept_chunk ch (of_nat i) (f i) s)"
proof -
  let ?e = "incoming_sequence s ! ch" and ?held = "out_of_order s ! ch"
  have len: "ch < length (incoming_sequence s)" "ch < length (out_of_order s)"
    "ch < length (channel_buffers s)"
    using assms(1,2) by (auto simp: session_ok_def)
  have r: "first \<le> k" "?e = of_nat k" "channel_buffers s ! ch = base @ concat (map f [first..<k])"
    "H \<subseteq> {k<..<k + 0x8000}" "distinct (map fst ?held)" "set ?held = (\<lambda>j. (of_nat j, f j)) ` H"
    using assms(3) by (auto simp: represents_def)
  have key: "has_key ?held (of_nat i) \<longleftrightarrow> i \<in> H"
  proof -
    have "j = i" if "j \<in> H" "(of_nat j :: 16 word) = of_nat i" for j
      using that r(4) assms(4,5) by (intro seq_eq_near) force+
    then show ?thesis
      using r(6) by (auto simp: has_key_def image_image)
  qed
  have inj: "inj_on (\<lambda>j. (of_nat j :: 16 word, f j)) H"
  proof (rule inj_onI)
    fix a b assume "a \<in> H" "b \<in> H" "(of_nat a :: 16 word, f a) = (of_nat b, f b)"
    moreover from this r(4) have "a \<in> {k<..<k + 0x8000}" "b \<in> {k<..<k + 0x8000}" by blast+
    ultimately show "a = b" by (intro seq_eq_near) auto
  qed
  have card: "length ?held = card H"
  proof -
    have "distinct ?held" using r(5) by (simp add: distinct_map)
    then have "length ?held = card (set ?held)" by (simp add: distinct_card)
    also have "\<dots> = card H" unfolding r(6) by (rule card_image [OF inj])
    finally show ?thesis .
  qed
  show ?thesis
  proof (cases "i = k")
    case True
    obtain b h e where d: "drain ?held (of_nat (Suc k)) (base @ concat (map f [first..<Suc k])) = (b, h, e)"
      using prod_cases3 by blast
    obtain m' where m': "Suc k \<le> m'" "{Suc k..<m'} \<subseteq> H" "m' \<notin> H" "e = of_nat m'"
      "b = base @ concat (map f [first..<m'])" "distinct (map fst h)"
      "set h = (\<lambda>j. (of_nat j, f j)) ` (H - {Suc k..m'})"
      using drain_represents [OF _ r(5,6) _ d] r(1,4) by force
    have "k \<notin> H" using r(4) by auto
    then have minus: "H - {Suc k..m'} = H - {k..m'}"
      by (auto simp: Suc_le_eq order.order_iff_strict)
    have "receiver_step (k, H) k (m', H - {k..m'})"
      using m' by (intro due) auto
    moreover have acc: "accept_chunk ch (of_nat i) (f i) s =
        s\<lparr>channel_buffers := (channel_buffers s)[ch := b], out_of_order := (out_of_order s)[ch := h],
          incoming_sequence := (incoming_sequence s)[ch := e]\<rparr>"
      using d r(1,2,3) True by (simp add: accept_chunk_def Let_def add.commute)
    have "H - {k..m'} \<subseteq> {m'<..<m' + 0x8000}"
      using r(4) m'(1) by force
    then have "represents f ch base first (m', H - {k..m'}) (accept_chunk ch (of_nat i) (f i) s)"
      using m' r(1) len minus by (simp add: acc represents_def)
    ultimately show ?thesis using True by blast
  next
    case False
    have ne: "(of_nat i :: 16 word) \<noteq> ?e"
      using False assms(4,5) r(2) seq_eq_near [of i k] by auto
    show ?thesis
    proof (cases "k < i \<and> i < k + 0x8000 \<and> i \<notin> H \<and> card H < 64")
      case True
      then have u: "unat (of_nat i - of_nat k :: 16 word) = i - k"
        by (intro unat_distance_ahead) auto
      have "0 < (of_nat i - ?e)" "of_nat i - ?e < (0x8000 :: 16 word)"
        using u True by (auto simp: r(2) word_less_nat_alt)
      then have acc: "accept_chunk ch (of_nat i) (f i) s =
          s\<lparr>out_of_order := (out_of_order s)[ch := AList.update (of_nat i) (f i) ?held]\<rparr>"
        using ne key True card by (simp add: accept_chunk_def Let_def)
      have "AList.update (of_nat i) (f i) ?held = ?held @ [(of_nat i, f i)]"
        using key True by (intro update_new) (auto simp: has_key_def)
      then have "represents f ch base first (k, insert i H) (accept_chunk ch (of_nat i) (f i) s)"
        using r True len key by (auto simp: acc represents_def has_key_def image_iff)
      moreover have "receiver_step (k, H) i (k, insert i H)"
        using True by (intro hold) auto
      ultimately show ?thesis by blast
    next
      case out: False
      have "\<not> (0 < of_nat i - ?e \<and> of_nat i - ?e < (0x8000 :: 16 word))"
        if "i < k \<or> k + 0x8000 \<le> i"
        using that unat_distance_behind [of i k] unat_distance_ahead [of k i] assms(4,5)
        by (auto simp: r(2) word_less_nat_alt)
      then have acc: "accept_chunk ch (of_nat i) (f i) s = s"
        using ne out key card False by (auto simp: accept_chunk_def Let_def not_less)
      have "receiver_step (k, H) i (k, H)"
        using out False by (intro discard) auto
      then show ?thesis using acc assms(3) by auto
    qed
  qed
qed

section \<open>One data packet\<close>

lemma be_bytes_2: "be_bytes 2 n = [of_nat (n div 256), of_nat n]"
  by (simp add: be_bytes_def)

lemma be_nat_2: "n < 65536 \<Longrightarrow> be_nat [of_nat (n div 256), of_nat n] = n"
  using be_nat_be_bytes [of 2 n] by (simp add: be_bytes_2)

lemma data_packet_fields:
  assumes "ch < 8" "length chunk < 65532"
  shows "\<not> data_invalid (data_packet ch sq chunk)"
    and "unat (drop 4 (data_packet ch sq chunk) ! 1) = ch"
    and "of_nat (be_nat (pyslice 2 4 (drop 4 (data_packet ch sq chunk)))) = sq"
    and "drop 4 (drop 4 (data_packet ch sq chunk)) = chunk"
    and "pyslice 2 4 (drop 4 (data_packet ch sq chunk)) = be_bytes 2 (unat sq)"
proof -
  have ch: "unat (of_nat ch :: byte) = ch"
    using assms(1) by (simp add: unat_of_nat)
  have sq: "unat sq < 65536" using unsigned_less [of sq] by simp
  have p: "data_packet ch sq chunk = [0xf1, 0xd0, of_nat ((4 + length chunk) div 256), of_nat (4 + length chunk)] @
      [0xd1, of_nat ch, of_nat (unat sq div 256), of_nat (unat sq)] @ chunk"
    by (simp add: data_packet_def Let_def be_bytes_2 add.commute)
  show "\<not> data_invalid (data_packet ch sq chunk)"
    using assms ch be_nat_2 [of "4 + length chunk"]
    by (simp add: p data_invalid_def pyslice_def del: of_nat_add)
  show "unat (drop 4 (data_packet ch sq chunk) ! 1) = ch"
    "drop 4 (drop 4 (data_packet ch sq chunk)) = chunk"
    by (simp_all add: p ch)
  show "of_nat (be_nat (pyslice 2 4 (drop 4 (data_packet ch sq chunk)))) = sq"
    using be_nat_2 [OF sq] by (simp add: p pyslice_def)
  show "pyslice 2 4 (drop 4 (data_packet ch sq chunk)) = be_bytes 2 (unat sq)"
    by (simp add: p pyslice_def be_bytes_2)
qed


interpretation calls: two_state "same_on requests"
  by (rule two_state_same_on)

lemma calls_sendto: "steps_by (same_on requests) (sendto packet address)"
  by (simp add: steps_by_def same_on_def sendto_def split: list.split bool.split)

text \<open>Every call is recorded once, also when the socket refuses it.\<close>

lemma requests_send_clear:
  assumes "send_clear packet address s = (r, t)"
  shows "requests t = requests s @ [(packet, address)]" "core t = core s" "counters t = counters s"
proof -
  have "steps_by (same_on requests) (bind (gets sock) (\<lambda>k.
      if k = NoSocket then raise (CS2Error ''P2P socket is unavailable'')
      else catch (bind (gets sess_key) (\<lambda>sk. bind (lift_sum (encode_wire_packets sk packet)) (\<lambda>ws.
             for_each ws (\<lambda>w. sendto w address))))
        (\<lambda>e. raise (if e = OSError then CS2Error ''native P2P send failed'' else e))))"
    (is "steps_by _ ?m")
    by (intro calls.step_rules calls_sendto)
  moreover have "?m (s\<lparr>requests := requests s @ [(packet, address)]\<rparr>) = (r, t)"
    using assms by (simp add: send_clear_def seq_modify)
  ultimately show "requests t = requests s @ [(packet, address)]"
    by (auto simp: same_on_def dest: steps_byD)
  show "core t = core s" "counters t = counters s"
    using steps_byD [OF core_send_clear assms] steps_byD [OF stats_send_clear assms]
    by (simp_all add: same_on_def)
qed

lemma bind_apply: "bind m f s = (case m s of (Ret x, t) \<Rightarrow> f x t | (Raise e, t) \<Rightarrow> (Raise e, t) | (Halt, t) \<Rightarrow> (Halt, t))"
  by (simp add: bind_def)

lemma count_amount_apply: "count_amount name n s = (Ret (), s\<lparr>counters := count_in name n (counters s)\<rparr>)"
  by (simp add: count_amount_def)

lemma count_apply: "count name s = (Ret (), s\<lparr>counters := count_in name 1 (counters s)\<rparr>)"
  by (simp add: count_def count_amount_apply)

lemma seq_count: "seq (count name) m s = m (s\<lparr>counters := count_in name 1 (counters s)\<rparr>)"
  "seq (count_amount name n) m s = m (s\<lparr>counters := count_in name n (counters s)\<rparr>)"
  by (simp_all add: seq_def bind_def count_apply count_amount_apply)

lemma core_accept: "core s = core t \<Longrightarrow> core (accept_chunk ch sq c s) = core (accept_chunk ch sq c t)"
  by (simp add: core_def accept_chunk_def Let_def split: prod.split)

lemma requests_accept: "requests (accept_chunk ch sq c s) = requests s"
  by (simp add: accept_chunk_def Let_def split: prod.split)

definition count_data :: "nat \<Rightarrow> nat \<Rightarrow> cs2 \<Rightarrow> cs2" where
  "count_data ch n s = s\<lparr>counters := count_in (channel_counter ch ''_bytes'') n
      (count_in (channel_counter ch ''_packets'') 1 (counters s))\<rparr>"

lemma handle_data_run:
  assumes "ch < 8" "length chunk < 65532" "peer s = Some p"
  shows "handle_data (data_packet ch sq chunk) s =
    seq (send_clear ([0xf1, 0xd1, 0, 6, 0xd1, of_nat ch, 0, 1] @ be_bytes 2 (unat sq)) p)
      (modify (accept_chunk ch sq chunk)) (count_data ch (length chunk) s)"
proof -
  let ?pkt = "data_packet ch sq chunk"
  note fields = data_packet_fields [OF assms(1,2), of sq]
  have "ack_packet (drop 4 ?pkt) = [0xf1, 0xd1, 0, 6, 0xd1, of_nat ch, 0, 1] @ be_bytes 2 (unat sq)"
    using fields(5) by (simp add: ack_packet_def data_packet_def Let_def be_bytes_def)
  then show ?thesis
    using fields assms(3)
    by (simp add: handle_data_def Let_def seq_count bind_gets count_data_def data_packet_shape)
qed

text \<open>A valid data packet is acknowledged to the peer whatever its sequence number, and its chunk
  goes to the reorder buffer unless the acknowledgement could not be sent.\<close>

lemma handle_data_packet:
  assumes "ch < 8" "length chunk < 65532" "peer s = Some p"
    and "handle_data (data_packet ch sq chunk) s = (r, t)"
  shows "requests t = requests s @ [([0xf1, 0xd1, 0, 6, 0xd1, of_nat ch, 0, 1] @ be_bytes 2 (unat sq), p)]"
    and "r = Ret () \<Longrightarrow> core t = core (accept_chunk ch sq chunk s)"
    and "r \<noteq> Ret () \<Longrightarrow> core t = core s"
proof -
  let ?ack = "[0xf1, 0xd1, 0, 6, 0xd1, of_nat ch, 0, 1] @ be_bytes 2 (unat sq)"
  let ?s = "count_data ch (length chunk) s"
  have s1: "core ?s = core s" "requests ?s = requests s"
    by (simp_all add: count_data_def core_def)
  obtain o' u where u: "send_clear ?ack p ?s = (o', u)" by fastforce
  note su = requests_send_clear [OF u]
  note run = handle_data_run [OF assms(1-3), of sq]
  show "requests t = requests s @ [([0xf1, 0xd1, 0, 6, 0xd1, of_nat ch, 0, 1] @ be_bytes 2 (unat sq), p)]"
    using assms(4) run u su s1
    by (auto simp: seq_def bind_def requests_accept split: outcome.splits)
  show "core t = core (accept_chunk ch sq chunk s)" if "r = Ret ()"
    using assms(4) run u su s1 that core_accept [of u s]
    by (auto simp: seq_def bind_def split: outcome.splits)
  show "core t = core s" if "r \<noteq> Ret ()"
    using assms(4) run u su s1 that by (auto simp: seq_def bind_def split: outcome.splits)
qed

lemma represents_core: "core t = core s \<Longrightarrow> represents f ch base first a s \<Longrightarrow> represents f ch base first a t"
  by (auto simp: represents_def core_def split: prod.splits)

text \<open>C1: Handling a data packet refines one step of the abstract receiver, on an endless stream and
  across the wrap-around of the sixteen-bit sequence numbers, as long as the packet is not older
  than half the number space nor a whole number space ahead: the chunk that is due is handed over
  together with the held chunks it makes due, a chunk ahead is held while fewer than 64 are, and
  nothing else changes the channel.\<close>

theorem channel_refines_receiver:
  assumes "session_ok s" and "ch < 8" and "length (f i) < 65532" and "peer s = Some p"
    and "represents f ch base first (k, H) s" and "k \<le> i + 0x8000" and "i < k + 0x10000"
    and "handle_data (data_packet ch (of_nat i) (f i)) s = (Ret (), t)"
  shows "\<exists>k' H'. receiver_step (k, H) i (k', H') \<and> represents f ch base first (k', H') t"
proof -
  have "core t = core (accept_chunk ch (of_nat i) (f i) s)"
    by (rule handle_data_packet(2) [OF assms(2,3,4,8)]) simp
  moreover obtain a where "receiver_step (k, H) i a"
    "represents f ch base first a (accept_chunk ch (of_nat i) (f i) s)"
    using accept_represents [OF assms(1,2,5,6)] assms(7) by auto
  ultimately show ?thesis
    using represents_core by (cases a) blast
qed


subsection \<open>Sending without errors\<close>

lemma for_each_sendto:
  "sock s \<noteq> ClosedSocket \<Longrightarrow> send_errors s = [] \<Longrightarrow>
   for_each ws (\<lambda>w. sendto w address) s = (Ret (), s\<lparr>wire := wire s @ map (\<lambda>w. (w, address)) ws\<rparr>)"
  by (induction ws arbitrary: s) (simp_all add: seq_def bind_def sendto_def)

lemma wire_packets_ascii: "ascii_str k \<Longrightarrow> \<exists>ws. encode_wire_packets k packet = Inr ws"
  by (auto simp: encode_wire_packets_def encrypt_packet_def key_hash_def encode_ascii_def
      split: prod.split)

lemma send_clear_ok:
  assumes "sock s = OpenSocket" "ascii_str (sess_key s)" "send_errors s = []"
    and "encode_wire_packets (sess_key s) packet = Inr ws"
  shows "send_clear packet address s =
    (Ret (), s\<lparr>requests := requests s @ [(packet, address)], wire := wire s @ map (\<lambda>w. (w, address)) ws\<rparr>)"
  using assms
  by (simp add: send_clear_def seq_modify bind_gets catch_def lift_sum_def bind_apply for_each_sendto)

lemma handle_data_ok:
  assumes "session_ok s" "ch < 8" "length chunk < 65532" "peer s = Some p" "send_errors s = []"
  shows "\<exists>t. handle_data (data_packet ch sq chunk) s = (Ret (), t) \<and> send_errors t = []"
proof -
  let ?ack = "[0xf1, 0xd1, 0, 6, 0xd1, of_nat ch, 0, 1] @ be_bytes 2 (unat sq)"
  obtain ws where ws: "encode_wire_packets (sess_key s) ?ack = Inr ws"
    using wire_packets_ascii assms(1) unfolding session_ok_def by blast
  let ?s = "count_data ch (length chunk) s"
  have "send_clear ?ack p ?s =
    (Ret (), ?s\<lparr>requests := requests ?s @ [(?ack, p)], wire := wire ?s @ map (\<lambda>w. (w, p)) ws\<rparr>)"
    using assms ws by (intro send_clear_ok) (simp_all add: count_data_def session_ok_def)
  moreover have "send_errors (accept_chunk ch sq chunk u) = send_errors u" for u
    by (simp add: accept_chunk_def Let_def split: prod.split)
  ultimately show ?thesis
    using handle_data_run [OF assms(2,3,4), of sq] assms(5)
    by (simp add: seq_def bind_def count_data_def)
qed

theorem channel_refines_receiver_witness:
  "\<exists>t k' H'. handle_data (data_packet 1 (of_nat 0) [1, 2]) test_session = (Ret (), t) \<and>
     receiver_step (0, {}) 0 (k', H') \<and> represents (\<lambda>_. [1, 2]) 1 [] 0 (k', H') t"
proof -
  have "\<exists>t. handle_data (data_packet 1 (of_nat 0) [1, 2]) test_session = (Ret (), t) \<and> send_errors t = []"
    by (rule handle_data_ok [OF test_session_ok]) (simp_all add: test_session_def)
  then obtain t where t: "handle_data (data_packet 1 (of_nat 0) [1, 2]) test_session = (Ret (), t)"
    by blast
  have "\<exists>k' H'. receiver_step (0, {}) 0 (k', H') \<and> represents (\<lambda>_. [1, 2]) 1 [] 0 (k', H') t"
    by (rule channel_refines_receiver [OF test_session_ok _ _ _ _ _ _ t])
       (simp_all add: test_session_def represents_def)
  with t show ?thesis by blast
qed

section \<open>A stream of data packets\<close>

lemma peer_accept: "peer (accept_chunk ch sq c s) = peer s"
  by (simp add: accept_chunk_def Let_def split: prod.split)

lemma stream_run:
  assumes "for_each is (\<lambda>i. handle_data (data_packet ch (of_nat i) (f i))) s = (Ret (), t)"
    and "session_ok s" "ch < 8" "peer s = Some p" "represents f ch base first (k, H) s"
    and "\<forall>i \<in> set is. length (f i) < 65532" "\<forall>i \<in> set is. first \<le> i \<and> i < n" "n \<le> first + 0x8000"
    and "H \<subseteq> {..<n}" "k \<le> n"
  shows "\<exists>k' H'. receiver_run (k, H) is (k', H') \<and> represents f ch base first (k', H') t"
  using assms
proof (induction "is" arbitrary: s k H)
  case Nil
  then show ?case by (auto simp: receiver_run_simps)
next
  case (Cons i "is")
  obtain u where u: "handle_data (data_packet ch (of_nat i) (f i)) s = (Ret (), u)"
    and rest: "for_each is (\<lambda>i. handle_data (data_packet ch (of_nat i) (f i))) u = (Ret (), t)"
    using Cons.prems(1) by (auto simp: seq_eq_Ret)
  have len: "length (f i) < 65532" and win: "k \<le> i + 0x8000" "i < k + 65536"
    using Cons.prems(5-10) by (auto simp: represents_def)
  obtain a where a: "receiver_step (k, H) i a"
    "represents f ch base first a (accept_chunk ch (of_nat i) (f i) s)"
    using accept_represents [OF Cons.prems(2,3,5) win] by blast
  have core: "core u = core (accept_chunk ch (of_nat i) (f i) s)"
    by (rule handle_data_packet(2) [OF Cons.prems(3) len Cons.prems(4) u]) simp
  obtain j G where aj: "a = (j, G)" by (cases a)
  have "\<exists>k' H'. receiver_run (j, G) is (k', H') \<and> represents f ch base first (k', H') t"
  proof (rule Cons.IH [OF rest])
    show "session_ok u" by (rule steps_by_invD [OF ok_handle_data Cons.prems(2) u])
    show "peer u = Some p" using core Cons.prems(4) by (simp add: core_def peer_accept)
    show "represents f ch base first (j, G) u" using represents_core [OF core a(2)] aj by simp
    show "G \<subseteq> {..<n}" "j \<le> n"
      using receiver_step_bound [OF a(1) [unfolded aj], of n] Cons.prems(7,9,10) by auto
  qed (use Cons.prems in auto)
  then show ?case using a(1) aj by (auto simp: receiver_run_simps)
qed

text \<open>C2: However the packets of a stream of up to 32768 chunks are reordered, repeated or lost on the
  way, the channel buffer only ever grows by whole chunks in the order of the stream, starting at
  any sequence number; and when the packets that do arrive contain the whole stream in order as a
  subsequence, for instance after enough retransmissions, everything is delivered.\<close>

theorem stream_delivered:
  assumes "session_ok s" and "ch < 8" and "peer s = Some p" and "out_of_order s ! ch = []"
    and "\<forall>c \<in> set chunks. length c < 65532" and "length chunks \<le> 0x8000"
    and "\<forall>i \<in> set arrivals. i < length chunks"
    and "for_each arrivals (\<lambda>i.
           handle_data (data_packet ch (incoming_sequence s ! ch + of_nat i) (chunks ! i))) s = (Ret (), t)"
  shows "\<exists>m \<le> length chunks.
    channel_buffers t ! ch = channel_buffers s ! ch @ concat (take m chunks) \<and>
    (subseq [0..<length chunks] arrivals \<longrightarrow> m = length chunks)"
proof -
  define k where "k = unat (incoming_sequence s ! ch)"
  define f where "f j = chunks ! (j - k)" for j
  let ?n = "k + length chunks"
  have eq: "for_each (map (\<lambda>i. i + k) arrivals) (\<lambda>i. handle_data (data_packet ch (of_nat i) (f i))) s = (Ret (), t)"
  proof -
    have "for_each (map (\<lambda>i. i + k) xs) g = for_each xs (\<lambda>i. g (i + k))" for xs and g :: "nat \<Rightarrow> (cs2, unit) eff"
      by (induction xs) auto
    then show ?thesis
      using assms(8) by (simp add: f_def k_def add.commute)
  qed
  have "represents f ch (channel_buffers s ! ch) k (k, {}) s"
    using assms(4) by (simp add: represents_def k_def)
  from stream_run [OF eq assms(1-3) this, of ?n] assms(5-7)
  obtain k' H' where run: "receiver_run (k, {}) (map (\<lambda>i. i + k) arrivals) (k', H')"
    and rep: "represents f ch (channel_buffers s ! ch) k (k', H') t"
    by (auto simp: f_def)
  have b: "k \<le> k'" "k' \<le> ?n"
    using receiver_run_bound [OF run, of ?n] assms(7) by auto
  have "map f [k..<k'] = take (k' - k) chunks"
    using b by (intro nth_equalityI) (auto simp: f_def)
  then have "channel_buffers t ! ch = channel_buffers s ! ch @ concat (take (k' - k) chunks)"
    using rep by (simp add: represents_def)
  moreover have "k' - k = length chunks" if "subseq [0..<length chunks] arrivals"
  proof -
    have "subseq [k..<?n] (map (\<lambda>i. i + k) arrivals)"
      using subseq_map [OF that, of "\<lambda>i. i + k"] by (simp add: map_add_upt add.commute)
    from receiver_run_complete [OF run this] b show ?thesis by auto
  qed
  ultimately show ?thesis using b by (intro exI [of _ "k' - k"]) auto
qed


lemma stream_run_ok:
  assumes "session_ok s" "ch < 8" "peer s = Some p" "send_errors s = []"
    and "\<forall>i \<in> set is. length (c i) < 65532"
  shows "\<exists>t. for_each is (\<lambda>i. handle_data (data_packet ch (q i) (c i))) s = (Ret (), t)"
  using assms
proof (induction "is" arbitrary: s)
  case (Cons i "is")
  have len: "length (c i) < 65532" using Cons.prems(5) by simp
  from handle_data_ok [OF Cons.prems(1,2) len Cons.prems(3,4)] obtain u where
    u: "handle_data (data_packet ch (q i) (c i)) s = (Ret (), u)" "send_errors u = []" by blast
  have "core u = core (accept_chunk ch (q i) (c i) s)"
    by (rule handle_data_packet(2) [OF Cons.prems(2) len Cons.prems(3) u(1)]) simp
  then have "peer u = Some p" using Cons.prems(3) by (simp add: core_def peer_accept)
  moreover have "session_ok u" by (rule steps_by_invD [OF ok_handle_data Cons.prems(1) u(1)])
  ultimately show ?case
    using Cons.IH [of u] Cons.prems(2,5) u by (auto simp: seq_def bind_def)
qed simp

theorem stream_delivered_witness:
  "\<exists>t. for_each [1, 0, 1] (\<lambda>i. handle_data (data_packet 1
         (incoming_sequence test_session ! 1 + of_nat i) ([[1, 2], [3]] ! i))) test_session = (Ret (), t) \<and>
     channel_buffers t ! 1 = [1, 2, 3]"
proof -
  let ?pkt = "\<lambda>i. data_packet 1 (incoming_sequence test_session ! 1 + of_nat i) ([[1, 2], [3]] ! i)"
  have "\<exists>t. for_each [1, 0, 1] (\<lambda>i. handle_data (?pkt i)) test_session = (Ret (), t)"
    by (rule stream_run_ok [OF test_session_ok]) (simp_all add: test_session_def)
  then obtain t where t: "for_each [1, 0, 1] (\<lambda>i. handle_data (?pkt i)) test_session = (Ret (), t)"
    by blast
  have "\<exists>m \<le> length [[1, 2], [3 :: byte]].
      channel_buffers t ! 1 = channel_buffers test_session ! 1 @ concat (take m [[1, 2], [3]]) \<and>
      (subseq [0..<length [[1, 2], [3 :: byte]]] [1, 0, 1] \<longrightarrow> m = length [[1, 2], [3 :: byte]])"
    by (rule stream_delivered [OF test_session_ok _ _ _ _ _ _ t]) (simp_all add: test_session_def)
  moreover have "subseq [0..<length [[1, 2], [3 :: byte]]] [1, 0, 1]"
    by (simp add: upt_rec)
  ultimately have "channel_buffers t ! 1 = [1, 2, 3]"
    by (auto simp: test_session_def)
  with t show ?thesis by blast
qed

end
