(* ===== verification/CS2_Reliable.thy ===== *)
theory CS2_Reliable
  imports CS2_Delivery
begin

text \<open>
  The sending side and the waiting loops of \<open>CS2Session\<close>: which packets stay pending, what
  \<open>_retransmit\<close> sends, when \<open>write\<close> and \<open>read_exact\<close> return, what a read takes from a channel, and
  what \<open>close\<close> leaves behind.
\<close>

section \<open>Frames of the session operations\<close>

text \<open>Only the calls of \<open>monotonic\<close> consume the clock.\<close>

interpretation clock: two_state "same_on ticks"
  by (rule two_state_same_on)

lemma clock_sendto: "steps_by (same_on ticks) (sendto packet address)"
  by (simp add: steps_by_def same_on_def sendto_def split: list.split bool.split)

lemma clock_recvfrom: "steps_by (same_on ticks) recvfrom"
  by (simp add: steps_by_def same_on_def recvfrom_def split: list.split recv.split)

lemma clock_modify: "(\<And>s. ticks (f s) = ticks s) \<Longrightarrow> steps_by (same_on ticks) (modify f)"
  by (rule clock.modify_step) (simp add: same_on_def)

lemma clock_count: "steps_by (same_on ticks) (count_amount name n)" "steps_by (same_on ticks) (count name)"
  unfolding count_def count_amount_def by (intro clock_modify; simp)+

lemma clock_count_kind: "steps_by (same_on ticks) (count_kind pre kind)"
  unfolding count_kind_def by (intro clock.step_rules clock_count)

lemma clock_send_clear: "steps_by (same_on ticks) (send_clear packet address)"
  unfolding send_clear_def by (intro clock.step_rules clock_sendto clock_modify) simp

lemma clock_receive_clear: "steps_by (same_on ticks) receive_clear"
  unfolding receive_clear_def by (intro clock.step_rules clock_count clock_recvfrom)

lemma clock_accept: "ticks (accept_chunk ch sq c s) = ticks s"
  by (simp add: accept_chunk_def Let_def split: prod.split)

lemma clock_retransmit_one: "steps_by (same_on ticks) (retransmit_one now address item)"
  unfolding retransmit_one_def
  by (intro clock.step_rules clock_send_clear clock_count clock_modify) simp_all

lemma clock_handle: "steps_by (same_on ticks) (handle_ack packet)" "steps_by (same_on ticks) (handle_data packet)"
  unfolding handle_ack_def handle_data_def
  by (intro clock.step_rules clock_send_clear clock_count clock_modify; simp add: clock_accept)+

lemma clock_notify: "steps_by (same_on ticks) (notify_close targets sent)"
  by (induction targets arbitrary: sent) (auto intro!: clock.step_rules clock_send_clear)

lemma clock_close: "steps_by (same_on ticks) close_session"
  unfolding close_session_def
  by (intro clock.step_rules clock_notify clock_modify) simp_all

lemma clock_dispatch: "steps_by (same_on ticks) (dispatch packet address)"
  unfolding dispatch_def
  by (intro clock.step_rules clock_send_clear clock_count clock_count_kind clock_handle clock_close)

lemmas clock_steps = clock_send_clear clock_receive_clear clock_count clock_count_kind
  clock_retransmit_one clock_handle clock_close clock_dispatch

text \<open>
  What only ever grows while a session is pumped, written to or closed: the history of calls and
  the channel buffers; the clock and the inbox are only consumed, and the identity of the session
  stays.
\<close>

definition grows :: "cs2 \<Rightarrow> cs2 \<Rightarrow> bool" where
  "grows s t \<longleftrightarrow> prefix (requests s) (requests t) \<and> suffix (ticks t) (ticks s) \<and>
     suffix (inbox t) (inbox s) \<and> list_all2 prefix (channel_buffers s) (channel_buffers t) \<and>
     (sess_uid t, sess_key t, servers t, prefer_relay t, close_targets t, connect_path t, outgoing_sequence t) =
     (sess_uid s, sess_key s, servers s, prefer_relay s, close_targets s, connect_path s, outgoing_sequence s)"

lemma list_all2_prefix_refl: "list_all2 prefix bs bs"
  by (simp add: list_all2_conv_all_nth)

lemma list_all2_prefix_update:
  "prefix (bs ! ch) b \<Longrightarrow> list_all2 prefix bs (bs[ch := b])"
  by (cases "ch < length bs") (simp_all add: list_all2_conv_all_nth nth_list_update list_update_beyond)

interpretation grows: two_state grows
proof unfold_locales
  show "grows s s" for s by (simp add: grows_def list_all2_prefix_refl)
  show "grows s u" if "grows s t" "grows t u" for s t u
    using that list_all2_trans [of prefix prefix prefix "channel_buffers s" "channel_buffers t"
        "channel_buffers u"] prefix_order.trans suffix_order.trans
    unfolding grows_def by (metis prod.inject)
qed

lemma grows_modify:
  assumes "\<And>s. requests (f s) = requests s" "\<And>s. ticks (f s) = ticks s" "\<And>s. inbox (f s) = inbox s"
    "\<And>s. channel_buffers (f s) = channel_buffers s" "\<And>s. sess_uid (f s) = sess_uid s"
    "\<And>s. sess_key (f s) = sess_key s" "\<And>s. servers (f s) = servers s"
    "\<And>s. prefer_relay (f s) = prefer_relay s" "\<And>s. close_targets (f s) = close_targets s"
    "\<And>s. connect_path (f s) = connect_path s" "\<And>s. outgoing_sequence (f s) = outgoing_sequence s"
  shows "steps_by grows (modify f)"
  by (rule grows.modify_step) (simp add: grows_def assms list_all2_prefix_refl)

lemma grows_monotonic: "steps_by grows (monotonic :: (cs2, rat) eff)"
  by (auto simp: steps_by_def grows_def monotonic_def list_all2_prefix_refl suffix_Cons split: list.split)

lemma grows_sendto: "steps_by grows (sendto packet address)"
  by (simp add: steps_by_def grows_def sendto_def list_all2_prefix_refl split: list.split bool.split)

lemma grows_recvfrom: "steps_by grows recvfrom"
  by (simp add: steps_by_def grows_def recvfrom_def list_all2_prefix_refl suffix_Cons
      split: list.split recv.split)

lemma grows_count: "steps_by grows (count_amount name n)" "steps_by grows (count name)"
  unfolding count_def count_amount_def by (intro grows_modify; simp)+

lemma grows_count_kind: "steps_by grows (count_kind pre kind)"
  unfolding count_kind_def by (intro grows.step_rules grows_count)

lemma grows_record: "steps_by grows (modify (\<lambda>s. s\<lparr>requests := requests s @ [c]\<rparr>))"
  by (rule grows.modify_step) (simp add: grows_def list_all2_prefix_refl)

lemma grows_send_clear: "steps_by grows (send_clear packet address)"
  unfolding send_clear_def by (intro grows.step_rules grows_sendto grows_record)

lemma grows_receive_clear: "steps_by grows receive_clear"
  unfolding receive_clear_def by (intro grows.step_rules grows_count grows_recvfrom)

lemma grows_accept: "grows s (accept_chunk ch sq c s)"
proof -
  have "prefix (channel_buffers s ! ch) b"
    if "drain (out_of_order s ! ch) (sq + 1) (channel_buffers s ! ch @ c) = (b, h, e)" for b h e
    using drain_prefix [OF that] by (rule append_prefixD)
  then show ?thesis
    by (auto simp: accept_chunk_def Let_def grows_def list_all2_prefix_refl list_all2_prefix_update
        split: prod.split)
qed

lemma grows_retransmit_one: "steps_by grows (retransmit_one now address item)"
  unfolding retransmit_one_def
  by (intro grows.step_rules grows_send_clear grows_count grows_modify) simp_all

lemma grows_retransmit: "steps_by grows retransmit"
  unfolding retransmit_def by (intro grows.step_rules grows_retransmit_one grows_monotonic)

lemma grows_handle_ack: "steps_by grows (handle_ack packet)"
  unfolding handle_ack_def by (intro grows.step_rules grows_modify) simp_all

lemma grows_handle_data: "steps_by grows (handle_data packet)"
  unfolding handle_data_def
  by (intro grows.step_rules grows_send_clear grows_count grows.modify_step grows_accept)

lemma grows_notify: "steps_by grows (notify_close targets sent)"
  by (induction targets arbitrary: sent) (auto intro!: grows.step_rules grows_send_clear)

lemma grows_close: "steps_by grows close_session"
  unfolding close_session_def
  by (intro grows.step_rules grows_notify grows_modify) simp_all

lemma grows_dispatch: "steps_by grows (dispatch packet address)"
  unfolding dispatch_def
  by (intro grows.step_rules grows_send_clear grows_count grows_count_kind grows_handle_ack
      grows_handle_data grows_close)

lemma grows_pump: "steps_by grows pump"
  unfolding pump_def
  by (intro grows.step_rules grows_retransmit grows_receive_clear grows_count grows_dispatch)

section \<open>Acknowledgements\<close>

definition acked_keys :: "bytes \<Rightarrow> (nat \<times> 16 word) list" where
  "acked_keys body =
     (if ack_invalid body then []
      else map (\<lambda>i. (unat (body ! 1), acked_sequence body i)) [0..<be_nat (pyslice 2 4 body)])"

lemma for_each_modify: "for_each xs (\<lambda>x. modify (f x)) s = (Ret (), fold f xs s)"
  by (induction xs arbitrary: s) (simp_all add: seq_modify)

lemma fold_delete_pending:
  "fold (\<lambda>i s. s\<lparr>pending := AList.delete (k i) (pending s)\<rparr>) is s =
   s\<lparr>pending := filter (\<lambda>(j, _). j \<notin> k ` set is) (pending s)\<rparr>"
proof (induction "is" arbitrary: s)
  case (Cons i "is")
  have "filter (\<lambda>(j, _). j \<notin> k ` set is) (AList.delete (k i) (pending s)) =
      filter (\<lambda>(j, _). j \<notin> k ` set (i # is)) (pending s)"
    by (auto simp: AList.delete_eq intro!: filter_cong)
  with Cons show ?case by simp
qed (simp add: case_prod_unfold)

lemma handle_ack_run:
  "handle_ack packet s =
     (Ret (), s\<lparr>pending := filter (\<lambda>(k, _). k \<notin> set (acked_keys (drop 4 packet))) (pending s)\<rparr>)"
proof (cases "ack_invalid (drop 4 packet)")
  case True
  then show ?thesis by (simp add: handle_ack_def acked_keys_def case_prod_unfold)
next
  case False
  then show ?thesis
    by (simp add: handle_ack_def Let_def acked_keys_def for_each_modify fold_delete_pending)
qed

text \<open>An acknowledgement takes exactly the pending packets that it lists out of the retransmission
  set, keeps the others with their order, send times and attempt counts, and never fails; a
  malformed one (wrong mark, channel, more than 512 entries or a wrong length) changes nothing.\<close>

theorem ack_removes_listed:
  "handle_ack packet s =
     (Ret (), s\<lparr>pending := filter (\<lambda>(k, _). k \<notin> set (acked_keys (drop 4 packet))) (pending s)\<rparr>)"
  by (rule handle_ack_run)

section \<open>Retransmission\<close>

definition overdue :: "rat \<Rightarrow> (nat \<times> 16 word) \<times> (bytes \<times> rat \<times> nat) \<Rightarrow> bool" where
  "overdue now = (\<lambda>(_, _, sent_at, _). RETRANSMIT_SECONDS \<le> now - sent_at)"

definition resent :: "rat \<Rightarrow> (nat \<times> 16 word) \<times> (bytes \<times> rat \<times> nat) \<Rightarrow> (nat \<times> 16 word) \<times> (bytes \<times> rat \<times> nat)" where
  "resent now = (\<lambda>(k, packet, sent_at, attempts).
     if RETRANSMIT_SECONDS \<le> now - sent_at then (k, packet, now, attempts + 1)
     else (k, packet, sent_at, attempts))"

lemma update_middle:
  "distinct (map fst (xs @ (k, v) # ys)) \<Longrightarrow> AList.update k w (xs @ (k, v) # ys) = xs @ (k, w) # ys"
  by (induction xs) auto

lemma retransmit_items:
  assumes "for_each items (retransmit_one now address) s = (Ret (), t)"
    and "pending s = done' @ items" "distinct (map fst (pending s))"
  shows "pending t = done' @ map (resent now) items \<and>
    requests t = requests s @ map (\<lambda>(_, packet, _). (packet, address)) (filter (overdue now) items) \<and>
    list_all (\<lambda>i. overdue now i \<longrightarrow> snd (snd (snd i)) < MAX_RETRANSMITS) items"
  using assms
proof (induction items arbitrary: s done')
  case (Cons item items)
  obtain k packet sent_at attempts where item: "item = (k, packet, sent_at, attempts)"
    by (cases item) auto
  obtain u where u: "retransmit_one now address item s = (Ret (), u)"
    and rest: "for_each items (retransmit_one now address) u = (Ret (), t)"
    using Cons.prems(1) by (auto simp: seq_eq_Ret)
  have step: "pending u = (done' @ [resent now item]) @ items \<and>
      requests u = requests s @ (if overdue now item then [(packet, address)] else []) \<and>
      (overdue now item \<longrightarrow> attempts < MAX_RETRANSMITS)"
  proof (cases "overdue now item")
    case False
    with u Cons.prems(2) show ?thesis
      by (simp add: item retransmit_one_def overdue_def resent_def)
  next
    case True
    have att: "attempts < MAX_RETRANSMITS"
      using u True by (auto simp: item retransmit_one_def overdue_def seq_modify split: if_splits)
    obtain v where v: "send_clear packet address s = (Ret (), v)"
      and u': "u = v\<lparr>counters := count_in ''retransmits'' 1 (counters v),
        pending := AList.update k (packet, now, attempts + 1) (pending v)\<rparr>"
      using u True att by (auto simp: item retransmit_one_def overdue_def seq_eq_Ret count_apply)
    note c = requests_send_clear [OF v]
    have "pending v = done' @ (k, packet, sent_at, attempts) # items"
      using c(2) Cons.prems(2) item by (simp add: core_def)
    then have "AList.update k (packet, now, attempts + 1) (pending v) =
        done' @ (k, packet, now, attempts + 1) # items"
      using Cons.prems(2,3) item by (simp add: update_middle)
    with c(1) u' att True show ?thesis
      by (simp add: item resent_def overdue_def)
  qed
  have "fst (resent now item) = fst item" by (simp add: item resent_def)
  then have "distinct (map fst (pending u))" using Cons.prems(2,3) step by auto
  from Cons.IH [OF rest conjunct1 [OF step] this] step show ?case
    by (auto simp: item)
qed simp

text \<open>A retransmission pass that returns has sent every packet pending for half a second or longer
  once more, in order and unchanged, to the current peer and no other packet; has stamped exactly
  those with the time of the pass and one more attempt; and none of them had used up its 20
  attempts. A pending packet is never dropped silently.\<close>

theorem retransmit_overdue:
  assumes "session_ok s" and "peer s = Some p" and "retransmit s = (Ret (), t)"
  shows "\<exists>now rest. ticks s = now # rest \<and> ticks t = rest \<and>
    pending t = map (resent now) (pending s) \<and>
    requests t = requests s @ map (\<lambda>(_, packet, _). (packet, p)) (filter (overdue now) (pending s)) \<and>
    list_all (\<lambda>i. overdue now i \<longrightarrow> snd (snd (snd i)) < 20) (pending s)"
proof -
  from assms(2,3) obtain now u where now: "monotonic s = (Ret now, u)"
    and run: "for_each (pending u) (retransmit_one now p) u = (Ret (), t)"
    by (auto simp: retransmit_def bind_gets bind_eq_Ret)
  from now have u: "ticks s = now # ticks u" "pending u = pending s" "requests u = requests s"
    by (auto simp: monotonic_def split: list.splits)
  have "distinct (map fst (pending u))"
    using assms(1) u by (simp add: session_ok_def pending_ok_def)
  from retransmit_items [OF run _ this, of "[]"] u
  have "pending t = map (resent now) (pending s)"
    "requests t = requests s @ map (\<lambda>(_, packet, _). (packet, p)) (filter (overdue now) (pending s))"
    "list_all (\<lambda>i. overdue now i \<longrightarrow> snd (snd (snd i)) < 20) (pending s)" by auto
  moreover have "ticks t = ticks u"
  proof -
    have "steps_by (same_on ticks) (for_each (pending u) (retransmit_one now p))"
      by (intro clock.for_each_step clock_retransmit_one)
    from steps_byD [OF this run] show ?thesis by (simp add: same_on_def)
  qed
  ultimately show ?thesis using u by blast
qed


section \<open>Writing\<close>

lemma send_chunks_Ret:
  assumes "send_chunks ch chunks sent s = (Ret r, t)" "ch < length (outgoing_sequence s)"
  shows "r = sent @ map (\<lambda>i. (ch, outgoing_sequence s ! ch + of_nat i)) [0..<length chunks] \<and>
    requests t = requests s @ map (\<lambda>i. (data_packet ch (outgoing_sequence s ! ch + of_nat i) (chunks ! i),
            the (peer s))) [0..<length chunks] \<and>
    outgoing_sequence t = (outgoing_sequence s)[ch := outgoing_sequence s ! ch + of_nat (length chunks)]"
  using assms
proof (induction chunks arbitrary: sent s)
  case (Cons chunk chunks)
  let ?sq = "outgoing_sequence s ! ch"
  let ?s = "s\<lparr>outgoing_sequence := (outgoing_sequence s)[ch := ?sq + 1]\<rparr>"
  obtain p where p: "peer s = Some p"
    using Cons.prems(1) by (auto simp: bind_gets seq_modify split: option.splits)
  obtain v now w where v: "send_clear (data_packet ch ?sq chunk) p ?s = (Ret (), v)"
    and now: "monotonic v = (Ret now, w)"
    and rest: "send_chunks ch chunks (sent @ [(ch, ?sq)])
      (w\<lparr>pending := AList.update (ch, ?sq) (data_packet ch ?sq chunk, now, 1) (pending w)\<rparr>) = (Ret r, t)"
    using Cons.prems(1) p by (auto simp: bind_gets seq_modify seq_eq_Ret bind_eq_Ret Let_def)
  let ?u = "w\<lparr>pending := AList.update (ch, ?sq) (data_packet ch ?sq chunk, now, 1) (pending w)\<rparr>"
  note c = requests_send_clear [OF v]
  from now have w: "requests w = requests v" "core w = core v"
    by (auto simp: monotonic_def core_def split: list.splits)
  have core: "outgoing_sequence ?u = (outgoing_sequence s)[ch := ?sq + 1]" "peer ?u = Some p"
    using c(2) w(2) p by (simp_all add: core_def)
  have len: "ch < length (outgoing_sequence ?u)" using core Cons.prems(2) by simp
  have at: "outgoing_sequence ?u ! ch = ?sq + 1" using core Cons.prems(2) by simp
  note IH = Cons.IH [OF rest len, unfolded at]
  have shift: "map g [0..<length (chunk # chunks)] = g 0 # map (\<lambda>i. g (Suc i)) [0..<length chunks]"
    for g :: "nat \<Rightarrow> 'b"
    by (simp add: upt_conv_Cons map_Suc_upt [symmetric] del: upt_Suc)
  show ?case
    unfolding shift using IH c(1) w(1) core p by (simp add: add.assoc)
qed simp

lemma grows_await_acks: "steps_by grows (await_acks sent deadline l)"
  unfolding await_acks_def by (intro grows.step_rules grows_monotonic grows_pump)

lemma grows_await_bytes: "steps_by grows (await_bytes ch n deadline l)"
  unfolding await_bytes_def by (intro grows.step_rules grows_monotonic grows_pump)

lemma write_cases:
  assumes "session_write channel payload timeout s = (Ret (), t)"
  obtains sent u start v where "connected s" "0 \<le> channel" "channel < int (length (channel_buffers s))"
    "send_chunks (nat channel) (chunks_of payload) [] s = (Ret sent, u)"
    "ticks u = start # ticks v" "v = u\<lparr>ticks := tl (ticks u)\<rparr>"
    "loop (Suc (length (ticks v))) (await_acks sent (start + timeout)) () v = (Ret (), t)"
proof -
  from assms have c: "connected s" "0 \<le> channel" "channel < int (length (channel_buffers s))"
    and b: "bind (send_chunks (nat channel) (chunks_of payload) []) (\<lambda>sent_sequences.
           bind monotonic (\<lambda>start. bind (gets (\<lambda>s. Suc (length (ticks s)))) (\<lambda>fuel.
             loop fuel (await_acks sent_sequences (start + timeout)) ()))) s = (Ret (), t)"
    by (auto simp: session_write_def require_connected_def bind_gets seq_eq_Ret split: if_splits)
  from b obtain sent u where "send_chunks (nat channel) (chunks_of payload) [] s = (Ret sent, u)"
    and m: "bind monotonic (\<lambda>start. bind (gets (\<lambda>s. Suc (length (ticks s)))) (\<lambda>fuel.
             loop fuel (await_acks sent (start + timeout)) ())) u = (Ret (), t)"
    by (auto simp: bind_eq_Ret)
  moreover from m obtain start v where "monotonic u = (Ret start, v)"
    "loop (Suc (length (ticks v))) (await_acks sent (start + timeout)) () v = (Ret (), t)"
    by (auto simp: bind_eq_Ret bind_gets)
  moreover from this have "ticks u = start # ticks v" "v = u\<lparr>ticks := tl (ticks u)\<rparr>"
    by (auto simp: monotonic_def split: list.splits)
  ultimately show ?thesis using c that by blast
qed



definition ack_session :: cs2 where
  "ack_session = test_session\<lparr>ticks := [0, 0, 0, 0],
     inbox := [Datagram [0xf1, 0xd1, 0, 6, 0xd1, 0, 0, 1, 0, 0] (str ''192.0.2.10'', 32100)]\<rparr>"

lemma ack_session_ok: "session_ok ack_session"
  using test_session_ok by (simp add: session_ok_def ack_session_def)

lemma test_key_ascii: "ascii_str (str ''SSD@cs2-network.'')"
  by (simp add: ascii_str_def str_def)

lemma ack_session_write: "\<exists>t. session_write 0 [1, 2] 5 ack_session = (Ret (), t)"
proof -
  obtain ws where ws: "encode_wire_packets (str ''SSD@cs2-network.'') (data_packet 0 0 [1, 2]) = Inr ws"
    using wire_packets_ascii [OF test_key_ascii] by blast
  have ch: "chunks_of [1, 2] = [[1, 2 :: byte]]" by (simp add: chunks_of_def pyslice_def)
  have rx: "open_packet (str ''SSD@cs2-network.'') [0xf1, 0xd1, 0, 6, 0xd1, 0, 0, 1, 0, 0] =
      Inr [0xf1, 0xd1, 0, 6, 0xd1, 0, 0, 1, 0, 0]"
    by (simp add: open_packet_def)
  show ?thesis
    by (simp add: session_write_def require_connected_def connected_def seq_def bind_def
        ack_session_def test_session_def ch)
      (simp add: send_clear_ok seq_def bind_def Let_def test_key_ascii ws monotonic_def await_acks_def
        has_key_def pump_def retransmit_def retransmit_one_def receive_clear_def recvfrom_def
        catch_def rx seq_count lift_sum_def be_nat_def pyslice_def dispatch_def count_apply
        handle_ack_run acked_keys_def ack_invalid_def acked_sequence_def)
qed


theorem retransmit_overdue_witness:
  "\<exists>t. retransmit (test_session\<lparr>pending := [((0, 0), data_packet 0 0 [1], 0, 20)], ticks := [0]\<rparr>) = (Ret (), t) \<and>
     requests t = [] \<and> length (pending t) = 1"
proof -
  let ?s = "test_session\<lparr>pending := [((0, 0), data_packet 0 0 [1], 0, 20)], ticks := [0]\<rparr>"
  have ok: "session_ok ?s"
    using test_session_ok by (simp add: session_ok_def pending_ok_def item_ok_def data_packet_shape)
  have p: "peer ?s = Some (str ''192.0.2.10'', 32100)" by (simp add: test_session_def)
  obtain t where t: "retransmit ?s = (Ret (), t)"
    by (simp add: retransmit_def bind_def test_session_def monotonic_def retransmit_one_def seq_def)
  from retransmit_overdue [OF ok p t] have "requests t = [] \<and> length (pending t) = 1"
    by (auto simp: overdue_def test_session_def)
  with t show ?thesis by blast
qed

section \<open>Reading\<close>

lemma read_cases:
  assumes "read_exact channel amount timeout s = (Ret b, t)"
  obtains start v u where "connected s" "0 \<le> channel" "channel < int (length (channel_buffers s))"
    "0 \<le> amount" "amount \<le> int MAX_FRAME_BYTES" "ticks s = start # ticks v" "v = s\<lparr>ticks := tl (ticks s)\<rparr>"
    "loop (Suc (length (ticks v))) (await_bytes (nat channel) (nat amount) (start + timeout)) () v = (Ret (), u)"
    "b = take (nat amount) (channel_buffers u ! nat channel)"
    "t = u\<lparr>channel_buffers := (channel_buffers u)[nat channel := drop (nat amount) (channel_buffers u ! nat channel)]\<rparr>"
proof -
  from assms have g: "connected s" "0 \<le> channel" "channel < int (length (channel_buffers s))"
    "0 \<le> amount" "amount \<le> int MAX_FRAME_BYTES"
    and b: "bind monotonic (\<lambda>start. bind (gets (\<lambda>s. Suc (length (ticks s)))) (\<lambda>fuel.
      seq (loop fuel (await_bytes (nat channel) (nat amount) (start + timeout)) ())
      (bind (gets (\<lambda>s. channel_buffers s ! nat channel)) (\<lambda>buffer.
       seq (modify (\<lambda>s. s\<lparr>channel_buffers := (channel_buffers s)[nat channel := drop (nat amount) buffer]\<rparr>))
       (ret (take (nat amount) buffer)))))) s = (Ret b, t)"
    by (simp_all add: read_exact_def require_connected_def bind_gets seq_eq_Ret split: if_splits)
  from b obtain start v where m: "monotonic s = (Ret start, v)" and b: "seq
      (loop (Suc (length (ticks v))) (await_bytes (nat channel) (nat amount) (start + timeout)) ())
      (bind (gets (\<lambda>s. channel_buffers s ! nat channel)) (\<lambda>buffer.
       seq (modify (\<lambda>s. s\<lparr>channel_buffers := (channel_buffers s)[nat channel := drop (nat amount) buffer]\<rparr>))
       (ret (take (nat amount) buffer)))) v = (Ret b, t)"
    by (auto simp: bind_eq_Ret [of monotonic] bind_gets)
  from b obtain u where
    "loop (Suc (length (ticks v))) (await_bytes (nat channel) (nat amount) (start + timeout)) () v = (Ret (), u)"
    "b = take (nat amount) (channel_buffers u ! nat channel)"
    "t = u\<lparr>channel_buffers := (channel_buffers u)[nat channel := drop (nat amount) (channel_buffers u ! nat channel)]\<rparr>"
    unfolding seq_eq_Ret by (auto simp: bind_gets seq_modify)
  moreover from m have "ticks s = start # ticks v" "v = s\<lparr>ticks := tl (ticks s)\<rparr>"
    by (auto simp: monotonic_def split: list.splits)
  ultimately show ?thesis using g by (intro that)
qed

lemma read_takes_stream:
  assumes "read_exact channel amount timeout s = (Ret b, t)"
  shows "int (length b) = amount \<and>
    (\<exists>arrived. channel_buffers s ! nat channel @ arrived = b @ channel_buffers t ! nat channel) \<and>
    list_all (\<lambda>c. c \<noteq> nat channel \<longrightarrow> prefix (channel_buffers s ! c) (channel_buffers t ! c))
      [0..<length (channel_buffers s)]"
proof -
  let ?ch = "nat channel" and ?n = "nat amount"
  from read_cases [OF assms] obtain start v u where c: "0 \<le> channel"
    "channel < int (length (channel_buffers s))" "0 \<le> amount" "v = s\<lparr>ticks := tl (ticks s)\<rparr>"
    "loop (Suc (length (ticks v))) (await_bytes ?ch ?n (start + timeout)) () v = (Ret (), u)"
    "b = take ?n (channel_buffers u ! ?ch)"
    "t = u\<lparr>channel_buffers := (channel_buffers u)[?ch := drop ?n (channel_buffers u ! ?ch)]\<rparr>"
    by metis
  obtain l w where g: "grows v w" and w: "await_bytes ?ch ?n (start + timeout) l w = (Ret (Inr ()), u)"
    using loop_Ret [OF c(5) grows.two_state_axioms grows_await_bytes] by blast
  from w have u: "u = w" "?n \<le> length (channel_buffers w ! ?ch)"
    by (auto simp: await_bytes_def bind_gets bind_eq_Ret seq_eq_Ret split: if_splits)
  have pre: "list_all2 prefix (channel_buffers s) (channel_buffers u)"
    using g c(4) u(1) by (simp add: grows_def)
  have ch: "?ch < length (channel_buffers s)" using c(1,2) by auto
  have whole: "b @ channel_buffers t ! ?ch = channel_buffers u ! ?ch" and "int (length b) = amount"
    using c(3,6,7) u ch pre by (auto simp: list_all2_conv_all_nth)
  moreover have "\<exists>arrived. channel_buffers s ! ?ch @ arrived = channel_buffers u ! ?ch"
    using pre ch by (auto simp: list_all2_conv_all_nth prefix_def)
  moreover have "channel_buffers t ! i = channel_buffers u ! i" if "i \<noteq> ?ch" for i
    using that c(7) by simp
  ultimately show ?thesis
    using pre by (simp add: whole list_all2_conv_all_nth list_all_iff)
qed

text \<open>C6: A read that returns hands out exactly the requested number of bytes, and no byte of any
  channel is lost, repeated or reordered by it: what the channel held before, followed by what
  arrived while waiting, is what was handed out followed by what the channel holds now, and every
  other channel has only grown.\<close>

theorem read_conserves_stream:
  assumes "read_exact channel amount timeout s = (Ret b, t)"
  shows "int (length b) = amount \<and>
    (\<exists>arrived. channel_buffers s ! nat channel @ arrived = b @ channel_buffers t ! nat channel) \<and>
    list_all (\<lambda>c. c \<noteq> nat channel \<longrightarrow> prefix (channel_buffers s ! c) (channel_buffers t ! c))
      [0..<length (channel_buffers s)]"
  using assms by (rule read_takes_stream)

theorem read_conserves_stream_witness:
  "\<exists>b t. read_exact 1 3 5 (test_session\<lparr>channel_buffers := (channel_buffers test_session)[1 := [1, 2, 3, 4]]\<rparr>) =
     (Ret b, t) \<and> length b = 3"
proof -
  let ?s = "test_session\<lparr>channel_buffers := (channel_buffers test_session)[1 := [1, 2, 3, 4]]\<rparr>"
  obtain b t where r: "read_exact 1 3 5 ?s = (Ret b, t)"
    by (simp add: read_exact_def require_connected_def connected_def seq_def bind_def test_session_def
        monotonic_def await_bytes_def)
  from read_conserves_stream [OF r] have "length b = 3" by simp
  with r show ?thesis by blast
qed


section \<open>The waiting loops come back\<close>

lemma returns_sendto: "no_halt (sendto packet address)"
  by (simp add: no_halt_def sendto_def split: list.split bool.split)

lemma returns_recvfrom: "no_halt recvfrom"
  by (simp add: no_halt_def recvfrom_def split: list.split recv.split)

lemma returns_count: "no_halt (count_amount name n)" "no_halt (count name)" "no_halt (count_kind pre kind)"
  unfolding count_kind_def count_def count_amount_def by (intro no_halt_rules)+

lemma returns_send_clear: "no_halt (send_clear packet address)"
  unfolding send_clear_def by (intro no_halt_rules returns_sendto)

lemma returns_receive_clear: "no_halt receive_clear"
  unfolding receive_clear_def by (intro no_halt_rules returns_recvfrom returns_count)

lemma returns_handle: "no_halt (handle_ack packet)" "no_halt (handle_data packet)"
  unfolding handle_ack_def handle_data_def
  by (intro no_halt_rules returns_count returns_send_clear)+

lemma returns_retransmit_one: "no_halt (retransmit_one now address item)"
  unfolding retransmit_one_def by (intro no_halt_rules returns_count returns_send_clear)

lemma returns_notify: "no_halt (notify_close targets sent)"
  by (induction targets arbitrary: sent) (auto intro!: no_halt_rules returns_send_clear)

lemma returns_close: "no_halt close_session"
  unfolding close_session_def by (intro no_halt_rules returns_notify)

lemma returns_dispatch: "no_halt (dispatch packet address)"
  unfolding dispatch_def
  by (intro no_halt_rules returns_count returns_send_clear returns_handle returns_close)

lemma pump_clock:
  assumes "pump s = (r, t)"
  shows "(r = Halt \<longrightarrow> ticks s = []) \<and> (ticks t = ticks s \<or> ticks t = tl (ticks s))"
proof -
  let ?rest = "bind receive_clear (\<lambda>received. case received of
        None \<Rightarrow> ret ()
      | Some (packet, address) \<Rightarrow>
          seq (count ''pump_packets'')
          (bind (gets peer) (\<lambda>p.
           if Some address = p then dispatch packet address
           else case p of
             None \<Rightarrow> count ''packets_from_other_source''
           | Some q \<Rightarrow>
               if fst address \<noteq> fst q then count ''packets_from_other_source''
               else seq (count ''peer_port_drift'') (dispatch packet address))))"
  have rest: "no_halt ?rest" "steps_by (same_on ticks) ?rest"
    by (intro no_halt_rules returns_receive_clear returns_count returns_dispatch)
       (intro clock.step_rules clock_steps)
  obtain o' u where u: "retransmit s = (o', u)" by fastforce
  have "(o' = Halt \<longrightarrow> ticks s = []) \<and> (ticks u = ticks s \<or> ticks u = tl (ticks s))"
  proof (cases "peer s")
    case None
    with u show ?thesis by (auto simp: retransmit_def bind_gets)
  next
    case (Some p)
    have items: "no_halt (for_each xs (retransmit_one now p))"
      "steps_by (same_on ticks) (for_each xs (retransmit_one now p))" for xs now
      by (intro no_halt_rules returns_retransmit_one) (intro clock.step_rules clock_retransmit_one)
    show ?thesis
    proof (cases "ticks s")
      case Nil
      with u Some show ?thesis by (simp add: retransmit_def bind_def monotonic_def)
    next
      case (Cons now ts)
      with u Some have "for_each (pending s) (retransmit_one now p) (s\<lparr>ticks := ts\<rparr>) = (o', u)"
        by (simp add: retransmit_def bind_def monotonic_def)
      with Cons no_haltD [OF items(1)] steps_byD [OF items(2)] show ?thesis
        by (force simp: same_on_def)
    qed
  qed
  moreover have "if o' = Ret () then ?rest u = (r, t) else (t = u \<and> (r = Halt \<longleftrightarrow> o' = Halt))"
    using assms u by (auto simp: pump_def seq_def bind_apply [of retransmit] split: outcome.splits)
  ultimately show ?thesis
    using rest by (auto dest: no_haltD steps_byD simp: same_on_def split: if_splits)
qed

text \<open>A clock whose last readings are past a deadline: two of them, or the very last one.\<close>

definition late :: "rat \<Rightarrow> rat list \<Rightarrow> bool" where
  "late deadline ts \<longleftrightarrow>
     (\<exists>pre a b. ts = pre @ [a, b] \<and> deadline \<le> a \<and> deadline \<le> b) \<or> (\<exists>b. ts = [b] \<and> deadline \<le> b)"

lemma late_nonempty: "late d ts \<Longrightarrow> ts \<noteq> []"
  by (auto simp: late_def)

lemma late_step:
  assumes "late d (t # ts)" "t < d"
  shows "late d ts" "late d (tl ts)"
proof -
  from assms obtain pre a b where ab: "t # ts = pre @ [a, b]" "d \<le> a" "d \<le> b"
    by (auto simp: late_def)
  with assms(2) obtain pre' where ts: "ts = pre' @ [a, b]" by (cases pre) auto
  with ab show "late d ts" by (auto simp: late_def)
  show "late d (tl ts)" using ts ab(2,3) by (cases pre') (auto simp: late_def)
qed

lemma await_loop_returns:
  assumes "\<And>s l. late deadline (ticks s) \<Longrightarrow> body l s = (Halt, t) \<Longrightarrow> False"
    and "\<And>s l l' u. late deadline (ticks s) \<Longrightarrow> body l s = (Ret (Inl l'), u) \<Longrightarrow>
      late deadline (ticks u) \<and> length (ticks u) < length (ticks s)"
    and "late deadline (ticks s)" "length (ticks s) < n"
  shows "loop n body l s \<noteq> (Halt, t)"
  using assms(3,4)
proof (induction n arbitrary: s l)
  case (Suc n)
  show ?case
  proof
    assume "loop (Suc n) body l s = (Halt, t)"
    then obtain r u where u: "body l s = (Ret r, u)"
      and rest: "(case r of Inl l' \<Rightarrow> loop n body l' | Inr x \<Rightarrow> ret x) u = (Halt, t)"
      using assms(1) Suc.prems(1) by (fastforce elim: bind_cases)
    then obtain l' where r: "r = Inl l'" by (cases r) auto
    with assms(2) [OF Suc.prems(1)] u have "late deadline (ticks u)" "length (ticks u) < length (ticks s)"
      by blast+
    with Suc.IH [of u l'] rest r Suc.prems(2) show False by simp
  qed
qed simp

lemma await_step:
  assumes "late d (ticks s)" "bind monotonic (\<lambda>now. if now \<ge> d then raise e else seq pump (ret (Inl ()))) s = (r, u)"
  shows "r \<noteq> Halt" "r = Ret (Inl ()) \<Longrightarrow> late d (ticks u) \<and> length (ticks u) < length (ticks s)"
proof -
  obtain now ts where ts: "ticks s = now # ts"
    using late_nonempty [OF assms(1)] by (cases "ticks s") auto
  have run: "(if now \<ge> d then raise e else seq pump (ret (Inl ()))) (s\<lparr>ticks := ts\<rparr>) = (r, u)"
    using assms(2) ts by (simp add: bind_def monotonic_def)
  show "r \<noteq> Halt"
    using run late_step [of d now ts] assms(1) ts late_nonempty
    by (auto simp: seq_def bind_def dest!: pump_clock split: if_splits outcome.splits prod.splits)
  show "late d (ticks u) \<and> length (ticks u) < length (ticks s)" if "r = Ret (Inl ())"
  proof -
    from run that have n: "now < d" and p: "pump (s\<lparr>ticks := ts\<rparr>) = (Ret (), u)"
      by (auto simp: seq_eq_Ret split: if_splits)
    with pump_clock [OF p] late_step [of d now ts] assms(1) ts show ?thesis by auto
  qed
qed

lemma await_bytes_returns:
  assumes "late d (ticks s)" "length (ticks s) < n"
  shows "loop n (await_bytes ch m d) () s \<noteq> (Halt, t)"
proof (rule await_loop_returns [OF _ _ assms])
  fix s :: cs2 and l assume "late d (ticks s)" "await_bytes ch m d l s = (Halt, t)"
  then show False
    by (auto simp: await_bytes_def bind_gets split: if_splits dest: await_step(1))
next
  fix s u :: cs2 and l l' assume "late d (ticks s)" "await_bytes ch m d l s = (Ret (Inl l'), u)"
  then show "late d (ticks u) \<and> length (ticks u) < length (ticks s)"
    by (auto simp: await_bytes_def bind_gets split: if_splits dest: await_step(2))
qed

lemma await_acks_returns:
  assumes "late d (ticks s)" "length (ticks s) < n"
  shows "loop n (await_acks sent d) () s \<noteq> (Halt, t)"
proof (rule await_loop_returns [OF _ _ assms])
  fix s :: cs2 and l assume "late d (ticks s)" "await_acks sent d l s = (Halt, t)"
  then show False
    by (auto simp: await_acks_def bind_gets split: if_splits dest: await_step(1))
next
  fix s u :: cs2 and l l' assume "late d (ticks s)" "await_acks sent d l s = (Ret (Inl l'), u)"
  then show "late d (ticks u) \<and> length (ticks u) < length (ticks s)"
    by (auto simp: await_acks_def bind_gets split: if_splits dest: await_step(2))
qed

text \<open>C27: A read always comes back, with the bytes or with an error, once the clock has passed its
  deadline for two readings, whatever the network does in the meantime.\<close>

theorem read_returns:
  assumes "ticks s = start # readings @ [a, b]" and "start + timeout \<le> a" and "start + timeout \<le> b"
  shows "fst (read_exact channel amount timeout s) \<noteq> Halt"
proof
  assume "fst (read_exact channel amount timeout s) = Halt"
  then obtain t where h: "read_exact channel amount timeout s = (Halt, t)" by (metis prod.collapse)
  let ?v = "s\<lparr>ticks := readings @ [a, b]\<rparr>"
  have late: "late (start + timeout) (ticks ?v)" using assms(2,3) by (auto simp: late_def)
  have "loop (Suc (length (ticks ?v))) (await_bytes (nat channel) (nat amount) (start + timeout)) () ?v = (Halt, t)"
    using h assms(1)
    by (auto simp: read_exact_def require_connected_def bind_gets seq_def monotonic_def bind_apply
        simp del: loop.simps split: if_splits outcome.splits prod.splits)
  with await_bytes_returns [OF late lessI] show False by simp
qed

theorem read_returns_witness: "fst (read_exact 1 4 1 (test_session\<lparr>ticks := [0, 1, 1]\<rparr>)) \<noteq> Halt"
  by (rule read_returns [of _ 0 "[]" 1 1]) simp_all


lemma send_chunks_clock:
  assumes "send_chunks ch chunks sent s = (r, t)" "length chunks \<le> length (ticks s)"
  shows "r \<noteq> Halt \<and> (\<forall>x. r = Ret x \<longrightarrow> ticks t = drop (length chunks) (ticks s))"
  using assms
proof (induction chunks arbitrary: sent s)
  case (Cons chunk chunks)
  let ?sq = "outgoing_sequence s ! ch"
  let ?s = "s\<lparr>outgoing_sequence := (outgoing_sequence s)[ch := ?sq + 1]\<rparr>"
  show ?case
  proof (cases "peer s")
    case None
    with Cons.prems(1) show ?thesis by (auto simp: bind_gets seq_modify)
  next
    case (Some p)
    obtain o' v where v: "send_clear (data_packet ch ?sq chunk) p ?s = (o', v)" by fastforce
    have tv: "ticks v = ticks s" using steps_byD [OF clock_send_clear v] by (simp add: same_on_def)
    have o': "o' \<noteq> Halt" using no_haltD [OF returns_send_clear] v by metis
    obtain now ts where ts: "ticks v = now # ts"
      using Cons.prems(2) tv by (cases "ticks s") auto
    let ?u = "v\<lparr>ticks := ts, pending := AList.update (ch, ?sq) (data_packet ch ?sq chunk, now, 1) (pending v)\<rparr>"
    show ?thesis
    proof (cases "o' = Ret ()")
      case True
      with Cons.prems(1) Some v ts have "send_chunks ch chunks (sent @ [(ch, ?sq)]) ?u = (r, t)"
        by (simp add: bind_gets seq_modify Let_def seq_def bind_def monotonic_def)
      from Cons.IH [OF this] Cons.prems(2) ts tv show ?thesis by auto
    next
      case False
      with o' obtain e where "o' = Raise e" by (cases o') auto
      with Cons.prems(1) Some v show ?thesis
        by (auto simp: bind_gets seq_modify Let_def seq_def bind_def)
    qed
  qed
qed auto

text \<open>A write always comes back, acknowledged or with an error, once the clock has passed its deadline
  for two readings: after one reading for each data packet and one for the start of the wait.\<close>

theorem write_returns:
  assumes "ticks s = sends @ start # readings @ [a, b]" and "length sends = length (chunks_of payload)"
    and "start + timeout \<le> a" and "start + timeout \<le> b"
  shows "fst (session_write channel payload timeout s) \<noteq> Halt"
proof
  assume "fst (session_write channel payload timeout s) = Halt"
  then obtain t where h: "session_write channel payload timeout s = (Halt, t)" by (metis prod.collapse)
  obtain r u where u: "send_chunks (nat channel) (chunks_of payload) [] s = (r, u)" by fastforce
  have r: "r \<noteq> Halt" and ticks: "\<And>x. r = Ret x \<Longrightarrow> ticks u = start # readings @ [a, b]"
    using send_chunks_clock [OF u] assms(1,2) by auto
  let ?v = "u\<lparr>ticks := readings @ [a, b]\<rparr>"
  have late: "late (start + timeout) (ticks ?v)" using assms(3,4) by (auto simp: late_def)
  obtain x where "r = Ret x" "loop (Suc (length (ticks ?v))) (await_acks x (start + timeout)) () ?v = (Halt, t)"
    using h r u ticks
    by (cases r) (auto simp: session_write_def require_connected_def bind_gets seq_def monotonic_def
        bind_apply simp del: loop.simps split: if_splits)
  with await_acks_returns [OF late lessI] show False by simp
qed

theorem write_returns_witness:
  "fst (session_write 0 [1, 2] 5 (test_session\<lparr>ticks := [0, 0, 5, 5]\<rparr>)) \<noteq> Halt"
  by (rule write_returns [of _ "[0]" 0 "[]" 5 5]) (simp_all add: chunks_of_def)

section \<open>Closing\<close>

lemma send_clear_errors:
  assumes "send_clear packet address s = (Raise e, t)" "ascii_str (sess_key s)"
  shows "is_cs2_error e"
proof -
  have send: "e' = OSError" if "for_each ws (\<lambda>w. sendto w a) u = (Raise e', v)" for ws a u v e'
    using that
    by (induction ws arbitrary: u)
       (auto simp: seq_def bind_def sendto_def split: prod.splits outcome.splits if_splits list.splits bool.splits)
  obtain ws where "encode_wire_packets (sess_key s) packet = Inr ws"
    using wire_packets_ascii [OF assms(2)] by blast
  with assms(1) show ?thesis
    by (auto simp: send_clear_def seq_modify bind_gets catch_def lift_sum_def bind_def
        split: if_splits prod.splits outcome.splits dest!: send)
qed

definition close_packet :: bytes where
  "close_packet = [0xf1, 0xf0, 0x00, 0x00]"

lemma notify_close_run:
  assumes "ascii_str (sess_key s)"
  shows "\<exists>b t. notify_close targets sent s = (Ret b, t) \<and> core t = core s \<and> counters t = counters s \<and>
    requests t = requests s @ map (\<lambda>a. (close_packet, a)) targets"
  using assms
proof (induction targets arbitrary: sent s)
  case (Cons a targets)
  obtain r u where u: "send_clear close_packet a s = (r, u)" by fastforce
  note c = requests_send_clear [OF u]
  have key: "ascii_str (sess_key u)" using c(2) Cons.prems by (simp add: core_def)
  obtain b where "notify_close (a # targets) sent s = notify_close targets b u"
  proof (cases r)
    case (Ret x)
    with u that show ?thesis
      by (simp add: close_packet_def [symmetric] bind_def catch_def seq_def)
  next
    case (Raise e)
    with u have "is_cs2_error e" using send_clear_errors Cons.prems by blast
    with u Raise that show ?thesis
      by (simp add: close_packet_def [symmetric] bind_def catch_def seq_def)
  next
    case Halt
    with u have False using no_haltD [OF returns_send_clear] by metis
    then show ?thesis ..
  qed
  with Cons.IH [OF key, of b] c show ?case by auto
qed simp

text \<open>C40: Closing a session never fails: it sends one close packet to every endpoint the session touched
  and to its peer, closes the socket and forgets the peer, whichever of the sends fail. From then on
  writing and reading raise without touching the network, and closing again changes nothing.\<close>

theorem close_releases:
  assumes "session_ok s" and "\<not> closed s" and "sock s = OpenSocket"
  shows "\<exists>sent t. close_session s = (Ret sent, t) \<and> closed t \<and> sock t = ClosedSocket \<and> peer t = None \<and>
    requests t = requests s @ map (\<lambda>a. (close_packet, a))
      (case peer s of None \<Rightarrow> close_targets s | Some p \<Rightarrow> set_add p (close_targets s)) \<and>
    close_session t = (Ret True, t) \<and>
    session_write channel payload timeout t = (Raise (CS2Error ''native P2P session is not connected''), t) \<and>
    read_exact channel amount timeout t = (Raise (CS2Error ''native P2P session is not connected''), t)"
proof -
  let ?targets = "case peer s of None \<Rightarrow> close_targets s | Some p \<Rightarrow> set_add p (close_targets s)"
  obtain b u where u: "notify_close ?targets False s = (Ret b, u)"
    "requests u = requests s @ map (\<lambda>a. (close_packet, a)) ?targets"
    using notify_close_run [of s ?targets False] assms(1) by (auto simp: session_ok_def)
  let ?t = "u\<lparr>sock := ClosedSocket, closed := True, peer := None\<rparr>"
  have "close_session s = (Ret b, ?t)"
    using assms(2,3) u(1) by (simp add: close_session_def bind_gets bind_def when_do_def seq_def)
  moreover have "close_session ?t = (Ret True, ?t)" by (simp add: close_session_def bind_gets)
  moreover have "require_connected ?t = (Raise (CS2Error ''native P2P session is not connected''), ?t)"
    by (simp add: require_connected_def connected_def bind_gets)
  ultimately show ?thesis
    using u(2) by (intro exI [of _ b] exI [of _ ?t])
      (simp add: session_write_def read_exact_def seq_def bind_apply [of require_connected])
qed

theorem close_releases_witness:
  "\<exists>sent t. close_session test_session = (Ret sent, t) \<and>
     requests t = [(close_packet, (str ''192.0.2.10'', 32100))] \<and>
     read_exact 1 4 1 t = (Raise (CS2Error ''native P2P session is not connected''), t)"
  using close_releases [OF test_session_ok, of 1 "[]" 1 4]
  by (auto simp: test_session_def set_add_def)

section \<open>Packets from other hosts\<close>

interpretation mail: two_state "same_on (\<lambda>s. (peer s, inbox s, sock s))"
  by (rule two_state_same_on)

lemma mail_modify:
  "(\<And>s. peer (f s) = peer s \<and> inbox (f s) = inbox s \<and> sock (f s) = sock s) \<Longrightarrow>
   steps_by (same_on (\<lambda>s. (peer s, inbox s, sock s))) (modify f)"
  by (rule mail.modify_step) (simp add: same_on_def)

lemma mail_sendto: "steps_by (same_on (\<lambda>s. (peer s, inbox s, sock s))) (sendto packet address)"
  by (simp add: steps_by_def same_on_def sendto_def split: list.split bool.split)

lemma mail_monotonic: "steps_by (same_on (\<lambda>s. (peer s, inbox s, sock s))) monotonic"
  by (simp add: steps_by_def same_on_def monotonic_def split: list.split)

lemma mail_send_clear: "steps_by (same_on (\<lambda>s. (peer s, inbox s, sock s))) (send_clear packet address)"
  unfolding send_clear_def by (intro mail.step_rules mail_sendto mail_modify) simp

lemma mail_retransmit: "steps_by (same_on (\<lambda>s. (peer s, inbox s, sock s))) retransmit"
  unfolding retransmit_def retransmit_one_def count_def count_amount_def
  by (intro mail.step_rules mail_monotonic mail_send_clear mail_modify) simp_all

lemma calls_receive_clear: "steps_by (same_on requests) receive_clear"
proof -
  have "steps_by (same_on requests) recvfrom" "steps_by (same_on requests) (count name)" for name
    by (simp_all add: steps_by_def same_on_def recvfrom_def count_apply split: list.split recv.split)
  then show ?thesis
    unfolding receive_clear_def by (intro calls.step_rules)
qed

lemma receive_clear_from:
  assumes "receive_clear s = (Ret (Some (packet, address)), t)" "inbox s = Datagram d a # rest"
  shows "address = a"
  using assms
  by (auto simp: receive_clear_def recvfrom_def bind_def catch_def seq_count lift_sum_def
      split: if_splits outcome.splits prod.splits sum.splits)

lemma count_frame: "core (snd (count name s)) = core s" "requests (snd (count name s)) = requests s"
  by (simp_all add: count_apply core_def)

text \<open>A datagram that does not come from the peer's host has no effect on the session: apart from the
  retransmissions that were due anyway and the counters, state and sent packets are as if nothing
  had arrived. No acknowledgement, data or close request from elsewhere is believed.\<close>

theorem pump_ignores_other_hosts:
  assumes "peer s = Some p" and "inbox s = Datagram d a # rest" and "fst a \<noteq> fst p"
    and "retransmit s = (Ret (), u)"
  shows "core (snd (pump s)) = core u \<and> requests (snd (pump s)) = requests u"
proof -
  have u: "peer u = Some p" "inbox u = Datagram d a # rest"
    using steps_byD [OF mail_retransmit assms(4)] assms(1,2) by (simp_all add: same_on_def)
  obtain r v where v: "receive_clear u = (r, v)" by fastforce
  have cv: "core v = core u" "requests v = requests u"
    using steps_byD [OF core_receive_clear v] steps_byD [OF calls_receive_clear v]
    by (simp_all add: same_on_def)
  have pv: "peer v = Some p" using cv(1) u(1) by (simp add: core_def)
  show ?thesis
  proof (cases "\<exists>packet address. r = Ret (Some (packet, address))")
    case True
    then obtain packet address where r: "r = Ret (Some (packet, address))" by blast
    with receive_clear_from v u(2) have a: "address = a" by blast
    then have "Some address \<noteq> Some p" using assms(3) by auto
    with a assms(3,4) v r pv have "snd (pump s) =
        snd (count ''packets_from_other_source'' (snd (count ''pump_packets'' v)))"
      by (simp add: pump_def seq_def bind_def count_apply)
    with cv count_frame show ?thesis by simp
  next
    case False
    then have "snd (pump s) = v"
      using assms(4) v by (cases r) (auto simp: pump_def seq_def bind_def split: option.splits)
    with cv show ?thesis by simp
  qed
qed

theorem pump_ignores_other_hosts_witness:
  "core (snd (pump (test_session\<lparr>inbox := [Datagram [0xf1, 0xf0, 0, 0] (str ''198.51.100.9'', 32100)]\<rparr>))) =
   core test_session"
proof -
  let ?s = "test_session\<lparr>inbox := [Datagram [0xf1, 0xf0, 0, 0] (str ''198.51.100.9'', 32100)]\<rparr>"
  have run: "retransmit ?s = (Ret (), ?s\<lparr>ticks := [1]\<rparr>)"
    by (simp add: retransmit_def bind_def test_session_def monotonic_def)
  have "core (snd (pump ?s)) = core (?s\<lparr>ticks := [1]\<rparr>) \<and> requests (snd (pump ?s)) = requests (?s\<lparr>ticks := [1]\<rparr>)"
    by (rule pump_ignores_other_hosts [OF _ _ _ run, where p = "(str ''192.0.2.10'', 32100)"
          and d = "[0xf1, 0xf0, 0, 0]" and a = "(str ''198.51.100.9'', 32100)" and rest = "[]"])
      (simp_all add: test_session_def str_def)
  then show ?thesis by (simp add: core_def)
qed

end
