(* ===== verification/CS2_Connect.thy ===== *)
theory CS2_Connect
  imports CS2_Reliable
begin

text \<open>
  \<open>CS2Session.connect\<close>: opening the socket, the negotiation with the directory servers, the relays
  and the camera, and what a session is once a peer has been adopted. The local variables of the
  negotiation loop are the record \<open>negotiation\<close>; what the operating system answers when the
  socket is opened and the route is probed are arguments.
\<close>

section \<open>State and environment\<close>

record negotiation =
  endpoints :: "endpoint list"
  relay_endpoints :: "endpoint list"
  relay_port_endpoint :: "endpoint option"
  relay_request :: "bytes option"
  last_directory_send :: rat
  last_relay_list_send :: rat
  last_relay_send :: rat
  last_punch_send :: rat
  hello_sent :: bool

text \<open>\<open>self._socket_factory()\<close> and \<open>getsockname()\<close> of the new socket.\<close>

datatype socket_open = FactoryError | NameError | Opened nat

definition DIRECTORY_RETRY_SECONDS :: rat where [simp]: "DIRECTORY_RETRY_SECONDS = 1"
definition RELAY_LIST_RETRY_SECONDS :: rat where [simp]: "RELAY_LIST_RETRY_SECONDS = 3"
definition RELAY_RETRY_SECONDS :: rat where [simp]: "RELAY_RETRY_SECONDS = 1"
definition PUNCH_RETRY_SECONDS :: rat where [simp]: "PUNCH_RETRY_SECONDS = 1"
definition PUNCH_PORT_RANGE :: nat where [simp]: "PUNCH_PORT_RANGE = 3"

definition directory_endpoints :: "cs2 \<Rightarrow> endpoint list" where
  "directory_endpoints s = remdups (map (\<lambda>server. (server, DIRECTORY_PORT)) (servers s))"

definition initial_negotiation :: negotiation where
  "initial_negotiation =
     \<lparr>endpoints = [], relay_endpoints = [], relay_port_endpoint = None, relay_request = None,
      last_directory_send = 0, last_relay_list_send = 0, last_relay_send = 0, last_punch_send = 0,
      hello_sent = False\<rparr>"

section \<open>Periodic sends\<close>

definition send_twice :: "bytes \<Rightarrow> endpoint \<Rightarrow> (cs2, unit) eff" where
  "send_twice packet target = seq (send_clear packet target) (send_clear packet target)"

definition send_lookups :: "bytes \<Rightarrow> rat \<Rightarrow> negotiation \<Rightarrow> (cs2, negotiation) eff" where
  "send_lookups lookup now l =
     (if now - last_directory_send l \<ge> DIRECTORY_RETRY_SECONDS then
        bind (gets servers) (\<lambda>ss.
        seq (for_each ss (\<lambda>server.
               seq (when_do (\<not> hello_sent l)
                      (send_clear [0xf1, 0x00, 0x00, 0x00] (server, DIRECTORY_PORT)))
                   (send_clear lookup (server, DIRECTORY_PORT))))
            (ret (l\<lparr>hello_sent := True, last_directory_send := now\<rparr>)))
      else ret l)"

definition send_list_requests :: "rat \<Rightarrow> negotiation \<Rightarrow> (cs2, negotiation) eff" where
  "send_list_requests now l =
     (if now - last_relay_list_send l \<ge> RELAY_LIST_RETRY_SECONDS then
        bind (gets directory_endpoints) (\<lambda>ds.
        bind (gets sess_uid) (\<lambda>u.
        seq (for_each ds (send_clear ([0xf1, 0x67, 0x00, 0x14] @ u)))
            (ret (l\<lparr>last_relay_list_send := now\<rparr>))))
      else ret l)"

definition send_relay :: "rat \<Rightarrow> negotiation \<Rightarrow> (cs2, negotiation) eff" where
  "send_relay now l =
     (if relay_endpoints l \<noteq> [] \<and> now - last_relay_send l \<ge> RELAY_RETRY_SECONDS then
        seq (case relay_port_endpoint l of
               None \<Rightarrow> for_each (relay_endpoints l) (send_clear [0xf1, 0x70, 0x00, 0x00])
             | Some r \<Rightarrow>
                 (case relay_request l of
                    None \<Rightarrow> send_clear [0xf1, 0x72, 0x00, 0x00] r
                  | Some request \<Rightarrow>
                      bind (gets directory_endpoints) (\<lambda>ds. for_each ds (send_clear request))))
            (ret (l\<lparr>last_relay_send := now\<rparr>))
      else ret l)"

definition punch_ports :: "nat \<Rightarrow> nat list" where
  "punch_ports port = [max 1 (port - PUNCH_PORT_RANGE)..<min 65535 (port + PUNCH_PORT_RANGE) + 1]"

definition send_punches :: "rat \<Rightarrow> negotiation \<Rightarrow> (cs2, negotiation) eff" where
  "send_punches now l =
     (if endpoints l \<noteq> [] \<and> now - last_punch_send l \<ge> PUNCH_RETRY_SECONDS then
        bind (gets sess_uid) (\<lambda>u.
        seq (for_each (endpoints l) (\<lambda>endpoint.
               for_each (punch_ports (snd endpoint)) (\<lambda>port.
                 send_twice ([0xf1, 0x41, 0x00, 0x14] @ u) (fst endpoint, port))))
            (ret (l\<lparr>last_punch_send := now\<rparr>)))
      else ret l)"

section \<open>Handling one packet\<close>

text \<open>\<open>Inl l\<close> goes round the loop again, \<open>Inr ()\<close> returns from \<open>connect\<close>.\<close>

definition note_packet :: "bytes \<Rightarrow> endpoint \<Rightarrow> (cs2, unit) eff" where
  "note_packet packet address =
     (let kind = take 2 packet in
      seq (when_do (kind \<in> {[0xf1, 0x41], [0xf1, 0x42], [0xf1, 0x84]})
             (modify (\<lambda>s. s\<lparr>close_targets := set_add address (close_targets s)\<rparr>)))
      (seq (count_kind ''connect_'' (hex_bytes kind))
           (when_do (kind \<in> {[0xf1, 0x73], [0xf1, 0x82], [0xf1, 0x84]})
              (count_kind (hex_bytes kind @ ''_len'') (show_nat_string (length packet))))))"

definition on_endpoint :: "bytes \<Rightarrow> negotiation \<Rightarrow> (cs2, negotiation + unit) eff" where
  "on_endpoint packet l =
     (case decode_network_address (pyslice 4 20 packet) of
        Inl e \<Rightarrow> if is_cs2_error e then ret (Inl l) else raise e
      | Inr endpoint \<Rightarrow>
          seq (modify (\<lambda>s. s\<lparr>close_targets := set_add endpoint (close_targets s)\<rparr>))
          (bind (gets sess_uid) (\<lambda>u.
           seq (send_twice ([0xf1, 0x41, 0x00, 0x14] @ u) endpoint)
               (ret (Inl (l\<lparr>endpoints := set_add endpoint (endpoints l)\<rparr>))))))"

definition on_relay_port :: "endpoint \<Rightarrow> negotiation \<Rightarrow> (cs2, negotiation + unit) eff" where
  "on_relay_port address l =
     (if relay_port_endpoint l = None then
        seq (send_clear [0xf1, 0x72, 0x00, 0x00] address)
            (ret (Inl (l\<lparr>relay_port_endpoint := Some address\<rparr>)))
      else ret (Inl l))"

definition on_allocation :: "bytes \<Rightarrow> endpoint \<Rightarrow> negotiation \<Rightarrow> (cs2, negotiation + unit) eff" where
  "on_allocation packet address l =
     (if Some address \<noteq> relay_port_endpoint l then ret (Inl l)
      else bind (gets sess_uid) (\<lambda>u.
           bind (lift_sum (make_relay_request_from_ack u address packet)) (\<lambda>request.
           case request of
             None \<Rightarrow> ret (Inl l)
           | Some request \<Rightarrow>
               bind (gets directory_endpoints) (\<lambda>ds.
               seq (for_each ds (send_clear request))
                   (ret (Inl (l\<lparr>relay_request := Some request\<rparr>)))))))"

definition on_hello_to :: "bytes \<Rightarrow> endpoint \<Rightarrow> negotiation \<Rightarrow> (cs2, negotiation + unit) eff" where
  "on_hello_to packet address l =
     (if length packet \<noteq> 24 then ret (Inl l)
      else case decode_network_address (pyslice 4 20 packet) of
        Inl e \<Rightarrow> if is_cs2_error e then ret (Inl l) else raise e
      | Inr target \<Rightarrow>
          bind (gets sess_uid) (\<lambda>u.
          (let hello_ack = make_relay_punch u (of_nat (be_nat (pyslice 20 24 packet))) in
           seq (for_each [target, address] (send_twice hello_ack))
               (ret (Inl l)))))"

primrec relay_targets :: "bytes \<Rightarrow> nat list \<Rightarrow> exn + endpoint list" where
  "relay_targets packet [] = Inr []"
| "relay_targets packet (offset # offsets) =
     (case decode_network_address (pyslice offset (offset + 16) packet) of
        Inl e \<Rightarrow> if is_cs2_error e then relay_targets packet offsets else Inl e
      | Inr a \<Rightarrow> sbind (relay_targets packet offsets) (\<lambda>as. Inr (a # as)))"

definition on_relay_to :: "bytes \<Rightarrow> negotiation \<Rightarrow> (cs2, negotiation + unit) eff" where
  "on_relay_to packet l =
     bind (lift_sum (relay_targets packet [4, 20])) (\<lambda>targets.
     seq (for_each targets (send_twice [0xf1, 0x03, 0x00, 0x00]))
         (ret (Inl l)))"

definition adopt :: "endpoint \<Rightarrow> string \<Rightarrow> bytes list \<Rightarrow> (cs2, negotiation + unit) eff" where
  "adopt address path packets =
     seq (modify (\<lambda>s. s\<lparr>peer := Some address, connect_path := path\<rparr>))
     (seq (for_each packets (\<lambda>p. send_clear p address))
          (ret (Inr ())))"

definition negotiate :: "bytes \<Rightarrow> endpoint \<Rightarrow> negotiation \<Rightarrow> (cs2, negotiation + unit) eff" where
  "negotiate packet address l =
     bind (gets (\<lambda>s. s)) (\<lambda>s.
     (let kind = take 2 packet;
          directory = address \<in> set (directory_endpoints s);
          identified = (\<not> directory \<and> length packet = 24 \<and> pyslice 4 24 packet = sess_uid s) in
      if kind = [0xf1, 0x40] \<and> directory \<and> 20 \<le> length packet then on_endpoint packet l
      else if kind = [0xf1, 0x69] \<and> directory then
        ret (Inl (l\<lparr>relay_endpoints :=
          foldl (\<lambda>acc a. set_add a acc) (relay_endpoints l) (decode_relay_list packet)\<rparr>))
      else if kind = [0xf1, 0x71] \<and> address \<in> set (relay_endpoints l) then on_relay_port address l
      else if kind = [0xf1, 0x73] \<and> address \<in> set (relay_endpoints l) then
        on_allocation packet address l
      else if kind = [0xf1, 0x82] \<and> directory then on_hello_to packet address l
      else if kind = [0xf1, 0x02] \<and> length packet = 36 then on_relay_to packet l
      else if kind = [0xf1, 0x41] \<and> \<not> prefer_relay s \<and> identified then
        adopt address ''direct-punch''
          [[0xf1, 0x42, 0x00, 0x14] @ sess_uid s, [0xf1, 0xe0, 0x00, 0x00]]
      else if kind = [0xf1, 0x42] \<and> \<not> prefer_relay s \<and> identified then
        adopt address ''direct-accept'' [[0xf1, 0x43, 0x00, 0x00]]
      else if kind = [0xf1, 0x42] \<and> prefer_relay s \<and> identified then
        seq (count ''declined_readiness'')
          (seq (send_clear [0xf1, 0x43, 0x00, 0x00] address) (ret (Inl l)))
      else if kind = [0xf1, 0x84] \<and> identified then
        adopt address ''relay'' [[0xf1, 0xe0, 0x00, 0x00]]
      else ret (Inl l)))"

section \<open>Connecting\<close>

definition connect_round ::
  "bytes \<Rightarrow> rat \<Rightarrow> negotiation \<Rightarrow> (cs2, negotiation + bool) eff" where
  "connect_round lookup deadline l =
     bind monotonic (\<lambda>t.
     if \<not> t < deadline then ret (Inr False)
     else bind monotonic (\<lambda>now.
          bind (send_lookups lookup now l) (\<lambda>l1.
          bind (send_list_requests now l1) (\<lambda>l2.
          bind (send_relay now l2) (\<lambda>l3.
          bind (send_punches now l3) (\<lambda>l4.
          bind receive_clear (\<lambda>received. case received of
            None \<Rightarrow> ret (Inl l4)
          | Some (packet, address) \<Rightarrow>
              seq (note_packet packet address)
              (bind (negotiate packet address l4) (\<lambda>r. case r of
                 Inl l5 \<Rightarrow> ret (Inl l5)
               | Inr _ \<Rightarrow> ret (Inr True)))))))))) "

definition open_socket :: "socket_open \<Rightarrow> (cs2, nat) eff" where
  "open_socket opened =
     (let failed = CS2Error ''native P2P socket could not be opened'' in
      case opened of
        FactoryError \<Rightarrow>
          bind (gets sock) (\<lambda>k.
          seq (when_do (k \<noteq> NoSocket) (bind close_session (\<lambda>_. ret ()))) (raise failed))
      | NameError \<Rightarrow>
          seq (modify (\<lambda>s. s\<lparr>sock := OpenSocket\<rparr>)) (bind close_session (\<lambda>_. raise failed))
      | Opened port \<Rightarrow> seq (modify (\<lambda>s. s\<lparr>sock := OpenSocket\<rparr>)) (ret port))"

definition rendezvous :: "pystr \<Rightarrow> nat \<Rightarrow> rat \<Rightarrow> (cs2, unit) eff" where
  "rendezvous local_host local_port timeout =
     bind (lift_sum (encode_network_address local_host local_port)) (\<lambda>local_address.
     bind (gets sess_uid) (\<lambda>u.
     bind monotonic (\<lambda>start.
     bind (gets (\<lambda>s. Suc (length (ticks s)))) (\<lambda>fuel.
     bind (loop fuel
             (connect_round ([0xf1, 0x20, 0x00, 0x24] @ u @ local_address) (start + timeout))
             initial_negotiation) (\<lambda>found.
       if found then ret ()
       else bind close_session
          (\<lambda>_. raise (CS2Error ''camera did not establish a native P2P session'')))))))"

definition connect :: "socket_open \<Rightarrow> pystr option \<Rightarrow> rat \<Rightarrow> (cs2, unit) eff" where
  "connect opened route timeout =
     bind (gets sock) (\<lambda>k.
     if k \<noteq> NoSocket then raise (CS2Error ''P2P session has already started'')
     else bind (open_socket opened) (\<lambda>local_port.
       case route of
         None \<Rightarrow>
           bind close_session (\<lambda>_. raise (CS2Error ''native P2P network route is unavailable''))
       | Some local_host \<Rightarrow> rendezvous local_host local_port timeout))"

section \<open>Frames of the negotiation\<close>

text \<open>The packets that carry the directory protocol: they are meant for the directory servers only.\<close>

definition directory_only :: "endpoint list \<Rightarrow> bytes \<Rightarrow> endpoint \<Rightarrow> bool" where
  "directory_only D packet address \<longleftrightarrow>
     (take 2 packet \<in> {[0xf1, 0x00], [0xf1, 0x20], [0xf1, 0x67], [0xf1, 0x80]} \<longrightarrow> address \<in> set D)"

text \<open>
  The interface between the negotiation and the session below it: a relation that every basic
  step of the session respects, given the directory endpoints \<open>D\<close>. The handlers and the periodic
  sends respect it too; if reading the clock does, so does a whole round of the negotiation.
\<close>

locale negotiation_frame = two_state R for R :: "cs2 \<Rightarrow> cs2 \<Rightarrow> bool" +
  fixes D :: "endpoint list"
  assumes send_basic: "directory_only D packet address \<Longrightarrow> steps_by R (send_clear packet address)"
    and receive_basic: "steps_by R receive_clear"
    and histogram_basic: "steps_by R (count_kind pre kind)"
    and declined_basic: "steps_by R (count ''declined_readiness'')"
    and target_basic: "steps_by R (modify (\<lambda>s. s\<lparr>close_targets := set_add a (close_targets s)\<rparr>))"
    and adopt_basic: "steps_by R (modify (\<lambda>s. s\<lparr>peer := Some a, connect_path := path\<rparr>))"
    and elsewhere_basic: "directory_endpoints s \<noteq> D \<Longrightarrow> R s t"
begin

lemma directories_basic:
  assumes "steps_by R (f D)"
  shows "steps_by R (bind (gets directory_endpoints) f)"
  unfolding steps_by_def
proof
  fix s
  show "R s (snd (bind (gets directory_endpoints) f s))"
    using assms elsewhere_basic [of s] by (cases "directory_endpoints s = D") (auto simp: steps_by_def bind_gets)
qed

lemma servers_basic:
  assumes "\<And>ss. (\<lambda>h. (h, DIRECTORY_PORT)) ` set ss \<subseteq> set D \<Longrightarrow> steps_by R (g ss)"
  shows "steps_by R (bind (gets servers) g)"
  unfolding steps_by_def
proof
  fix s
  show "R s (snd (bind (gets servers) g s))"
  proof (cases "directory_endpoints s = D")
    case True
    then have "(\<lambda>h. (h, DIRECTORY_PORT)) ` set (servers s) \<subseteq> set D"
      by (auto simp: directory_endpoints_def)
    from assms [OF this] show ?thesis by (simp add: steps_by_def bind_gets)
  next
    case False
    then show ?thesis by (rule elsewhere_basic)
  qed
qed

lemma send_twice_step: "directory_only D packet a \<Longrightarrow> steps_by R (send_twice packet a)"
  unfolding send_twice_def by (intro seq_step send_basic)

lemma lookups_step: "steps_by R (send_lookups lookup now l)"
  unfolding send_lookups_def
  by (intro if_step servers_basic seq_step for_each_step when_step ret_step send_basic)
     (auto simp: directory_only_def)

lemma list_requests_step: "steps_by R (send_list_requests now l)"
  unfolding send_list_requests_def
  by (intro if_step directories_basic bind_step [OF gets_step] seq_step for_each_step ret_step send_basic)
     (auto simp: directory_only_def)

lemma relay_step: "steps_by R (send_relay now l)"
  unfolding send_relay_def
  by (intro if_step option_step directories_basic seq_step for_each_step ret_step send_basic)
     (auto simp: directory_only_def)

lemma punches_step: "steps_by R (send_punches now l)"
  unfolding send_punches_def
  by (intro if_step bind_step gets_step seq_step for_each_step ret_step send_twice_step)
     (auto simp: directory_only_def)

lemma note_step: "steps_by R (note_packet packet address)"
  unfolding note_packet_def by (intro let_step seq_step when_step histogram_basic target_basic)

lemma adopt_step:
  "\<forall>p \<in> set packets. directory_only D p address \<Longrightarrow> steps_by R (adopt address path packets)"
  unfolding adopt_def by (intro seq_step for_each_step ret_step adopt_basic send_basic) auto

lemma on_endpoint_step: "steps_by R (on_endpoint packet l)"
  unfolding on_endpoint_def
  by (auto intro!: raise_step ret_step seq_step bind_step gets_step target_basic send_twice_step
      simp: directory_only_def split: sum.split)

lemma on_relay_port_step: "steps_by R (on_relay_port address l)"
  unfolding on_relay_port_def
  by (intro if_step seq_step ret_step send_basic) (auto simp: directory_only_def)

lemma on_allocation_step: "steps_by R (on_allocation packet address l)"
  unfolding on_allocation_def
  by (intro if_step option_step directories_basic bind_step [OF gets_step] bind_step [OF lift_sum_step]
      seq_step for_each_step ret_step send_basic)
     (auto simp: directory_only_def)

lemma on_hello_to_step: "steps_by R (on_hello_to packet address l)"
  unfolding on_hello_to_def
  by (auto intro!: raise_step ret_step seq_step bind_step gets_step send_twice_step
      simp: directory_only_def make_relay_punch_def Let_def split: sum.split)

lemma on_relay_to_step: "steps_by R (on_relay_to packet l)"
  unfolding on_relay_to_def
  by (intro bind_step lift_sum_step seq_step for_each_step ret_step send_twice_step)
     (auto simp: directory_only_def)

lemma negotiate_step: "steps_by R (negotiate packet address l)"
  unfolding negotiate_def
  by (intro bind_step gets_step let_step if_step ret_step seq_step on_endpoint_step on_relay_port_step
      on_allocation_step on_hello_to_step on_relay_to_step adopt_step declined_basic send_basic)
     (auto simp: directory_only_def)

end

locale connect_frame = negotiation_frame +
  assumes tick_basic: "steps_by R monotonic"
begin

lemma round_step: "steps_by R (connect_round lookup deadline l)"
  unfolding connect_round_def
  by (auto intro!: step_rules tick_basic lookups_step list_requests_step relay_step punches_step
      receive_basic note_step negotiate_step split: sum.split)

end


section \<open>Where the packets go\<close>

definition routed :: "endpoint list \<Rightarrow> cs2 \<Rightarrow> bool" where
  "routed D s \<longleftrightarrow> directory_endpoints s = D \<and> list_all (\<lambda>(p, a). directory_only D p a) (requests s)"

lemma routed_core: "core t = core s \<Longrightarrow> requests t = requests s \<Longrightarrow> routed D s \<Longrightarrow> routed D t"
  by (simp add: routed_def core_def directory_endpoints_def)

lemma routed_modify:
  "(\<And>s. servers (f s) = servers s \<and> requests (f s) = requests s) \<Longrightarrow> steps_by (inv_rel (routed D)) (modify f)"
  by (simp add: steps_by_def inv_rel_def routed_def directory_endpoints_def)

lemma routed_frame:
  "steps_by (same_on core) m \<Longrightarrow> steps_by (same_on requests) m \<Longrightarrow> steps_by (inv_rel (routed D)) m"
  by (auto simp: steps_by_def same_on_def inv_rel_def intro: routed_core)

lemma calls_count: "steps_by (same_on requests) (count name)" "steps_by (same_on requests) (count_kind pre kind)"
  by (auto simp: steps_by_def same_on_def count_apply count_kind_def bind_gets when_do_def)

lemma calls_monotonic: "steps_by (same_on requests) (monotonic :: (cs2, rat) eff)"
  by (simp add: steps_by_def same_on_def monotonic_def split: list.split)

interpretation routing: connect_frame "inv_rel (routed D)" D for D
proof (intro connect_frame.intro connect_frame_axioms.intro negotiation_frame.intro negotiation_frame_axioms.intro two_state_inv_rel)
  fix packet address assume "directory_only D packet address"
  show "steps_by (inv_rel (routed D)) (send_clear packet address)"
  proof (rule steps_byI)
    fix s r t assume "send_clear packet address s = (r, t)"
    note send = requests_send_clear [OF this]
    from send(2) have "directory_endpoints t = directory_endpoints s"
      by (simp add: core_def directory_endpoints_def)
    with send(1) \<open>directory_only D packet address\<close> show "inv_rel (routed D) s t"
      by (simp add: inv_rel_def routed_def)
  qed
next
  show "inv_rel (routed D) s t" if "directory_endpoints s \<noteq> D" for s t
    using that by (simp add: inv_rel_def routed_def)
qed (intro routed_frame routed_modify core_steps calls_monotonic calls_receive_clear calls_count; simp)+

lemma routed_close: "steps_by (inv_rel (routed D)) close_session"
proof -
  have "steps_by (inv_rel (routed D)) (notify_close targets sent)" for targets sent
    by (induction targets arbitrary: sent)
       (auto intro!: routing.step_rules routing.send_basic simp: directory_only_def)
  then show ?thesis
    unfolding close_session_def by (intro routing.step_rules routed_modify) simp_all
qed

text \<open>Whatever the network answers, the packets of the directory protocol (hello, camera lookup, relay
  list request and relay request, which carry the camera's identity and the local address) are sent
  to the directory servers of the service parameter and to nobody else.\<close>

theorem connect_routes_directory_packets:
  assumes "requests s = []"
  shows "list_all (\<lambda>(packet, address). directory_only (directory_endpoints s) packet address)
    (requests (snd (connect opened route timeout s)))"
proof -
  let ?D = "directory_endpoints s"
  have open_step: "steps_by (inv_rel (routed ?D)) (open_socket opened)"
    unfolding open_socket_def
    by (auto intro!: routing.step_rules routed_close routed_modify split: socket_open.split)
  have "steps_by (inv_rel (routed ?D)) (connect opened route timeout)"
    unfolding connect_def rendezvous_def
    by (intro routing.step_rules open_step routed_close routing.tick_basic routing.round_step)
  moreover have "routed ?D s" using assms by (simp add: routed_def)
  ultimately show ?thesis by (auto simp: steps_by_def inv_rel_def routed_def)
qed

section \<open>The session invariant\<close>

definition negotiating :: "endpoint list \<Rightarrow> cs2 \<Rightarrow> bool" where
  "negotiating D s \<longleftrightarrow> directory_endpoints s = D \<and> session_ok s \<and> sock s = OpenSocket \<and> \<not> closed s"

lemma negotiating_frame:
  "steps_by (same_on core) m \<Longrightarrow> steps_by (inv_rel session_ok) m \<Longrightarrow> steps_by (inv_rel (negotiating D)) m"
  by (auto simp: steps_by_def same_on_def inv_rel_def negotiating_def core_def directory_endpoints_def)

interpretation sound: connect_frame "inv_rel (negotiating D)" D for D
proof (intro connect_frame.intro connect_frame_axioms.intro negotiation_frame.intro negotiation_frame_axioms.intro two_state_inv_rel)
  show "steps_by (inv_rel (negotiating D)) (modify (\<lambda>s. s\<lparr>close_targets := set_add a (close_targets s)\<rparr>))" for a
    by (simp add: steps_by_def inv_rel_def negotiating_def session_ok_def directory_endpoints_def)
  show "steps_by (inv_rel (negotiating D)) (modify (\<lambda>s. s\<lparr>peer := Some a, connect_path := path\<rparr>))" for a path
    by (simp add: steps_by_def inv_rel_def negotiating_def session_ok_def directory_endpoints_def)
  show "inv_rel (negotiating D) s t" if "directory_endpoints s \<noteq> D" for s t
    using that by (simp add: inv_rel_def negotiating_def)
qed (intro negotiating_frame core_steps ok_core_steps ok_receive_clear ok_count_kind ok_count fixed_names)+

lemma open_socket_ok: "sock s = NoSocket \<Longrightarrow> \<not> closed s \<Longrightarrow> session_ok s \<Longrightarrow> open_socket opened s = (r, u) \<Longrightarrow>
  session_ok u \<and> (\<forall>port. r = Ret port \<longrightarrow> negotiating (directory_endpoints s) u)"
proof -
  assume s: "sock s = NoSocket" "\<not> closed s" "session_ok s" and u: "open_socket opened s = (r, u)"
  have o: "session_ok (s\<lparr>sock := OpenSocket\<rparr>)"
    using s by (simp add: session_ok_def)
  have c: "session_ok v" if "close_session (s\<lparr>sock := OpenSocket\<rparr>) = (q, v)" for q v
    by (rule steps_by_invD [OF ok_close o that])
  show ?thesis
    using u s o c
    by (cases opened)
       (auto simp: open_socket_def bind_gets seq_modify when_do_def Let_def negotiating_def
          directory_endpoints_def seq_def bind_def split: prod.splits outcome.splits)
qed

lemma rendezvous_cases:
  assumes "rendezvous host port timeout s = (r, t)"
  obtains (Abort) "t = s" "r \<noteq> Ret ()" "r = Halt \<Longrightarrow> ticks s = []"
  | (Loop) address start o' u where "ticks s = start # ticks (s\<lparr>ticks := tl (ticks s)\<rparr>)"
      "loop (Suc (length (tl (ticks s)))) (connect_round ([0xf1, 0x20, 0x00, 0x24] @ sess_uid s @ address)
         (start + timeout)) initial_negotiation (s\<lparr>ticks := tl (ticks s)\<rparr>) = (o', u)"
      "(if o' = Ret True then (r, t) = (Ret (), u)
        else if o' = Ret False then r \<noteq> Ret () \<and> r \<noteq> Halt \<and> t = snd (close_session u)
        else t = u \<and> r \<noteq> Ret () \<and> (r = Halt \<longleftrightarrow> o' = Halt))"
proof (cases "encode_network_address host port")
  case (Inl e)
  with assms Abort show thesis by (auto simp: rendezvous_def lift_sum_def)
next
  case (Inr address)
  show thesis
  proof (cases "ticks s")
    case Nil
    with Inr assms Abort show thesis
      by (auto simp: rendezvous_def lift_sum_def bind_gets bind_apply [of monotonic] monotonic_def)
  next
    case (Cons start ts)
    let ?loop = "loop (Suc (length ts)) (connect_round ([0xf1, 0x20, 0x00, 0x24] @ sess_uid s @ address)
         (start + timeout)) initial_negotiation"
    obtain o' u where u: "?loop (s\<lparr>ticks := ts\<rparr>) = (o', u)" by fastforce
    have "(r, t) = bind ?loop (\<lambda>found. if found then ret () else bind close_session
          (\<lambda>_. raise (CS2Error ''camera did not establish a native P2P session''))) (s\<lparr>ticks := ts\<rparr>)"
      using assms Inr Cons
      by (simp add: rendezvous_def lift_sum_def bind_gets bind_apply [of monotonic] monotonic_def
          del: loop.simps)
    then have "if o' = Ret True then (r, t) = (Ret (), u)
        else if o' = Ret False then r \<noteq> Ret () \<and> r \<noteq> Halt \<and> t = snd (close_session u)
        else t = u \<and> r \<noteq> Ret () \<and> (r = Halt \<longleftrightarrow> o' = Halt)"
      using u no_haltD [OF returns_close]
      by (auto simp: bind_apply simp del: loop.simps split: outcome.splits prod.splits if_splits)
    with Loop [of start address o' u] u Cons show thesis by simp
  qed
qed

lemma connect_keeps_ok:
  assumes "session_ok s" and "sock s = NoSocket" and "\<not> closed s"
  shows "session_ok (snd (connect opened route timeout s)) \<and>
    (fst (connect opened route timeout s) = Ret () \<longrightarrow>
       sock (snd (connect opened route timeout s)) = OpenSocket \<and>
       \<not> closed (snd (connect opened route timeout s)))"
proof -
  let ?D = "directory_endpoints s"
  obtain r t where rt: "connect opened route timeout s = (r, t)" by fastforce
  obtain q u where u: "open_socket opened s = (q, u)" by fastforce
  note o = open_socket_ok [OF assms(2,3,1) u]
  have close: "session_ok (snd (close_session v))" if "session_ok v" for v
    using ok_close that by (simp add: steps_by_def inv_rel_def)
  have "session_ok t \<and> (r = Ret () \<longrightarrow> sock t = OpenSocket \<and> \<not> closed t)"
  proof (cases "\<exists>port host. q = Ret port \<and> route = Some host")
    case False
    with rt u o close [of u] assms(2) show ?thesis
      by (cases q) (auto simp: connect_def bind_gets bind_apply split: option.splits outcome.splits prod.splits)
  next
    case True
    then obtain port host where q: "q = Ret port" "route = Some host" by blast
    with o have nu: "negotiating ?D u" by simp
    from rt u q assms(2) have "rendezvous host port timeout u = (r, t)"
      by (simp add: connect_def bind_gets bind_apply [of "open_socket _"])
    then show ?thesis
    proof (cases rule: rendezvous_cases)
      case Abort
      with o show ?thesis by simp
    next
      case (Loop address start o' v)
      have "negotiating ?D (u\<lparr>ticks := tl (ticks u)\<rparr>)"
        using nu by (simp add: negotiating_def session_ok_def directory_endpoints_def)
      then have "negotiating ?D v"
        using steps_byD [OF sound.loop_step [OF sound.round_step] Loop(2)] by (simp add: inv_rel_def)
      then show ?thesis
        using Loop(3) close [of v] by (auto simp: negotiating_def split: if_splits)
    qed
  qed
  then show ?thesis using rt by simp
qed

text \<open>A connection attempt preserves the session invariant however it ends, and when it succeeds
  the session's socket is open and it is not closed.\<close>

theorem connect_session_ok:
  assumes "session_ok s" and "sock s = NoSocket" and "\<not> closed s"
  shows "session_ok (snd (connect opened route timeout s)) \<and>
    (fst (connect opened route timeout s) = Ret () \<longrightarrow>
       sock (snd (connect opened route timeout s)) = OpenSocket \<and>
       \<not> closed (snd (connect opened route timeout s)))"
  using assms by (rule connect_keeps_ok)


section \<open>Whom a session adopts\<close>

definition same_session :: "endpoint list \<Rightarrow> cs2 \<Rightarrow> cs2 \<Rightarrow> bool" where
  "same_session D s t \<longleftrightarrow> (directory_endpoints s = D \<longrightarrow>
     (sess_uid t, sess_key t, servers t, prefer_relay t) = (sess_uid s, sess_key s, servers s, prefer_relay s) \<and>
     suffix (inbox t) (inbox s))"

lemma same_session_grows: "grows s t \<Longrightarrow> same_session D s t"
  by (simp add: grows_def same_session_def)

lemma same_session_step: "steps_by grows m \<Longrightarrow> steps_by (same_session D) m"
  by (simp add: steps_by_def same_session_grows)

interpretation ident: connect_frame "same_session D" D for D
proof (intro connect_frame.intro connect_frame_axioms.intro negotiation_frame.intro negotiation_frame_axioms.intro)
  show "two_state (same_session D)"
    by unfold_locales (auto simp: same_session_def directory_endpoints_def intro: suffix_order.trans)
  show "steps_by (same_session D) (modify (\<lambda>s. s\<lparr>close_targets := set_add a (close_targets s)\<rparr>))" for a
    by (simp add: steps_by_def same_session_def)
  show "steps_by (same_session D) (modify (\<lambda>s. s\<lparr>peer := Some a, connect_path := path\<rparr>))" for a path
    by (simp add: steps_by_def same_session_def)
  show "same_session D s t" if "directory_endpoints s \<noteq> D" for s t
    using that by (simp add: same_session_def)
qed (intro same_session_step grows_send_clear grows_monotonic grows_receive_clear grows_count_kind grows_count)+

lemma receive_clear_source:
  assumes "receive_clear s = (Ret (Some (packet, address)), t)"
  shows "\<exists>d. Datagram d address \<in> set (inbox s) \<and> open_packet (sess_key s) d = Inr packet"
proof -
  have "sock s \<noteq> NoSocket"
    using assms by (auto simp: receive_clear_def bind_gets)
  with assms obtain d a u where r: "recvfrom s = (Ret (Some (d, a)), u)"
    and rest: "bind (lift_sum (open_packet (sess_key s) d)) (\<lambda>clear.
        if length clear < 4 \<or> clear ! 0 \<noteq> 0xf1
        then seq (count ''packets_undecodable'') (ret None)
        else if be_nat (pyslice 2 4 clear) \<noteq> length clear - 4
        then seq (count ''packets_length_mismatch'') (ret None)
        else ret (Some (clear, a))) (u\<lparr>counters := count_in ''packets_received'' 1 (counters u)\<rparr>) =
      (Ret (Some (packet, address)), t)"
  proof -
    obtain o' u where u: "recvfrom s = (o', u)" by fastforce
    have key: "sess_key u = sess_key s"
      using steps_byD [OF core_recvfrom u] by (simp add: same_on_def core_def)
    from assms \<open>sock s \<noteq> NoSocket\<close> u key that show thesis
      by (cases o') (auto simp: receive_clear_def bind_gets bind_apply catch_def seq_count
          split: option.splits)
  qed
  from rest have "open_packet (sess_key s) d = Inr packet \<and> address = a"
    by (cases "open_packet (sess_key s) d") (auto simp: lift_sum_def seq_count split: if_splits)
  moreover from r have "Datagram d a \<in> set (inbox s)"
    by (auto simp: recvfrom_def split: if_splits list.splits recv.splits)
  ultimately show ?thesis by blast
qed

lemma for_each_send_core:
  assumes "for_each packets (\<lambda>p. send_clear p address) s = (Ret (), t)"
  shows "core t = core s"
proof -
  have "steps_by (same_on core) (for_each packets (\<lambda>p. send_clear p address))"
    by (intro core.for_each_step core_send_clear)
  from steps_byD [OF this assms] show ?thesis by (simp add: same_on_def)
qed

lemma adopt_Ret:
  assumes "adopt address path packets s = (Ret r, t)"
  shows "peer t = Some address \<and> connect_path t = path"
proof -
  from assms have "for_each packets (\<lambda>p. send_clear p address)
      (s\<lparr>peer := Some address, connect_path := path\<rparr>) = (Ret (), t)"
    by (auto simp: adopt_def seq_modify seq_eq_Ret)
  from for_each_send_core [OF this] show ?thesis by (simp add: core_def)
qed

lemma stays:
  "on_endpoint packet l s \<noteq> (Ret (Inr x), t)" "on_relay_port address l s \<noteq> (Ret (Inr x), t)"
  "on_allocation packet address l s \<noteq> (Ret (Inr x), t)" "on_hello_to packet address l s \<noteq> (Ret (Inr x), t)"
  "on_relay_to packet l s \<noteq> (Ret (Inr x), t)"
  by (auto simp: on_endpoint_def on_relay_port_def on_allocation_def on_hello_to_def on_relay_to_def
      bind_eq_Ret seq_eq_Ret Let_def split: sum.splits if_splits option.splits)

lemma negotiate_adopts:
  assumes "negotiate packet address l s = (Ret (Inr x), t)"
  shows "address \<notin> set (directory_endpoints s) \<and> length packet = 24 \<and> drop 4 packet = sess_uid s \<and>
    peer t = Some address \<and>
    (take 2 packet, connect_path t) \<in>
      {([0xf1, 0x84], ''relay'')} \<union>
      (if prefer_relay s then {} else {([0xf1, 0x41], ''direct-punch''), ([0xf1, 0x42], ''direct-accept'')})"
proof -
  have d: "pyslice 4 24 packet = drop 4 packet" if "length packet = 24"
    using that by (simp add: pyslice_def)
  show ?thesis
    using assms d
    by (auto simp: negotiate_def bind_gets Let_def stays seq_eq_Ret split: if_splits dest!: adopt_Ret)
qed

lemma found_iff:
  "(case r of Inl l5 \<Rightarrow> ret (Inl l5) | Inr (_ :: unit) \<Rightarrow> ret (Inr True)) s = (Ret (Inr True), t) \<longleftrightarrow>
   r = Inr () \<and> s = t"
  by (cases r) auto

text \<open>C18: When \<open>connect\<close> succeeds, the peer it has adopted is the sender of a datagram that carried this
  camera's 20-byte identifier and did not come from a directory server; and a session that prefers
  the relay has adopted it only on a relay-ready packet, never on a direct punch.\<close>

theorem connect_adopts_identified_peer:
  assumes "connect opened route timeout s = (Ret (), t)"
  shows "\<exists>d packet a. Datagram d a \<in> set (inbox s) \<and> open_packet (sess_key s) d = Inr packet \<and>
    length packet = 24 \<and> drop 4 packet = sess_uid s \<and> a \<notin> set (directory_endpoints s) \<and>
    peer t = Some a \<and>
    (take 2 packet, connect_path t) \<in>
      {([0xf1, 0x84], ''relay'')} \<union>
      (if prefer_relay s then {} else {([0xf1, 0x41], ''direct-punch''), ([0xf1, 0x42], ''direct-accept'')})"
proof -
  let ?D = "directory_endpoints s"
  obtain port host where o: "opened = Opened port" "route = Some host" "sock s = NoSocket"
    and r: "rendezvous host port timeout (s\<lparr>sock := OpenSocket\<rparr>) = (Ret (), t)"
    using assms
    by (auto simp: connect_def open_socket_def bind_gets bind_eq_Ret seq_eq_Ret Let_def
        split: if_splits socket_open.splits option.splits)
  from r show ?thesis
  proof (cases rule: rendezvous_cases)
    case (Loop address start o' u)
    let ?v = "s\<lparr>sock := OpenSocket, ticks := tl (ticks s)\<rparr>"
    let ?round = "connect_round ([0xf1, 0x20, 0x00, 0x24] @ sess_uid s @ address) (start + timeout)"
    from Loop(2,3) have "loop (Suc (length (tl (ticks s)))) ?round initial_negotiation ?v = (Ret True, t)"
      by (auto split: if_splits)
    from loop_Ret [OF this ident.two_state_axioms ident.round_step]
    obtain l w where vw: "same_session ?D ?v w" and w: "?round l w = (Ret (Inr True), t)" by blast
    from w obtain w1 w2 l1 w3 l2 w4 l3 w5 l4 w6 packet a w7 w8 now tick x where
      steps: "monotonic w = (Ret tick, w1)" "monotonic w1 = (Ret now, w2)"
        "send_lookups ([0xf1, 0x20, 0x00, 0x24] @ sess_uid s @ address) now l w2 = (Ret l1, w3)"
        "send_list_requests now l1 w3 = (Ret l2, w4)" "send_relay now l2 w4 = (Ret l3, w5)"
        "send_punches now l3 w5 = (Ret l4, w6)" "receive_clear w6 = (Ret (Some (packet, a)), w7)"
        "note_packet packet a w7 = (Ret (), w8)" "negotiate packet a l4 w8 = (Ret (Inr x), t)"
      by (auto simp: connect_round_def bind_eq_Ret seq_eq_Ret found_iff split: if_splits option.splits)
    have tr: "same_session ?D ?v z'" if "same_session ?D ?v z" "same_session ?D z z'" for z z'
      using that ident.R_trans by blast
    have s6: "same_session ?D ?v w6"
      by (rule tr [OF tr [OF tr [OF tr [OF tr [OF tr [OF vw]]]]]])
         (rule steps_byD [OF ident.tick_basic steps(1)] steps_byD [OF ident.tick_basic steps(2)]
            steps_byD [OF ident.lookups_step steps(3)] steps_byD [OF ident.list_requests_step steps(4)]
            steps_byD [OF ident.relay_step steps(5)] steps_byD [OF ident.punches_step steps(6)])+
    have s8: "same_session ?D ?v w8"
      by (rule tr [OF tr [OF s6]])
         (rule steps_byD [OF ident.receive_basic steps(7)] steps_byD [OF ident.note_step steps(8)])+
    have dv: "directory_endpoints ?v = ?D" by (simp add: directory_endpoints_def)
    obtain d where d: "Datagram d a \<in> set (inbox w6)" "open_packet (sess_key w6) d = Inr packet"
      using receive_clear_source [OF steps(7)] by blast
    have "Datagram d a \<in> set (inbox s)" "open_packet (sess_key s) d = Inr packet"
      using s6 dv d by (auto simp: same_session_def dest: set_mono_suffix)
    moreover have "directory_endpoints w8 = ?D" "sess_uid w8 = sess_uid s" "prefer_relay w8 = prefer_relay s"
      using s8 dv by (simp_all add: same_session_def directory_endpoints_def)
    ultimately show ?thesis
      using negotiate_adopts [OF steps(9)] by (intro exI [of _ d] exI [of _ packet] exI [of _ a]) simp
  qed simp
qed


section \<open>A connection attempt comes back\<close>

lemma returns_negotiation:
  "no_halt (send_lookups lookup now l)" "no_halt (send_list_requests now l)" "no_halt (send_relay now l)"
  "no_halt (send_punches now l)" "no_halt (note_packet packet address)"
  unfolding send_lookups_def send_list_requests_def send_relay_def send_punches_def note_packet_def
    send_twice_def
  by (intro no_halt_rules returns_send_clear returns_count)+

lemma returns_negotiate: "no_halt (negotiate packet address l)"
proof -
  have "no_halt (on_endpoint packet l)" "no_halt (on_hello_to packet address l)"
    unfolding on_endpoint_def on_hello_to_def send_twice_def
    by (auto intro!: no_halt_rules returns_send_clear split: sum.split)
  moreover have "no_halt (on_relay_port address l)" "no_halt (on_allocation packet address l)"
    "no_halt (on_relay_to packet l)" "no_halt (adopt address path packets)" for path packets
    unfolding on_relay_port_def on_allocation_def on_relay_to_def adopt_def send_twice_def
    by (intro no_halt_rules returns_send_clear)+
  ultimately show ?thesis
    unfolding negotiate_def by (intro no_halt_rules returns_count returns_send_clear)
qed


definition clock_kept :: "endpoint list \<Rightarrow> cs2 \<Rightarrow> cs2 \<Rightarrow> bool" where
  "clock_kept D s t \<longleftrightarrow> (directory_endpoints s = D \<longrightarrow> directory_endpoints t = D \<and> ticks t = ticks s)"

lemma clock_kept_frame:
  "steps_by (same_on core) m \<Longrightarrow> steps_by (same_on ticks) m \<Longrightarrow> steps_by (clock_kept D) m"
  by (simp add: steps_by_def same_on_def clock_kept_def core_def directory_endpoints_def)

interpretation silent: negotiation_frame "clock_kept D" D for D
proof (intro negotiation_frame.intro negotiation_frame_axioms.intro)
  show "two_state (clock_kept D)"
    by unfold_locales (auto simp: clock_kept_def)
  show "steps_by (clock_kept D) (modify (\<lambda>s. s\<lparr>close_targets := set_add a (close_targets s)\<rparr>))" for a
    by (simp add: steps_by_def clock_kept_def directory_endpoints_def)
  show "steps_by (clock_kept D) (modify (\<lambda>s. s\<lparr>peer := Some a, connect_path := path\<rparr>))" for a path
    by (simp add: steps_by_def clock_kept_def directory_endpoints_def)
  show "clock_kept D s t" if "directory_endpoints s \<noteq> D" for s t
    using that by (simp add: clock_kept_def)
qed (intro clock_kept_frame core_steps clock_steps)+

lemma round_after_clock:
  fixes lookup :: bytes
  defines "rest \<equiv> \<lambda>now l. bind (send_lookups lookup now l) (\<lambda>l1.
          bind (send_list_requests now l1) (\<lambda>l2.
          bind (send_relay now l2) (\<lambda>l3.
          bind (send_punches now l3) (\<lambda>l4.
          bind receive_clear (\<lambda>received. case received of
            None \<Rightarrow> ret (Inl l4)
          | Some (packet, address) \<Rightarrow>
              seq (note_packet packet address)
              (bind (negotiate packet address l4) (\<lambda>r. case r of
                 Inl l5 \<Rightarrow> ret (Inl l5)
               | Inr _ \<Rightarrow> ret (Inr True))))))))"
  assumes "rest now l s = (r, t)"
  shows "r \<noteq> Halt" "ticks t = ticks s"
proof -
  have c: "no_halt (case r of Inl l5 \<Rightarrow> ret (Inl l5) | Inr (_ :: unit) \<Rightarrow> ret (Inr True))"
    "steps_by (clock_kept D) (case r of Inl l5 \<Rightarrow> ret (Inl l5) | Inr (_ :: unit) \<Rightarrow> ret (Inr True))" for r D
    by (auto split: sum.split intro: no_halt_rules silent.step_rules)
  have "no_halt (rest now l)"
    unfolding rest_def
    by (intro no_halt_rules returns_negotiation returns_receive_clear returns_negotiate c)
  from no_haltD [OF this] assms(2) show "r \<noteq> Halt" by auto
  have "steps_by (clock_kept (directory_endpoints s)) (rest now l)"
    unfolding rest_def
    by (intro silent.step_rules silent.lookups_step silent.list_requests_step silent.relay_step
        silent.punches_step silent.receive_basic silent.note_step silent.negotiate_step c)
  from steps_byD [OF this assms(2)] show "ticks t = ticks s" by (simp add: clock_kept_def)
qed

lemma round_clock:
  assumes "late d (ticks s)" "connect_round lookup d l s = (r, t)"
  shows "r \<noteq> Halt" "r = Ret (Inl l') \<Longrightarrow> late d (ticks t) \<and> length (ticks t) < length (ticks s)"
proof -
  obtain t0 ts where ts: "ticks s = t0 # ts"
    using late_nonempty [OF assms(1)] by (cases "ticks s") auto
  have "r \<noteq> Halt \<and> (r = Ret (Inl l') \<longrightarrow> late d (ticks t) \<and> length (ticks t) < length (ticks s))"
  proof (cases "t0 < d")
    case False
    with assms(2) ts show ?thesis by (auto simp: connect_round_def bind_def monotonic_def)
  next
    case True
    with assms(1) ts late_step [of d t0 ts] have l: "late d ts" "late d (tl ts)" by auto
    then obtain now ts' where ts': "ts = now # ts'"
      using late_nonempty [OF l(1)] by (cases ts) auto
    have "connect_round lookup d l s = bind (send_lookups lookup now l) (\<lambda>l1.
          bind (send_list_requests now l1) (\<lambda>l2.
          bind (send_relay now l2) (\<lambda>l3.
          bind (send_punches now l3) (\<lambda>l4.
          bind receive_clear (\<lambda>received. case received of
            None \<Rightarrow> ret (Inl l4)
          | Some (packet, address) \<Rightarrow>
              seq (note_packet packet address)
              (bind (negotiate packet address l4) (\<lambda>r. case r of
                 Inl l5 \<Rightarrow> ret (Inl l5)
               | Inr _ \<Rightarrow> ret (Inr True)))))))) (s\<lparr>ticks := ts'\<rparr>)"
      using True ts ts' by (simp add: connect_round_def bind_apply [of monotonic] monotonic_def)
    with assms(2) have "r \<noteq> Halt" "ticks t = ts'"
      using round_after_clock [of lookup now l "s\<lparr>ticks := ts'\<rparr>" r t] by simp_all
    with l ts ts' show ?thesis by simp
  qed
  then show "r \<noteq> Halt" "r = Ret (Inl l') \<Longrightarrow> late d (ticks t) \<and> length (ticks t) < length (ticks s)"
    by auto
qed

text \<open>C26: A connection attempt always comes back, connected or with an error, once the clock has passed
  its deadline for two readings, however many packets the network delivers meanwhile.\<close>

theorem connect_returns:
  assumes "ticks s = start # readings @ [a, b]" and "start + timeout \<le> a" and "start + timeout \<le> b"
  shows "fst (connect opened route timeout s) \<noteq> Halt"
proof
  assume "fst (connect opened route timeout s) = Halt"
  then obtain t where h: "connect opened route timeout s = (Halt, t)" by (metis prod.collapse)
  have no_open: "no_halt (open_socket opened)"
    unfolding open_socket_def
    by (auto intro!: no_halt_rules returns_close split: socket_open.split)
  have clock_open: "steps_by (same_on ticks) (open_socket opened)"
    unfolding open_socket_def
    by (auto intro!: clock.step_rules clock_close clock_modify split: socket_open.split)
  obtain q u where u: "open_socket opened s = (q, u)" by fastforce
  have tu: "ticks u = start # readings @ [a, b]"
    using steps_byD [OF clock_open u] assms(1) by (simp add: same_on_def)
  have q: "q \<noteq> Halt" using no_haltD [OF no_open] u by blast
  obtain host port where r: "rendezvous host port timeout u = (Halt, t)"
    using h u q no_haltD [OF returns_close]
    by (auto simp: connect_def bind_gets bind_apply split: if_splits outcome.splits option.splits prod.splits)
  then show False
  proof (cases rule: rendezvous_cases)
    case Abort
    with tu show False by simp
  next
    case (Loop address start' o' v)
    have start: "start' = start" "tl (ticks u) = readings @ [a, b]" using Loop(1) tu by simp_all
    have o': "o' = Halt" using Loop(3) by (auto split: if_splits)
    let ?v = "u\<lparr>ticks := readings @ [a, b]\<rparr>"
    have late: "late (start + timeout) (ticks ?v)" using assms(2,3) by (auto simp: late_def)
    have "loop (Suc (length (ticks ?v))) (connect_round ([0xf1, 0x20, 0x00, 0x24] @ sess_uid u @ address)
        (start + timeout)) initial_negotiation ?v \<noteq> (Halt, v)"
      by (rule await_loop_returns [OF _ _ late lessI]) (auto dest: round_clock)
    then show False using Loop(2) o' start by simp
  qed
qed

definition fresh_session :: cs2 where
  "fresh_session = test_session\<lparr>sock := NoSocket, peer := None, connect_path := [], ticks := [0, 0, 0],
     inbox := [Datagram ([0xf1, 0x84, 0x00, 0x14] @ replicate 20 7) (str ''198.51.100.4'', 9000)]\<rparr>"

lemma fresh_session_ok: "session_ok fresh_session"
  using test_session_ok by (simp add: session_ok_def fresh_session_def)

theorem connect_session_ok_witness:
  "session_ok (snd (connect (Opened 40000) (Some (str ''192.0.2.7'')) 5 fresh_session))"
  using connect_session_ok [OF fresh_session_ok, of "Opened 40000" "Some (str ''192.0.2.7'')" 5]
  by (simp add: fresh_session_def test_session_def)

theorem connect_routes_directory_packets_witness:
  "list_all (\<lambda>(packet, address). directory_only (directory_endpoints fresh_session) packet address)
     (requests (snd (connect (Opened 40000) (Some (str ''192.0.2.7'')) 5 fresh_session)))"
  by (rule connect_routes_directory_packets) (simp add: fresh_session_def test_session_def)

theorem connect_returns_witness:
  "fst (connect (Opened 40000) (Some (str ''192.0.2.7'')) 5 (fresh_session\<lparr>ticks := [0, 5, 6]\<rparr>)) \<noteq> Halt"
  by (rule connect_returns [of _ 0 "[]" 5 6]) simp_all

definition tally :: "string \<Rightarrow> (string \<times> nat) list \<Rightarrow> (string \<times> nat) list" where
  "tally name cs = (if has_key cs name \<or> length cs < MAX_COUNTER_KEYS then count_in name 1 cs else cs)"

lemma count_kind_tally: "count_kind pre kind s = (Ret (), s\<lparr>counters := tally (pre @ kind) (counters s)\<rparr>)"
  by (simp add: count_kind_def bind_gets tally_def when_do_def count_apply del: MAX_COUNTER_KEYS_def)

lemma fresh_session_connects:
  assumes "0 < timeout"
  shows "\<exists>t. connect (Opened 40000) (Some (str ''192.0.2.7'')) timeout fresh_session = (Ret (), t)"
proof -
  obtain ws where ws: "encode_wire_packets (str ''SSD@cs2-network.'') [0xf1, 0xe0, 0, 0] = Inr ws"
    using wire_packets_ascii [OF test_key_ascii] by blast
  have aton: "inet_aton (str ''192.0.2.7'') = Inr [192, 0, 2, 7]"
    by (rule inet_aton_ntoa) (simp add: inet_ntoa_def str_def show_nat.simps)
  obtain address where address: "encode_network_address (str ''192.0.2.7'') 40000 = Inr address"
    by (simp add: encode_network_address_def aton)
  have rx: "open_packet k (0xf1 # p) = Inr (0xf1 # p)" for k p
    by (simp add: open_packet_def)
  show ?thesis
    using assms by (simp add: connect_def open_socket_def seq_modify bind_gets bind_apply [of "modify _"]
        fresh_session_def test_session_def rendezvous_def seq_def bind_def address lift_sum_def monotonic_def)
      (simp add: connect_round_def bind_def monotonic_def send_lookups_def initial_negotiation_def
        send_list_requests_def send_relay_def send_punches_def receive_clear_def recvfrom_def catch_def
        lift_sum_def rx count_apply note_packet_def Let_def seq_def count_kind_tally when_do_def
        negotiate_def be_nat_def pyslice_def adopt_def directory_endpoints_def send_clear_ok
        test_key_ascii ws)
qed

theorem connect_adopts_identified_peer_witness:
  "\<exists>t a. connect (Opened 40000) (Some (str ''192.0.2.7'')) 5 fresh_session = (Ret (), t) \<and>
     peer t = Some a \<and> a \<notin> set (directory_endpoints fresh_session) \<and> connect_path t = ''relay''"
proof -
  obtain t where t: "connect (Opened 40000) (Some (str ''192.0.2.7'')) 5 fresh_session = (Ret (), t)"
    using fresh_session_connects [of 5] by auto
  from connect_adopts_identified_peer [OF t] t show ?thesis
    by (auto simp: fresh_session_def test_session_def)
qed

end
