(* ===== verification/CS2_Command.thy ===== *)
theory CS2_Command
  imports CS2_Connect
begin

text \<open>
  The camera commands of \<open>src/src/okam_native/cs2.py\<close> above the session: CGI requests, command and
  video framing, the result parser, the login with its credential candidates, and the inspection
  of H.264 payloads. The functions take the session as an argument and use four of its
  operations; the record \<open>transport\<close> is that argument, and \<open>cs2_transport\<close> is the session itself.
\<close>

section \<open>The session as the commands see it\<close>

record 's transport =
  tr_write :: "int \<Rightarrow> bytes \<Rightarrow> rat \<Rightarrow> ('s, unit) eff"
  tr_read :: "int \<Rightarrow> int \<Rightarrow> rat \<Rightarrow> ('s, bytes) eff"
  tr_count_kind :: "string \<Rightarrow> string \<Rightarrow> ('s, unit) eff"
  tr_monotonic :: "('s, rat) eff"
  tr_script :: "'s \<Rightarrow> rat list"

definition cs2_transport :: "cs2 transport" where
  "cs2_transport = \<lparr>tr_write = session_write, tr_read = read_exact, tr_count_kind = count_kind,
     tr_monotonic = monotonic, tr_script = ticks\<rparr>"

section \<open>Requests\<close>

definition MAX_COMMAND_BYTES :: nat where [simp]: "MAX_COMMAND_BYTES = 1024 * 1024"
definition LOGIN_RESPONSE_COMMAND :: nat where [simp]: "LOGIN_RESPONSE_COMMAND = 0x6001"
definition AUTH_CANDIDATE_SECONDS :: rat where [simp]: "AUTH_CANDIDATE_SECONDS = 15"

definition LIVE_STREAM_RESPONSE_COMMANDS :: "nat list" where
  "LIVE_STREAM_RESPONSE_COMMANDS = [0x6037, 0x60D1]"

definition bstr :: "string \<Rightarrow> bytes" where
  "bstr s = map of_char s"

text \<open>\<open>struct.pack("<HHHH", a, b, c, d)\<close> and its inverse.\<close>

definition pack_header :: "nat \<Rightarrow> nat \<Rightarrow> nat \<Rightarrow> nat \<Rightarrow> bytes" where
  "pack_header a b c d = le_bytes 2 a @ le_bytes 2 b @ le_bytes 2 c @ le_bytes 2 d"

definition unpack_header :: "bytes \<Rightarrow> nat \<times> nat \<times> nat \<times> nat" where
  "unpack_header h =
     (le_nat (pyslice 0 2 h), le_nat (pyslice 2 4 h), le_nat (pyslice 4 6 h), le_nat (pyslice 6 8 h))"

definition has_control :: "pystr \<Rightarrow> bool" where
  "has_control s \<longleftrightarrow> list_ex (\<lambda>c. c < 0x20) s"

definition request_text :: "pystr \<Rightarrow> pystr \<Rightarrow> pystr \<Rightarrow> pystr" where
  "request_text path user password =
     str ''GET /'' @ path @ str ''loginuse='' @ user @ str ''&loginpas='' @ password @
     str ''&user=admin&pwd=888888&''"

definition make_cgi_request :: "pystr \<Rightarrow> pystr \<Rightarrow> pystr \<Rightarrow> exn + bytes" where
  "make_cgi_request path user password =
     (if path = [] \<or> 2048 < length path \<or> has_control path
      then Inl (CS2Error ''camera CGI path is invalid'')
      else if list_ex (\<lambda>value. 512 < length value \<or> has_control value) [user, password]
      then Inl (CS2Error ''camera credential is invalid'')
      else case encode_ascii (request_text path user password) of
        Inl e \<Rightarrow> Inl (CS2Error ''camera CGI request is invalid'')
      | Inr request \<Rightarrow>
          if 65535 < length request then Inl (CS2Error ''camera CGI request is too large'')
          else Inr (pack_header 0x0A01 0 (length request) 0 @ request))"

definition write_command :: "'s transport \<Rightarrow> bytes \<Rightarrow> ('s, unit) eff" where
  "write_command T request =
     (if length request < 8 then raise (CS2Error ''camera command framing is invalid'')
      else tr_write T 0 request 5)"

section \<open>Responses\<close>

definition hex_word :: "nat \<Rightarrow> string" where
  "hex_word n = hex_bytes (be_bytes 2 n)"

definition is_timeout :: "exn \<Rightarrow> bool" where
  "is_timeout e = (case e of CS2Timeout _ \<Rightarrow> True | _ \<Rightarrow> False)"

definition read_command :: "'s transport \<Rightarrow> rat \<Rightarrow> ('s, nat \<times> bytes) eff" where
  "read_command T timeout =
     bind (tr_monotonic T) (\<lambda>start.
     bind (tr_read T 0 8 timeout) (\<lambda>header.
     (case unpack_header header of (magic, command, len, _) \<Rightarrow>
        if magic \<noteq> 0x0A01 \<or> len > MAX_COMMAND_BYTES
        then raise (CS2Error ''camera command framing is invalid'')
        else seq (tr_count_kind T ''command_'' (hex_word command))
             (bind (catch
                (bind (tr_monotonic T) (\<lambda>now. tr_read T 0 (int len) (max 0 (start + timeout - now))))
                (\<lambda>e. raise (if is_timeout e then CS2Error ''camera command body did not arrive'' else e)))
              (\<lambda>payload. ret (command, payload))))))"

text \<open>
  \<open>parse_result\<close>: after each occurrence of \<open>result\<close>, blanks, an equals sign, blanks and quotes, an
  optional minus sign and decimal digits. \<open>int()\<close> refuses more than 4300 digits with a
  \<open>ValueError\<close>.
\<close>

definition blank :: "byte \<Rightarrow> bool" where
  "blank b \<longleftrightarrow> b = 0x20 \<or> b = 0x09"

definition blank_or_quote :: "byte \<Rightarrow> bool" where
  "blank_or_quote b \<longleftrightarrow> blank b \<or> b = 0x22 \<or> b = 0x27"

definition digit_byte :: "byte \<Rightarrow> bool" where
  "digit_byte b \<longleftrightarrow> 0x30 \<le> b \<and> b \<le> 0x39"

definition int_of_bytes :: "bytes \<Rightarrow> exn + int" where
  "int_of_bytes ds =
     (if 4300 < length ds then Inl ValueError
      else Inr (int (dec_value (map (\<lambda>d. unat d - 0x30) ds))))"

definition result_at :: "bytes \<Rightarrow> exn + int option" where
  "result_at after =
     (let r1 = dropWhile blank after in
      if r1 = [] \<or> hd r1 \<noteq> 0x3d then Inr None
      else let r2 = dropWhile blank_or_quote (tl r1);
               negative = (r2 \<noteq> [] \<and> hd r2 = 0x2d);
               digits = takeWhile digit_byte (if negative then tl r2 else r2) in
        if digits = [] then Inr None
        else sbind (int_of_bytes digits) (\<lambda>n. Inr (Some (if negative then - n else n))))"

function parse_from :: "bytes \<Rightarrow> nat \<Rightarrow> exn + int option" where
  "parse_from payload start =
     (case find_from (bstr ''result'') payload start of
        None \<Rightarrow> Inr None
      | Some marker \<Rightarrow>
          (case result_at (drop (marker + length (bstr ''result'')) payload) of
             Inr None \<Rightarrow> parse_from payload (marker + 1)
           | r \<Rightarrow> r))"
  by pat_completeness auto
termination
proof (relation "measure (\<lambda>(payload, start). Suc (length payload) - start)", goal_cases)
  case (2 payload start marker)
  then have "start \<le> marker" "occurs_at (bstr ''result'') payload marker"
    by (auto dest: find_from_Some)
  moreover from this(2) have "marker + length (bstr ''result'') \<le> length payload"
    by (rule occurs_at_bound) (simp add: bstr_def)
  ultimately show ?case by (simp add: bstr_def)
qed simp

declare parse_from.simps [simp del]

definition parse_result :: "bytes \<Rightarrow> exn + int option" where
  "parse_result payload = parse_from payload 0"

section \<open>Logging in\<close>

text \<open>\<open>dict.fromkeys\<close> keeps the first of equal candidates.\<close>

definition login_candidates :: "pystr \<Rightarrow> (pystr \<times> pystr) list" where
  "login_candidates device_password =
     foldl (\<lambda>acc c. set_add c acc) []
       [(str ''admin'', device_password), (str ''admin'', str ''888888''), (str ''admin'', [])]"

record login =
  login_user :: pystr
  login_password :: pystr
  login_result :: int
  login_candidate :: nat
  login_attempts :: "int option list"

definition response_round ::
  "'s transport \<Rightarrow> nat list \<Rightarrow> rat \<Rightarrow> unit \<Rightarrow> ('s, unit + (nat \<times> int) option) eff" where
  "response_round T command_ids deadline = (\<lambda>_.
     bind (tr_monotonic T) (\<lambda>now.
     (let remaining = deadline - now in
      if remaining \<le> 0 then ret (Inr None)
      else bind (catch (bind (read_command T remaining) (\<lambda>r. ret (Some r)))
             (\<lambda>e. if is_timeout e then ret None else raise e)) (\<lambda>response.
        case response of
          None \<Rightarrow> ret (Inr None)
        | Some (command, payload) \<Rightarrow>
            if command \<notin> set command_ids then ret (Inl ())
            else bind (lift_sum (parse_result payload)) (\<lambda>result. case result of
                   None \<Rightarrow> ret (Inl ())
                 | Some r \<Rightarrow> ret (Inr (Some (command, r))))))))"

text \<open>Every round reads the clock, so the readings left bound their number.\<close>

definition read_response :: "'s transport \<Rightarrow> nat list \<Rightarrow> rat \<Rightarrow> ('s, (nat \<times> int) option) eff" where
  "read_response T command_ids deadline =
     bind (gets (\<lambda>s. Suc (length (tr_script T s)))) (\<lambda>fuel.
       loop fuel (response_round T command_ids deadline) ())"

definition read_command_result ::
  "'s transport \<Rightarrow> nat list \<Rightarrow> rat \<Rightarrow> ('s, (nat \<times> int) option) eff" where
  "read_command_result T command_ids timeout =
     bind (tr_monotonic T) (\<lambda>now. read_response T command_ids (now + timeout))"

primrec try_candidates ::
  "'s transport \<Rightarrow> (nat \<times> pystr \<times> pystr) list \<Rightarrow> rat \<Rightarrow> int option list \<Rightarrow> ('s, login) eff" where
  "try_candidates T [] deadline attempts = raise (CameraLoginRejected attempts)"
| "try_candidates T (c # cs) deadline attempts =
     (case c of (candidate, user, password) \<Rightarrow>
      bind (tr_monotonic T) (\<lambda>now.
      (let remaining = deadline - now in
       if remaining \<le> 0 then raise (CameraLoginRejected attempts)
       else bind (tr_monotonic T) (\<lambda>now'.
            bind (lift_sum (make_cgi_request (str ''get_status.cgi?name=admin&'') user password)) (\<lambda>request.
            seq (write_command T request)
            (bind (read_response T [LOGIN_RESPONSE_COMMAND]
                     (now' + min remaining AUTH_CANDIDATE_SECONDS)) (\<lambda>answer.
             (let result = map_option snd answer; attempts' = attempts @ [result] in
              if result = Some 0
              then ret \<lparr>login_user = user, login_password = password, login_result = 0,
                        login_candidate = candidate, login_attempts = attempts'\<rparr>
              else try_candidates T cs deadline attempts'))))))))"

definition authenticate_camera :: "'s transport \<Rightarrow> pystr \<Rightarrow> rat \<Rightarrow> ('s, login) eff" where
  "authenticate_camera T device_password timeout =
     (let candidates = login_candidates device_password in
      bind (tr_monotonic T) (\<lambda>now.
        try_candidates T (enumerate 0 candidates) (now + timeout) []))"

section \<open>Video\<close>

definition read_video_frame :: "'s transport \<Rightarrow> rat \<Rightarrow> ('s, bytes \<times> byte) eff" where
  "read_video_frame T timeout =
     bind (tr_read T 1 32 timeout) (\<lambda>header.
     if take 4 header \<noteq> [0x55, 0xaa, 0x15, 0xa8]
     then raise (CS2Error ''camera video framing is invalid'')
     else let len = le_nat (pyslice 16 20 header) in
       if \<not> (0 < len \<and> len \<le> MAX_FRAME_BYTES)
       then raise (CS2Error ''camera video frame is invalid'')
       else bind (tr_read T 1 (int len) timeout) (\<lambda>frame. ret (frame, header ! 4)))"

text \<open>One iteration of the loop of \<open>inspect_h264\<close>.\<close>

definition inspect_step :: "bytes \<Rightarrow> bool \<times> bool \<Rightarrow> nat \<Rightarrow> bool \<times> bool" where
  "inspect_step payload = (\<lambda>(valid, keyframe) index.
     (let nal = (if pyslice index (index + 3) payload = [0, 0, 1] then Some (index + 3)
                 else if pyslice index (index + 4) payload = [0, 0, 0, 1] then Some (index + 4)
                 else None) in
      case nal of
        None \<Rightarrow> (valid, keyframe)
      | Some n \<Rightarrow>
          if length payload \<le> n then (valid, keyframe)
          else let kind = payload ! n AND 0x1f in
            if 1 \<le> kind \<and> kind \<le> 12 then (True, keyframe \<or> kind = 5 \<or> kind = 7)
            else (valid, keyframe)))"

definition inspect_h264 :: "bytes \<Rightarrow> bool \<times> bool" where
  "inspect_h264 payload = foldl (inspect_step payload) (False, False) [0..<length payload]"

section \<open>The interface to the session\<close>

text \<open>
  What the commands rely on: a read either returns exactly the bytes it was asked for, taken from
  the front of the channel, or leaves the channel with everything it had; when enough bytes are
  already buffered it returns at once, after one reading of the clock; counting is silent.
\<close>

lemma is_timeout_simps [simp]: "is_timeout (CS2Timeout m)" "\<not> is_timeout (CS2Error m)"
  by (simp_all add: is_timeout_def)

lemma unpack_pack_header:
  assumes "a < 65536" "b < 65536" "c < 65536" "d < 65536"
  shows "length (pack_header a b c d) = 8" "unpack_header (pack_header a b c d) = (a, b, c, d)"
  using assms
  by (simp_all add: pack_header_def unpack_header_def slice_simps le_nat_le_bytes del: le_bytes_numeral)

locale channel_transport =
  fixes T :: "'s transport"
    and buffered :: "nat \<Rightarrow> 's \<Rightarrow> bytes"
    and usable :: "'s \<Rightarrow> bool"
    and tick :: "'s \<Rightarrow> 's"
  assumes read_takes: "tr_read T (int ch) n timeout s = (Ret b, t) \<Longrightarrow> int (length b) = n \<and>
      (\<exists>arrived. buffered ch s @ arrived = b @ buffered ch t)"
    and read_keeps: "tr_read T (int ch) n timeout s = (Raise e, t) \<Longrightarrow> usable s \<Longrightarrow> ch < 8 \<Longrightarrow>
      prefix (buffered ch s) (buffered ch t)"
    and read_buffered: "usable s \<Longrightarrow> tr_script T s = x # xs \<Longrightarrow> ch < 8 \<Longrightarrow> n \<le> length (buffered ch s) \<Longrightarrow>
      n \<le> MAX_FRAME_BYTES \<Longrightarrow>
      \<exists>t. tr_read T (int ch) (int n) timeout s = (Ret (take n (buffered ch s)), t) \<and>
        buffered ch t = drop n (buffered ch s) \<and> usable t \<and> tr_script T t = xs"
    and clock_reads: "tr_monotonic T s = (case tr_script T s of [] \<Rightarrow> (Halt, s) | x # _ \<Rightarrow> (Ret x, tick s))"
    and tick_script: "tr_script T (tick s) = tl (tr_script T s)" "usable (tick s) = usable s"
      "buffered ch (tick s) = buffered ch s"
    and count_silent: "\<exists>t. tr_count_kind T pre kind s = (Ret (), t) \<and> buffered ch t = buffered ch s \<and>
      usable t = usable s \<and> tr_script T t = tr_script T s"
begin

lemma clock_Cons: "tr_script T s = x # xs \<Longrightarrow> tr_monotonic T s = (Ret x, tick s)"
  by (simp add: clock_reads)

lemma clock_Raise: "tr_monotonic T s \<noteq> (Raise e, t)"
  by (simp add: clock_reads split: list.split)

text \<open>A frame that is already buffered is returned as it is, and only it is taken.\<close>

lemma command_buffered:
  assumes "usable s" "tr_script T s = x1 # x2 # x3 # x4 # xs" "command < 65536" "length body < 65536"
    and "buffered 0 s = pack_header 0x0A01 command (length body) 0 @ body @ rest"
  shows "\<exists>t. read_command T timeout s = (Ret (command, body), t) \<and> buffered 0 t = rest \<and> usable t \<and>
    tr_script T t = xs"
proof -
  have hdr: "length (pack_header 0x0A01 command (length body) 0) = 8"
    "unpack_header (pack_header 0x0A01 command (length body) 0) = (0x0A01, command, length body, 0)"
    using assms(3,4) by (simp_all add: unpack_pack_header)
  let ?s1 = "tick s"
  have s1: "usable ?s1" "tr_script T ?s1 = x2 # x3 # x4 # xs" "buffered 0 ?s1 = buffered 0 s"
    using assms(1,2) by (simp_all add: tick_script)
  obtain t2 where t2: "tr_read T 0 8 timeout ?s1 = (Ret (pack_header 0x0A01 command (length body) 0), t2)"
    "buffered 0 t2 = body @ rest" "usable t2" "tr_script T t2 = x3 # x4 # xs"
    using read_buffered [of ?s1 x2 "x3 # x4 # xs" 0 8 timeout] s1 assms(5) hdr(1) by auto
  obtain t3 where t3: "tr_count_kind T ''command_'' (hex_word command) t2 = (Ret (), t3)"
    "buffered 0 t3 = body @ rest" "usable t3" "tr_script T t3 = x3 # x4 # xs"
    using count_silent [of "''command_''" "hex_word command" t2 0] t2 by auto
  let ?t4 = "tick t3"
  have t4: "usable ?t4" "tr_script T ?t4 = x4 # xs" "buffered 0 ?t4 = body @ rest"
    using t3 by (simp_all add: tick_script)
  obtain t5 where t5: "tr_read T 0 (int (length body)) (max 0 (x1 + timeout - x3)) ?t4 = (Ret body, t5)"
    "buffered 0 t5 = rest" "usable t5" "tr_script T t5 = xs"
    using read_buffered [of ?t4 x4 xs 0 "length body" "max 0 (x1 + timeout - x3)"] t4 assms(4) by auto
  have "read_command T timeout s = (Ret (command, body), t5)"
    using assms(2,4) hdr(2) t2 t3 t4 t5
    by (simp add: read_command_def bind_def seq_def catch_def clock_Cons)
  with t5 show ?thesis by blast
qed

text \<open>A timeout means that no byte has been taken from the channel.\<close>

lemma command_timeout:
  assumes "read_command T timeout s = (Raise e, t)" "is_timeout e" "usable s"
  shows "prefix (buffered 0 s) (buffered 0 t)"
proof (cases "tr_script T s")
  case Nil
  with assms(1) show ?thesis by (simp add: read_command_def bind_def clock_reads)
next
  case (Cons x xs)
  let ?s1 = "tick s"
  obtain r u where u: "tr_read T 0 8 timeout ?s1 = (r, u)" by fastforce
  have rest: "\<not> is_timeout e" if "seq (tr_count_kind T ''command_'' k)
      (bind (catch (bind (tr_monotonic T) g) (\<lambda>e. raise (if is_timeout e then CS2Error m else e))) h) v =
      (Raise e, w)" and "\<And>p v e w. h p v \<noteq> (Raise e, w)" for k g m h v w
  proof -
    obtain v' where v': "tr_count_kind T ''command_'' k v = (Ret (), v')"
      using count_silent by blast
    with that(1) have b: "bind (catch (bind (tr_monotonic T) g)
        (\<lambda>e. raise (if is_timeout e then CS2Error m else e))) h v' = (Raise e, w)"
      by (simp add: seq_def bind_def)
    then show ?thesis
      using that(2)
      by (cases rule: bind_cases)
         (auto simp: catch_def split: outcome.splits prod.splits if_splits)
  qed
  show ?thesis
  proof (cases r)
    case (Ret header)
    with assms(1) u Cons have "(case unpack_header header of (magic, command, len, _) \<Rightarrow>
        if magic \<noteq> 0x0A01 \<or> len > MAX_COMMAND_BYTES
        then raise (CS2Error ''camera command framing is invalid'')
        else seq (tr_count_kind T ''command_'' (hex_word command))
             (bind (catch
                (bind (tr_monotonic T) (\<lambda>now. tr_read T 0 (int len) (max 0 (x + timeout - now))))
                (\<lambda>e. raise (if is_timeout e then CS2Error ''camera command body did not arrive'' else e)))
              (\<lambda>payload. ret (command, payload)))) u = (Raise e, t)"
      by (simp add: read_command_def bind_def [of "tr_monotonic T"] bind_def [of "tr_read T _ _ _"] clock_Cons)
    then have "\<not> is_timeout e"
      by (auto split: prod.splits if_splits dest!: rest)
    with assms(2) show ?thesis by simp
  next
    case (Raise e')
    with assms(1) u Cons have "t = u"
      by (simp add: read_command_def bind_def clock_Cons)
    with read_keeps [of 0 8 timeout ?s1 e' u] u Raise assms(3) show ?thesis
      by (simp add: tick_script)
  next
    case Halt
    with assms(1) u Cons show ?thesis by (simp add: read_command_def bind_def clock_Cons)
  qed
qed

text \<open>A video frame that is returned stood behind its header in channel 1, with the length it declares.\<close>

lemma frame_taken:
  assumes "read_video_frame T timeout s = (Ret (frame, flag), t)"
  shows "\<exists>header arrived. length header = 32 \<and> take 4 header = [0x55, 0xaa, 0x15, 0xa8] \<and>
    le_nat (pyslice 16 20 header) = length frame \<and> flag = header ! 4 \<and>
    0 < length frame \<and> length frame \<le> MAX_FRAME_BYTES \<and>
    buffered 1 s @ arrived = header @ frame @ buffered 1 t"
proof -
  from assms obtain header u where h: "tr_read T 1 32 timeout s = (Ret header, u)"
    "take 4 header = [0x55, 0xaa, 0x15, 0xa8]" "flag = header ! 4"
    "0 < le_nat (pyslice 16 20 header)" "le_nat (pyslice 16 20 header) \<le> MAX_FRAME_BYTES"
    and f: "tr_read T 1 (int (le_nat (pyslice 16 20 header))) timeout u = (Ret frame, t)"
    by (auto simp: read_video_frame_def bind_eq_Ret Let_def split: if_splits)
  have "int (length header) = 32 \<and> (\<exists>a. buffered 1 s @ a = header @ buffered 1 u)"
    using read_takes [of 1 32 timeout s header u] h(1) by simp
  then obtain a1 where a1: "length header = 32" "buffered 1 s @ a1 = header @ buffered 1 u" by auto
  have "int (length frame) = int (le_nat (pyslice 16 20 header)) \<and> (\<exists>a. buffered 1 u @ a = frame @ buffered 1 t)"
    using read_takes [of 1 _ timeout u frame t] f by simp
  then obtain a2 where a2: "length frame = le_nat (pyslice 16 20 header)"
    "buffered 1 u @ a2 = frame @ buffered 1 t" by auto
  have "buffered 1 s @ a1 @ a2 = header @ frame @ buffered 1 t"
    using a1(2) a2(2) by (metis append.assoc)
  with h a1(1) a2(1) show ?thesis
    by (intro exI [of _ header] exI [of _ "a1 @ a2"]) auto
qed

end

lemma five_readings:
  assumes "5 \<le> length xs"
  obtains a b c d e r where "xs = a # b # c # d # e # r"
proof -
  have "Suc (Suc (Suc (Suc (Suc 0)))) \<le> length xs" using assms by simp
  then show ?thesis using that by (auto simp only: Suc_le_length_iff)
qed

definition command_frame :: "nat \<times> bytes \<Rightarrow> bytes" where
  "command_frame = (\<lambda>(command, body). pack_header 0x0A01 command (length body) 0 @ body)"

definition unanswered :: "nat list \<Rightarrow> nat \<times> bytes \<Rightarrow> bool" where
  "unanswered ids = (\<lambda>(command, body). command < 65536 \<and> length body < 65536 \<and>
     (command \<in> set ids \<longrightarrow> parse_result body = Inr None))"

context channel_transport
begin

lemma response_buffered:
  assumes "list_all (unanswered ids) fs" "command \<in> set ids" "command < 65536" "length body < 65536"
    and "parse_result body = Inr (Some r)"
    and "usable s" "5 * length fs + 5 \<le> length (tr_script T s)" "list_all (\<lambda>x. x < deadline) (tr_script T s)"
    and "buffered 0 s = concat (map command_frame fs) @ command_frame (command, body) @ rest"
    and "length fs < n"
  shows "\<exists>t. loop n (response_round T ids deadline) () s = (Ret (Some (command, r)), t) \<and>
    buffered 0 t = rest \<and> usable t"
  using assms
proof (induction fs arbitrary: s n)
  case Nil
  then have "5 \<le> length (tr_script T s)" by simp
  then obtain x0 x1 x2 x3 x4 xs where xs: "tr_script T s = x0 # x1 # x2 # x3 # x4 # xs"
    by (rule five_readings)
  obtain m where n: "n = Suc m" using Nil.prems(10) by (cases n) auto
  have s1: "usable (tick s)" "tr_script T (tick s) = x1 # x2 # x3 # x4 # xs"
    "buffered 0 (tick s) = pack_header 0x0A01 command (length body) 0 @ body @ rest"
    using Nil.prems xs by (simp_all add: tick_script command_frame_def)
  obtain t where t: "read_command T (deadline - x0) (tick s) = (Ret (command, body), t)"
    "buffered 0 t = rest" "usable t" "tr_script T t = xs"
    using command_buffered [OF s1(1,2) Nil.prems(3,4) s1(3)] by blast
  have "response_round T ids deadline () s = (Ret (Inr (Some (command, r))), t)"
    using Nil.prems(2,5,8) xs t(1)
    by (simp add: response_round_def bind_def clock_Cons catch_def lift_sum_def)
  with t n show ?case by (simp add: bind_def)
next
  case (Cons f fs)
  obtain c b where f: "f = (c, b)" by (cases f)
  from Cons.prems(7) have "5 \<le> length (tr_script T s)" by simp
  then obtain x0 x1 x2 x3 x4 xs where xs: "tr_script T s = x0 # x1 # x2 # x3 # x4 # xs"
    by (rule five_readings)
  obtain m where n: "n = Suc m" "length fs < m" using Cons.prems(10) by (cases n) auto
  let ?more = "concat (map command_frame fs) @ command_frame (command, body) @ rest"
  have s1: "usable (tick s)" "tr_script T (tick s) = x1 # x2 # x3 # x4 # xs"
    "buffered 0 (tick s) = pack_header 0x0A01 c (length b) 0 @ b @ ?more"
    using Cons.prems xs f by (simp_all add: tick_script command_frame_def)
  have c: "c < 65536" "length b < 65536" "c \<in> set ids \<Longrightarrow> parse_result b = Inr None"
    using Cons.prems(1) f by (auto simp: unanswered_def)
  obtain t where t: "read_command T (deadline - x0) (tick s) = (Ret (c, b), t)"
    "buffered 0 t = ?more" "usable t" "tr_script T t = xs"
    using command_buffered [OF s1(1,2) c(1,2) s1(3)] by blast
  have "response_round T ids deadline () s = (Ret (Inl ()), t)"
    using Cons.prems(8) c(3) xs t(1)
    by (cases "c \<in> set ids")
       (simp_all add: response_round_def bind_def clock_Cons catch_def lift_sum_def)
  then have "loop n (response_round T ids deadline) () s = loop m (response_round T ids deadline) () t"
    by (simp add: n(1) bind_def)
  moreover have "list_all (\<lambda>x. x < deadline) (tr_script T t)" "5 * length fs + 5 \<le> length (tr_script T t)"
    using Cons.prems(7,8) xs t(4) by simp_all
  ultimately show ?case
    using Cons.IH [of t m] Cons.prems(1-5) t(2-4) n(2) xs by auto
qed

lemma answer_buffered:
  assumes "list_all (unanswered ids) fs" "command \<in> set ids" "command < 65536" "length body < 65536"
    and "parse_result body = Inr (Some r)"
    and "usable s" "5 * length fs + 5 \<le> length (tr_script T s)" "list_all (\<lambda>x. x < deadline) (tr_script T s)"
    and "buffered 0 s = concat (map command_frame fs) @ command_frame (command, body) @ rest"
  shows "\<exists>t. read_response T ids deadline s = (Ret (Some (command, r)), t) \<and> buffered 0 t = rest"
  using response_buffered [OF assms, of "Suc (length (tr_script T s))"] assms(7)
  by (auto simp: read_response_def bind_gets simp del: loop.simps)

end

lemma read_exact_run:
  assumes "connected s" "0 \<le> channel" "channel < int (length (channel_buffers s))" "0 \<le> amount"
    "amount \<le> int MAX_FRAME_BYTES" "ticks s = start # ts"
  shows "read_exact channel amount timeout s =
    seq (loop (Suc (length ts)) (await_bytes (nat channel) (nat amount) (start + timeout)) ())
    (bind (gets (\<lambda>s. channel_buffers s ! nat channel)) (\<lambda>buffer.
     seq (modify (\<lambda>s. s\<lparr>channel_buffers := (channel_buffers s)[nat channel := drop (nat amount) buffer]\<rparr>))
     (ret (take (nat amount) buffer)))) (s\<lparr>ticks := ts\<rparr>)"
proof -
  have "require_connected s = (Ret (), s)"
    using assms(1) by (simp add: require_connected_def bind_gets)
  then have "seq require_connected m s = m s" for m :: "(cs2, bytes) eff"
    by (simp add: seq_def bind_def)
  then show ?thesis
    using assms(2-6)
    by (simp add: read_exact_def bind_gets bind_apply [of monotonic] monotonic_def del: loop.simps)
qed

lemma read_exact_refused:
  assumes "\<not> (connected s \<and> 0 \<le> channel \<and> channel < int (length (channel_buffers s)) \<and> 0 \<le> amount \<and>
      amount \<le> int MAX_FRAME_BYTES) \<or> ticks s = []"
  shows "snd (read_exact channel amount timeout s) = s"
proof -
  have "require_connected s = (if connected s then (Ret (), s)
      else (Raise (CS2Error ''native P2P session is not connected''), s))"
    by (simp add: require_connected_def bind_gets)
  then have "seq require_connected m s = (if connected s then m s
      else (Raise (CS2Error ''native P2P session is not connected''), s))" for m :: "(cs2, bytes) eff"
    by (simp add: seq_def bind_def)
  then show ?thesis
    using assms
    by (auto simp: read_exact_def bind_gets bind_apply [of monotonic] monotonic_def)
qed

lemma read_fails_grows:
  assumes "read_exact channel amount timeout s = (Raise e, t)"
  shows "grows s t"
proof (cases "\<not> (connected s \<and> 0 \<le> channel \<and> channel < int (length (channel_buffers s)) \<and> 0 \<le> amount \<and>
      amount \<le> int MAX_FRAME_BYTES) \<or> ticks s = []")
  case True
  from read_exact_refused [OF this, of timeout] assms show ?thesis
    by (simp add: grows.R_refl)
next
  case False
  then obtain start ts where g: "connected s" "0 \<le> channel" "channel < int (length (channel_buffers s))"
    "0 \<le> amount" "amount \<le> int MAX_FRAME_BYTES" "ticks s = start # ts"
    by (cases "ticks s") auto
  obtain r u where u: "loop (Suc (length ts)) (await_bytes (nat channel) (nat amount) (start + timeout)) ()
      (s\<lparr>ticks := ts\<rparr>) = (r, u)"
    by fastforce
  have "grows s (s\<lparr>ticks := ts\<rparr>)"
    using steps_byD [OF grows_monotonic, of s "Ret start" "s\<lparr>ticks := ts\<rparr>"] g(6)
    by (simp add: monotonic_def)
  moreover have "grows (s\<lparr>ticks := ts\<rparr>) u"
    by (rule steps_byD [OF grows.loop_step [OF grows_await_bytes] u])
  moreover have "t = u"
    using assms u read_exact_run [OF g, of timeout]
    by (cases r) (simp_all add: seq_def bind_def del: loop.simps)
  ultimately show ?thesis using grows.R_trans by blast
qed

lemma read_buffered_now:
  assumes "connected s" "length (channel_buffers s) = 8" "ticks s = x # xs" "ch < 8"
    and "n \<le> length (channel_buffers s ! ch)" "n \<le> MAX_FRAME_BYTES"
  shows "read_exact (int ch) (int n) timeout s = (Ret (take n (channel_buffers s ! ch)),
    s\<lparr>ticks := xs, channel_buffers := (channel_buffers s)[ch := drop n (channel_buffers s ! ch)]\<rparr>)"
  using assms
  by (simp add: read_exact_def require_connected_def connected_def seq_def bind_def monotonic_def
      await_bytes_def)

interpretation session_channel: channel_transport cs2_transport "\<lambda>ch s. channel_buffers s ! ch"
  "\<lambda>s. connected s \<and> length (channel_buffers s) = 8" "\<lambda>s. s\<lparr>ticks := tl (ticks s)\<rparr>"
proof
  show "int (length b) = n \<and> (\<exists>arrived. channel_buffers s ! ch @ arrived = b @ channel_buffers t ! ch)"
    if "tr_read cs2_transport (int ch) n timeout s = (Ret b, t)" for ch n timeout s b t
    using read_takes_stream [of "int ch" n timeout s b t] that by (simp add: cs2_transport_def)
  show "prefix (channel_buffers s ! ch) (channel_buffers t ! ch)"
    if "tr_read cs2_transport (int ch) n timeout s = (Raise e, t)"
      "connected s \<and> length (channel_buffers s) = 8" "ch < 8" for ch n timeout s e t
    using that read_fails_grows [of "int ch" n timeout s e t]
    by (simp add: cs2_transport_def grows_def list_all2_conv_all_nth)
  show "\<exists>t. tr_read cs2_transport (int ch) (int n) timeout s = (Ret (take n (channel_buffers s ! ch)), t) \<and>
      channel_buffers t ! ch = drop n (channel_buffers s ! ch) \<and>
      (connected t \<and> length (channel_buffers t) = 8) \<and> tr_script cs2_transport t = xs"
    if "connected s \<and> length (channel_buffers s) = 8" "tr_script cs2_transport s = x # xs" "ch < 8"
      "n \<le> length (channel_buffers s ! ch)" "n \<le> MAX_FRAME_BYTES" for s x xs ch n timeout
    using that read_buffered_now [of s x xs ch n timeout]
    by (simp add: cs2_transport_def connected_def)
qed (auto simp: cs2_transport_def monotonic_def connected_def count_kind_tally split: list.split)

text \<open>C21: A response reader claims the first buffered frame that carries one of the wanted command
  identifiers and a result, returns exactly that identifier and result, skips the frames before it
  and leaves everything after it in the channel: no response is left to be misattributed to a later
  command.\<close>

theorem response_claimed:
  assumes "list_all (unanswered ids) fs" and "command \<in> set ids" and "command < 65536"
    and "length body < 65536" and "parse_result body = Inr (Some r)"
    and "connected s" and "length (channel_buffers s) = 8"
    and "ticks s = now # readings" and "5 * length fs + 5 \<le> length readings"
    and "list_all (\<lambda>x. x < now + timeout) readings"
    and "channel_buffers s ! 0 = concat (map command_frame fs) @ command_frame (command, body) @ rest"
  shows "\<exists>t. read_command_result cs2_transport ids timeout s = (Ret (Some (command, r)), t) \<and>
    channel_buffers t ! 0 = rest"
proof -
  let ?s = "s\<lparr>ticks := readings\<rparr>"
  have "\<exists>t. read_response cs2_transport ids (now + timeout) ?s = (Ret (Some (command, r)), t) \<and>
      channel_buffers t ! 0 = rest"
    using assms
    by (intro session_channel.answer_buffered) (simp_all add: cs2_transport_def connected_def)
  then show ?thesis
    using assms(8)
    by (auto simp: read_command_result_def cs2_transport_def bind_apply [of monotonic] monotonic_def)
qed

text \<open>When reading a command times out, no byte of channel 0 has been consumed, so the reader may be
  called again; a header whose body does not arrive is a different, fatal error.\<close>

theorem command_timeout_resumable:
  assumes "read_command cs2_transport timeout s = (Raise e, t)" and "is_timeout e"
    and "connected s" and "length (channel_buffers s) = 8"
  shows "prefix (channel_buffers s ! 0) (channel_buffers t ! 0)"
  using assms by (intro session_channel.command_timeout) simp_all

text \<open>A video frame is returned only when channel 1 delivered a 32-byte header with the frame mark and
  then exactly as many bytes as the header declares, between one byte and eight mebibytes; nothing
  else is taken from the channel.\<close>

theorem video_frame_framed:
  assumes "read_video_frame cs2_transport timeout s = (Ret (frame, flag), t)"
  shows "\<exists>header arrived. length header = 32 \<and> take 4 header = [0x55, 0xaa, 0x15, 0xa8] \<and>
    le_nat (pyslice 16 20 header) = length frame \<and> flag = header ! 4 \<and>
    0 < length frame \<and> length frame \<le> 8388608 \<and>
    channel_buffers s ! 1 @ arrived = header @ frame @ channel_buffers t ! 1"
  using session_channel.frame_taken [OF assms] by simp

definition frame_session :: cs2 where
  "frame_session = test_session\<lparr>ticks := [0, 0], channel_buffers := (channel_buffers test_session)[1 :=
     [0x55, 0xaa, 0x15, 0xa8, 1] @ replicate 11 0 @ [3, 0, 0, 0] @ replicate 12 0 @ [7, 8, 9, 10]]\<rparr>"

theorem video_frame_framed_witness:
  "\<exists>t. read_video_frame cs2_transport 5 frame_session = (Ret ([7, 8, 9], 1), t) \<and>
     channel_buffers t ! 1 = [10]"
proof -
  let ?hdr = "[0x55, 0xaa, 0x15, 0xa8, 1] @ replicate 11 0 @ [3, 0, 0, 0] @ replicate 12 (0 :: byte)"
  obtain t where t: "read_video_frame cs2_transport 5 frame_session = (Ret ([7, 8, 9], 1), t)"
    "channel_buffers t ! 1 = [10]"
    using read_buffered_now [of frame_session 0 "[0]" 1 32 5]
      read_buffered_now [of "frame_session\<lparr>ticks := [0], channel_buffers :=
        (channel_buffers frame_session)[1 := [7, 8, 9, 10]]\<rparr>" 0 "[]" 1 3 5]
    by (simp add: read_video_frame_def cs2_transport_def bind_def connected_def frame_session_def
        test_session_def pyslice_def)
  from video_frame_framed [OF t(1)] t show ?thesis by blast
qed

section \<open>Framing of requests\<close>

text \<open>A CGI request that is built at all is a well-formed camera command: its header declares the exact
  length of its text, the text decodes to the path and the credentials in the official order, and it
  holds no control character, so neither path nor credentials can break out of the request line.
  \<open>write_command\<close> therefore never rejects it.\<close>

theorem request_framed:
  assumes "make_cgi_request path user password = Inr r"
  shows "unpack_header (take 8 r) = (0x0A01, 0, length r - 8, 0) \<and> 8 \<le> length r \<and>
    decode_ascii (drop 8 r) = Inr (request_text path user password) \<and>
    list_all (\<lambda>b. 0x20 \<le> unat b \<and> unat b < 128) (drop 8 r) \<and>
    write_command T r = tr_write T 0 r 5"
proof -
  let ?t = "request_text path user password"
  from assms have ok: "\<not> has_control path" "\<not> has_control user" "\<not> has_control password" "ascii_str ?t"
    "length ?t \<le> 65535" "r = pack_header 0x0A01 0 (length ?t) 0 @ map of_nat ?t"
    by (auto simp: make_cgi_request_def encode_ascii_def split: if_splits)
  have "\<not> has_control ?t"
    using ok(1-3) by (simp add: request_text_def has_control_def str_def)
  then have low: "list_all (\<lambda>c. 0x20 \<le> c \<and> c < 128) ?t"
    using ok(4) by (simp add: has_control_def ascii_str_def list_all_iff list_ex_iff not_less)
  have hdr: "length (pack_header 0x0A01 0 (length ?t) 0) = 8"
    "unpack_header (pack_header 0x0A01 0 (length ?t) 0) = (0x0A01, 0, length ?t, 0)"
    using ok(5) by (simp_all add: unpack_pack_header)
  have "decode_ascii (map of_nat ?t) = Inr ?t"
    using ok(4) decode_encode_ascii [of ?t] by (simp add: encode_ascii_def)
  moreover have "list_all (\<lambda>b. 0x20 \<le> unat b \<and> unat b < 128) (map (of_nat :: nat \<Rightarrow> byte) ?t)"
    using low by (auto simp: list_all_iff unat_of_nat_small)
  ultimately show ?thesis
    using hdr ok(6) by (simp add: write_command_def)
qed

theorem request_framed_witness:
  "\<exists>r. make_cgi_request (str ''get_status.cgi?name=admin&'') (str ''admin'') (str ''secret'') = Inr r \<and>
     decode_ascii (drop 8 r) = Inr (str ''GET /get_status.cgi?name=admin&loginuse=admin&loginpas=secret&user=admin&pwd=888888&'')"
proof -
  obtain r where r: "make_cgi_request (str ''get_status.cgi?name=admin&'') (str ''admin'') (str ''secret'') = Inr r"
    by (simp add: make_cgi_request_def has_control_def encode_ascii_def ascii_str_def request_text_def str_def)
  have "request_text (str ''get_status.cgi?name=admin&'') (str ''admin'') (str ''secret'') =
      str ''GET /get_status.cgi?name=admin&loginuse=admin&loginpas=secret&user=admin&pwd=888888&''"
    by (simp add: request_text_def str_def)
  with request_framed [OF r, of cs2_transport] r show ?thesis by simp
qed

section \<open>The result parser\<close>

lemma length_result: "length (bstr ''result'') = 6"
  by (simp add: bstr_def)

text \<open>The result parser reads back a printed result: blanks before the equals sign, blanks and quotes
  after it and an optional minus sign do not matter, and what precedes or follows does not either, as
  long as this is the first occurrence of the word in the payload.\<close>

theorem result_read_back:
  assumes "find_sub (bstr ''result'') payload = Some marker"
    and "drop (marker + 6) payload = gap @ [0x3d] @ quotes @ sign @ map of_nat (show_nat n) @ after"
    and "list_all blank gap" and "list_all blank_or_quote quotes" and "sign \<in> {[], [0x2d]}"
    and "after = [] \<or> \<not> digit_byte (hd after)" and "length (show_nat n) \<le> 4300"
  shows "parse_result payload = Inr (Some (if sign = [] then int n else - int n))"
proof -
  let ?ds = "map (of_nat :: nat \<Rightarrow> byte) (show_nat n)"
  have digits: "\<forall>d \<in> set ?ds. digit_byte d"
  proof
    fix d assume "d \<in> set ?ds"
    then obtain c where c: "c \<in> set (show_nat n)" "d = of_nat c" by auto
    then have "48 \<le> c" "c < 58" using show_nat_digits by blast+
    with c(2) show "digit_byte d"
      by (simp add: digit_byte_def word_le_nat_alt unat_of_nat)
  qed
  have tw: "takeWhile digit_byte (?ds @ after) = ?ds"
    using digits assms(6) by (cases after) (simp_all add: takeWhile_append)
  have val: "int_of_bytes ?ds = Inr (int n)"
  proof -
    have "map (\<lambda>d. unat d - 0x30) ?ds = map (\<lambda>c. c - 48) (show_nat n)"
      by (auto dest!: show_nat_digits simp: unat_of_nat)
    then have "dec_value (map (\<lambda>d. unat d - 0x30) ?ds) = n"
      by (simp only: dec_value_show_nat)
    then show ?thesis using assms(7) by (simp add: int_of_bytes_def del: map_map)
  qed
  have hd: "\<not> blank_or_quote (hd (?ds @ after))" "hd (?ds @ after) \<noteq> 0x2d" "?ds @ after \<noteq> []"
  proof -
    have ne: "show_nat n \<noteq> []" by simp
    then have "digit_byte (hd (?ds @ after))" using digits by (simp add: hd_map) 
    then show "\<not> blank_or_quote (hd (?ds @ after))" "hd (?ds @ after) \<noteq> 0x2d"
      by (auto simp: digit_byte_def blank_or_quote_def blank_def)
    show "?ds @ after \<noteq> []" using ne by simp
  qed
  have g: "dropWhile blank (gap @ 0x3d # r) = 0x3d # r" for r
    using assms(3) by (simp add: list_all_iff dropWhile_append2 blank_def)
  have q: "dropWhile blank_or_quote (quotes @ r) = r" if "r \<noteq> []" "\<not> blank_or_quote (hd r)" for r
    using assms(4) that by (cases r) (simp_all add: list_all_iff dropWhile_append2)
  have "dropWhile blank_or_quote (quotes @ sign @ ?ds @ after) = sign @ ?ds @ after"
    using assms(5) hd by (intro q) (auto simp: blank_or_quote_def blank_def)
  then have "result_at (drop (marker + 6) payload) = Inr (Some (if sign = [] then int n else - int n))"
    using assms(5) tw val hd g by (auto simp: result_at_def assms(2) Let_def)
  moreover have "find_from (bstr ''result'') payload 0 = Some marker"
    using assms(1) by (simp add: find_from_def map_option.id)
  ultimately show ?thesis
    by (simp add: parse_result_def parse_from.simps [of payload 0] length_result)
qed

theorem result_read_back_witness:
  "parse_result (bstr ''<result = '' @ [0x22] @ bstr ''-1>'') = Inr (Some (- int 1))"
  using result_read_back [of "bstr ''<result = '' @ [0x22] @ bstr ''-1>''" 1 "[0x20]" "[0x20, 0x22]" "[0x2d]" 1
      "bstr ''>''"]
  by (simp add: bstr_def blank_def blank_or_quote_def digit_byte_def show_nat.simps map_option.compositionality)

text \<open>The parser only ever fails with the \<open>ValueError\<close> of \<open>int()\<close>, and only when the payload holds
  more than 4300 consecutive digits; the code lets that exception through.\<close>

theorem result_parser_errors:
  assumes "parse_result payload = Inl e"
  shows "e = ValueError \<and>
    (\<exists>i. 4300 < length (takeWhile digit_byte (drop i payload)))"
proof -
  have at: "e = ValueError \<and> (\<exists>i. 4300 < length (takeWhile digit_byte (drop i after)))"
    if r: "result_at after = Inl e" for after e
  proof -
    define r1 where "r1 = dropWhile blank after"
    define r2 where "r2 = dropWhile blank_or_quote (tl r1)"
    define r3 where "r3 = (if r2 \<noteq> [] \<and> hd r2 = 0x2d then tl r2 else r2)"
    have suf: "\<exists>i. dropWhile P xs = drop i xs" for P and xs :: bytes
      by (metis dropWhile_eq_drop)
    have "\<exists>i. r3 = drop i after"
    proof -
      obtain i where i: "r1 = drop i after" using suf r1_def by metis
      obtain j where j: "r2 = drop j (tl r1)" using suf r2_def by metis
      have "tl xs = drop 1 xs" for xs :: bytes by (cases xs) auto
      with i j show ?thesis by (auto simp: r3_def intro: exI)
    qed
    moreover have "e = ValueError \<and> 4300 < length (takeWhile digit_byte r3)"
      using r by (auto simp: result_at_def Let_def r1_def r2_def r3_def int_of_bytes_def sbind_eq_Inl
          split: if_splits)
    ultimately show ?thesis by auto
  qed
  have "e = ValueError \<and> (\<exists>i. 4300 < length (takeWhile digit_byte (drop i payload)))"
    if "parse_from payload start = Inl e" for start
    using that
  proof (induction payload start rule: parse_from.induct)
    case (1 payload start)
    from "1.prems" obtain marker where m: "find_from (bstr ''result'') payload start = Some marker"
      by (auto simp: parse_from.simps [of payload start] split: option.splits)
    show ?case
    proof (cases "result_at (drop (marker + length (bstr ''result'')) payload)")
      case (Inl e')
      with "1.prems" m have "e' = e" by (simp add: parse_from.simps [of payload start])
      with at [OF Inl] show ?thesis by (auto simp: drop_drop)
    next
      case (Inr v)
      with "1.prems" m have v: "v = None" by (cases v) (simp_all add: parse_from.simps [of payload start])
      with "1.prems" m Inr have "parse_from payload (marker + 1) = Inl e"
        by (simp add: parse_from.simps [of payload start])
      with "1.IH" [OF m] Inr v show ?thesis by simp
    qed
  qed
  then show ?thesis using assms by (simp add: parse_result_def)
qed

lemma result_too_long: "parse_result (bstr ''result='' @ replicate 4301 0x30) = Inl ValueError"
proof -
  let ?p = "bstr ''result='' @ replicate 4301 (0x30 :: byte)"
  have "result_at (0x3d # replicate 4301 0x30) = Inl ValueError"
  proof -
    have "dropWhile blank_or_quote (replicate 4301 (0x30 :: byte)) = replicate 4301 0x30"
      by (simp add: dropWhile_eq_self_iff blank_or_quote_def blank_def del: replicate_numeral_Cons)
    moreover have "takeWhile digit_byte (replicate 4301 (0x30 :: byte)) = replicate 4301 0x30"
      by (simp add: takeWhile_replicate digit_byte_def del: replicate_numeral_Cons)
    moreover have "hd (replicate 4301 (0x30 :: byte)) \<noteq> 0x2d"
      by (simp del: replicate_numeral_Cons)
    ultimately show ?thesis
      by (simp add: result_at_def blank_def int_of_bytes_def Let_def del: replicate_numeral_Cons)
  qed
  moreover have "find_from (bstr ''result'') ?p 0 = Some 0"
    by (simp add: find_from_def bstr_def del: replicate_numeral_Cons)
  moreover have "drop 6 ?p = 0x3d # replicate 4301 0x30"
    by (simp add: bstr_def del: replicate_numeral_Cons)
  ultimately show ?thesis
    by (simp add: parse_result_def parse_from.simps [of ?p 0] length_result del: replicate_numeral_Cons)
qed

theorem result_parser_errors_witness:
  "parse_result (bstr ''result='' @ replicate 4301 0x30) = Inl ValueError \<and>
   (\<exists>i. 4300 < length (takeWhile digit_byte (drop i (bstr ''result='' @ replicate 4301 0x30))))"
  using result_too_long result_parser_errors [OF result_too_long] by blast

lemma parse_zero: "parse_result (bstr ''result=0'') = Inr (Some 0)"
  unfolding parse_result_def
  by (subst parse_from.simps)
     (simp add: find_from_def bstr_def result_at_def blank_def blank_or_quote_def digit_byte_def
       int_of_bytes_def dec_value_def Let_def)

lemma parse_none: "parse_result (bstr ''hello'') = Inr None"
  unfolding parse_result_def
  by (subst parse_from.simps) (simp add: find_from_def bstr_def)

lemma length_bstr [simp]: "length (bstr s) = length s"
  by (simp add: bstr_def)

theorem response_claimed_witness:
  "\<exists>t. read_command_result cs2_transport [0x6001] 5 (test_session\<lparr>ticks := replicate 11 0,
      channel_buffers := (channel_buffers test_session)[0 := command_frame (0x6001, bstr ''hello'') @
        command_frame (0x6001, bstr ''result=0'') @ [1, 2]]\<rparr>) = (Ret (Some (0x6001, 0)), t) \<and>
    channel_buffers t ! 0 = [1, 2]"
  by (rule response_claimed [of "[0x6001]" "[(0x6001, bstr ''hello'')]" _ "bstr ''result=0''" _ _ 0
        "replicate 10 0"])
     (simp_all add: unanswered_def parse_zero parse_none connected_def test_session_def)

theorem command_timeout_resumable_witness:
  "\<exists>t. read_command cs2_transport 0 (test_session\<lparr>ticks := [0, 0, 0]\<rparr>) =
      (Raise (CS2Timeout ''camera channel read timed out''), t) \<and>
     prefix (channel_buffers test_session ! 0) (channel_buffers t ! 0)"
proof -
  let ?s = "test_session\<lparr>ticks := [0, 0, 0]\<rparr>"
  obtain t where t: "read_command cs2_transport 0 ?s = (Raise (CS2Timeout ''camera channel read timed out''), t)"
    using read_exact_run [of "?s\<lparr>ticks := [0, 0]\<rparr>" 0 8 0 "[0]" 0]
    by (simp add: read_command_def cs2_transport_def bind_apply [of monotonic] monotonic_def
        bind_apply [of "read_exact _ _ _"] connected_def test_session_def await_bytes_def seq_def bind_def)
  have "prefix (channel_buffers ?s ! 0) (channel_buffers t ! 0)"
    by (rule command_timeout_resumable [OF t]) (simp_all add: connected_def test_session_def)
  with t show ?thesis by auto
qed

section \<open>Logging in: outcomes\<close>

lemma login_candidates_cases:
  "login_candidates pw =
     (if pw = str ''888888'' then [(str ''admin'', pw), (str ''admin'', [])]
      else if pw = [] then [(str ''admin'', pw), (str ''admin'', str ''888888'')]
      else [(str ''admin'', pw), (str ''admin'', str ''888888''), (str ''admin'', [])])"
  by (simp add: login_candidates_def set_add_def str_def)

lemma if_raise_Ret: "(if b then raise e else m) s = (Ret y, t) \<longleftrightarrow> \<not> b \<and> m s = (Ret y, t)"
  by simp

lemma try_candidates_Ret:
  assumes "try_candidates T (enumerate (length attempts) cs) deadline attempts s = (Ret l, t)"
    and "Some 0 \<notin> set attempts"
  shows "\<exists>i < length cs. login_candidate l = length attempts + i \<and>
    (login_user l, login_password l) = cs ! i \<and> login_result l = 0 \<and>
    length (login_attempts l) = length attempts + Suc i \<and> last (login_attempts l) = Some 0 \<and>
    Some 0 \<notin> set (butlast (login_attempts l))"
  using assms
proof (induction cs arbitrary: attempts s)
  case (Cons c cs)
  obtain user password where c: "c = (user, password)" by (cases c)
  from Cons.prems(1) c obtain answer :: "(nat \<times> int) option" and v where step:
    "(if map_option snd answer = Some 0
      then ret \<lparr>login_user = user, login_password = password, login_result = 0,
                login_candidate = length attempts, login_attempts = attempts @ [map_option snd answer]\<rparr>
      else try_candidates T (enumerate (Suc (length attempts)) cs) deadline
             (attempts @ [map_option snd answer])) v = (Ret l, t)"
    by (simp only: try_candidates.simps enumerate_simps prod.case Let_def bind_eq_Ret seq_eq_Ret if_raise_Ret)
       blast
  then consider
      (found) "l = \<lparr>login_user = user, login_password = password,
        login_result = 0, login_candidate = length attempts, login_attempts = attempts @ [Some 0]\<rparr>"
    | (more) answer :: "(nat \<times> int) option" and v where "map_option snd answer \<noteq> Some 0"
        "try_candidates T (enumerate (length (attempts @ [map_option snd answer])) cs)
        deadline (attempts @ [map_option snd answer]) v = (Ret l, t)"
    by (cases "map_option snd answer = Some 0") simp_all
  then show ?case
  proof cases
    case found
    with Cons.prems(2) c show ?thesis by (intro exI [of _ 0]) simp
  next
    case more
    from Cons.IH [OF more(2)] Cons.prems(2) more(1) obtain i where
      "i < length cs \<and> login_candidate l = length (attempts @ [map_option snd answer]) + i \<and>
       (login_user l, login_password l) = cs ! i \<and> login_result l = 0 \<and>
       length (login_attempts l) = length (attempts @ [map_option snd answer]) + Suc i \<and>
       last (login_attempts l) = Some 0 \<and> Some 0 \<notin> set (butlast (login_attempts l))"
      by auto
    then show ?thesis by (intro exI [of _ "Suc i"]) simp
  qed
qed simp

text \<open>A login succeeds only on an answer of zero, and reports the candidate it was given to: its index,
  its user and password and one outcome per candidate tried, of which only the last is zero.\<close>

theorem login_reports_candidate:
  assumes "authenticate_camera T device_password timeout s = (Ret l, t)"
  shows "login_candidate l < length (login_candidates device_password) \<and>
    (login_user l, login_password l) = login_candidates device_password ! login_candidate l \<and>
    login_result l = 0 \<and> length (login_attempts l) = Suc (login_candidate l) \<and>
    last (login_attempts l) = Some 0 \<and> Some 0 \<notin> set (butlast (login_attempts l))"
proof -
  from assms obtain now u where
    "try_candidates T (enumerate (length ([] :: int option list)) (login_candidates device_password))
       (now + timeout) [] u = (Ret l, t)"
    by (auto simp: authenticate_camera_def bind_eq_Ret Let_def)
  from try_candidates_Ret [OF this] show ?thesis by auto
qed

section \<open>H.264 inspection\<close>

text \<open>The kinds of all NAL units of a payload: the bytes behind the three-byte start codes.\<close>

definition nal_kinds :: "bytes \<Rightarrow> byte list" where
  "nal_kinds payload =
     map (\<lambda>i. payload ! (i + 3) AND 0x1f)
       (filter (\<lambda>i. i + 3 < length payload \<and> occurs_at [0, 0, 1] payload i) [0..<length payload])"

definition coded :: "byte \<Rightarrow> bool" where
  "coded kind \<longleftrightarrow> 1 \<le> kind \<and> kind \<le> 12"

lemma pyslice_occurs: "length n = k \<Longrightarrow> pyslice i (i + k) p = n \<longleftrightarrow> occurs_at n p i"
  by (simp add: pyslice_def occurs_at_def)

lemma long_start_code:
  assumes "occurs_at [0, 0, 0, 1] p i"
  shows "occurs_at [0, 0, 1 :: byte] p (i + 1)" "\<not> occurs_at [0, 0, 1] p i"
proof -
  have "drop i p = [0, 0, 0, 1] @ drop (length [0, 0, 0, 1 :: byte]) (drop i p)"
    using assms append_take_drop_id [of "length [0, 0, 0, 1 :: byte]" "drop i p"]
    by (simp only: occurs_at_def)
  then obtain r where r: "drop i p = 0 # 0 # 0 # 1 # r" by auto
  then have "drop (Suc 0) (drop i p) = 0 # 0 # 1 # r" by simp
  then have "drop (i + 1) p = 0 # 0 # 1 # r" by simp
  then show "occurs_at [0, 0, 1 :: byte] p (i + 1)" by (simp add: occurs_at_def)
  show "\<not> occurs_at [0, 0, 1] p i" using r by (simp add: occurs_at_def)
qed

definition nal_kind_at :: "bytes \<Rightarrow> nat \<Rightarrow> byte option" where
  "nal_kind_at p i =
     (if occurs_at [0, 0, 1] p i \<and> i + 3 < length p then Some (p ! (i + 3) AND 0x1f)
      else if occurs_at [0, 0, 0, 1] p i \<and> i + 4 < length p then Some (p ! (i + 4) AND 0x1f)
      else None)"

lemma inspect_step_kind:
  "inspect_step p (valid, keyframe) i =
     (case nal_kind_at p i of
        None \<Rightarrow> (valid, keyframe)
      | Some kind \<Rightarrow>
          if coded kind then (True, keyframe \<or> kind = 5 \<or> kind = 7) else (valid, keyframe))"
proof -
  have codes: "pyslice i (i + 3) p = [0, 0, 1] \<longleftrightarrow> occurs_at [0, 0, 1] p i"
    "pyslice i (i + 4) p = [0, 0, 0, 1] \<longleftrightarrow> occurs_at [0, 0, 0, 1] p i"
    by (simp_all add: pyslice_occurs)
  show ?thesis
    using long_start_code(2) [of p i]
    by (cases "occurs_at [0, 0, 1] p i"; cases "occurs_at [0, 0, 0, 1] p i")
       (simp_all add: inspect_step_def nal_kind_at_def codes coded_def Let_def)
qed

lemma inspect_fold:
  "foldl (inspect_step p) (False, False) [0..<n] =
     ((\<exists>i < n. \<exists>kind. nal_kind_at p i = Some kind \<and> coded kind),
      (\<exists>i < n. \<exists>kind. nal_kind_at p i = Some kind \<and> (kind = 5 \<or> kind = 7)))"
proof (induction n)
  case (Suc n)
  have "coded kind" if "kind = 5 \<or> kind = 7" for kind
    using that by (auto simp: coded_def)
  with Suc show ?case
    by (auto simp: inspect_step_kind less_Suc_eq split: option.split)
qed simp

lemma nal_kinds_iff: "kind \<in> set (nal_kinds p) \<longleftrightarrow> (\<exists>i < length p. nal_kind_at p i = Some kind)"
proof
  assume "kind \<in> set (nal_kinds p)"
  then obtain i where "i + 3 < length p" "occurs_at [0, 0, 1] p i" "kind = p ! (i + 3) AND 0x1f"
    by (auto simp: nal_kinds_def)
  then show "\<exists>i < length p. nal_kind_at p i = Some kind"
    by (intro exI [of _ i]) (simp add: nal_kind_at_def)
next
  assume "\<exists>i < length p. nal_kind_at p i = Some kind"
  then obtain i where i: "nal_kind_at p i = Some kind" by blast
  then consider "i + 3 < length p" "occurs_at [0, 0, 1] p i" "kind = p ! (i + 3) AND 0x1f"
    | "i + 4 < length p" "occurs_at [0, 0, 1] p (i + 1)" "kind = p ! (i + 4) AND 0x1f"
    by (auto simp: nal_kind_at_def dest: long_start_code(1) split: if_splits)
  then show "kind \<in> set (nal_kinds p)"
  proof cases
    case 1
    then show ?thesis by (auto simp: nal_kinds_def intro!: image_eqI [of _ _ i])
  next
    case 2
    then have "kind = p ! (i + 1 + 3) AND 0x1f" "i + 1 + 3 < length p" by (simp_all add: add.commute)
    with 2 show ?thesis by (auto simp: nal_kinds_def intro!: image_eqI [of _ _ "i + 1"])
  qed
qed

text \<open>The single pass over a payload finds exactly the NAL units behind start codes: the payload counts
  as video when one of them has a coded kind, from 1 to 12, and as a key frame when one is an IDR
  slice or a sequence parameter set; the four-byte start code adds nothing to the three-byte one.\<close>

theorem inspect_finds_nal_units:
  "inspect_h264 payload =
     (list_ex coded (nal_kinds payload), list_ex (\<lambda>kind. kind = 5 \<or> kind = 7) (nal_kinds payload))"
proof -
  have "(\<exists>i < length payload. \<exists>kind. nal_kind_at payload i = Some kind \<and> P kind) \<longleftrightarrow>
      (\<exists>kind \<in> set (nal_kinds payload). P kind)" for P
    unfolding Bex_def nal_kinds_iff by blast
  then show ?thesis
    unfolding inspect_h264_def inspect_fold list_ex_iff by simp
qed

section \<open>The scripted session of the unit tests\<close>

text \<open>
  \<open>ScriptedSession\<close> of \<open>src/tests/test_cs2.py\<close>: a session that answers each write with the next
  queued response and times out at once when its buffer is short.
\<close>

record scripted =
  responses :: "(nat \<times> bytes) option list"
  script_buffer :: bytes
  script_writes :: "bytes list"
  script_ticks :: "rat list"

definition scripted_write :: "int \<Rightarrow> bytes \<Rightarrow> rat \<Rightarrow> (scripted, unit) eff" where
  "scripted_write channel payload timeout s =
     (let s' = s\<lparr>script_writes := script_writes s @ [payload]\<rparr> in
      case responses s of
        [] \<Rightarrow> (Ret (), s')
      | None # rs \<Rightarrow> (Ret (), s'\<lparr>responses := rs\<rparr>)
      | Some f # rs \<Rightarrow> (Ret (), s'\<lparr>responses := rs, script_buffer := script_buffer s @ command_frame f\<rparr>))"

definition scripted_read :: "int \<Rightarrow> int \<Rightarrow> rat \<Rightarrow> (scripted, bytes) eff" where
  "scripted_read channel amount timeout s =
     (if int (length (script_buffer s)) < amount
      then (Raise (CS2Timeout ''camera channel read timed out''), s)
      else (Ret (take (nat amount) (script_buffer s)), s\<lparr>script_buffer := drop (nat amount) (script_buffer s)\<rparr>))"

definition scripted_transport :: "scripted transport" where
  "scripted_transport = \<lparr>tr_write = scripted_write, tr_read = scripted_read,
     tr_count_kind = (\<lambda>_ _. ret ()),
     tr_monotonic = (\<lambda>s. case script_ticks s of [] \<Rightarrow> (Halt, s) | t # ts \<Rightarrow> (Ret t, s\<lparr>script_ticks := ts\<rparr>)),
     tr_script = script_ticks\<rparr>"

definition login_script :: scripted where
  "login_script = \<lparr>responses = [None, Some (0x6001, bstr ''result=0'')], script_buffer = [],
     script_writes = [], script_ticks = replicate 12 0\<rparr>"

lemma login_requests:
  "\<exists>r. make_cgi_request (str ''get_status.cgi?name=admin&'') (str ''admin'') (str ''device-secret'') = Inr r \<and> 8 \<le> length r"
  "\<exists>r. make_cgi_request (str ''get_status.cgi?name=admin&'') (str ''admin'') (str ''888888'') = Inr r \<and> 8 \<le> length r"
  by (simp_all add: make_cgi_request_def has_control_def encode_ascii_def ascii_str_def request_text_def
      str_def pack_header_def)

lemma scripted_login: "\<exists>t. authenticate_camera scripted_transport (str ''device-secret'') 45 login_script =
   (Ret \<lparr>login_user = str ''admin'', login_password = str ''888888'', login_result = 0, login_candidate = 1,
     login_attempts = [None, Some 0]\<rparr>, t)"
proof -
  obtain r0 r1 where r: "make_cgi_request (str ''get_status.cgi?name=admin&'') (str ''admin'') (str ''device-secret'') = Inr r0"
    "make_cgi_request (str ''get_status.cgi?name=admin&'') (str ''admin'') (str ''888888'') = Inr r1"
    "8 \<le> length r0" "8 \<le> length r1"
    using login_requests by blast
  have pw: "str ''device-secret'' \<noteq> str ''888888''" "str ''device-secret'' \<noteq> []" by (simp_all add: str_def)
  have frame: "command_frame (0x6001, bstr ''result=0'') = pack_header 0x0A01 0x6001 8 0 @ bstr ''result=0''"
  proof -
    have "length (bstr ''result=0'') = 8" by simp
    then show ?thesis by (simp only: command_frame_def prod.case)
  qed
  have h: "length (pack_header 0x0A01 0x6001 8 0) = 8"
    "unpack_header (pack_header 0x0A01 0x6001 8 0) = (0x0A01, 0x6001, 8, 0)"
    by (simp_all add: unpack_pack_header)
  show ?thesis
    by (simp add: authenticate_camera_def login_candidates_cases pw Let_def scripted_transport_def
        login_script_def bind_def seq_def catch_def lift_sum_def r write_command_def scripted_write_def
        read_response_def response_round_def read_command_def scripted_read_def frame h parse_zero
        not_less)
qed

theorem login_reports_candidate_witness:
  "\<exists>l t. authenticate_camera scripted_transport (str ''device-secret'') 45 login_script = (Ret l, t) \<and>
     (login_user l, login_password l) = login_candidates (str ''device-secret'') ! login_candidate l"
proof -
  obtain l t where l: "authenticate_camera scripted_transport (str ''device-secret'') 45 login_script = (Ret l, t)"
    using scripted_login by blast
  with login_reports_candidate [OF l] show ?thesis by blast
qed

end
