(* ===== verification/JSON.thy ===== *)
theory JSON
  imports PyText
begin

text \<open>
  JSON values as \<open>json.loads\<close> returns them, the decoder itself, and the compact rendering of
  \<open>json.dumps\<close> that the program uses (\<open>separators=(",", ":")\<close>, ASCII only), with the round trip.
  An object is an association list in insertion order whose keys are distinct. A float is kept as
  the text of its literal: the program never computes with one, it only tells it from an integer.
  The interpreter's recursion limit on nested values is not modelled.
\<close>

datatype json =
    JNull
  | JBool bool
  | JInt int
  | JFloat pystr
  | JStr pystr
  | JList "json list"
  | JObj "(pystr \<times> json) list"

text \<open>\<open>payload.get(name)\<close> of a dictionary; a missing key and \<open>null\<close> both give \<open>None\<close>.\<close>

definition json_get :: "(pystr \<times> json) list \<Rightarrow> string \<Rightarrow> json" where
  "json_get d name = dict_get d (str name) JNull"

text \<open>\<open>isinstance(v, bool)\<close>, \<open>isinstance(v, int)\<close> (a boolean is one) and an integer proper.\<close>

fun is_bool :: "json \<Rightarrow> bool" where
  "is_bool (JBool _) = True"
| "is_bool _ = False"

fun is_int :: "json \<Rightarrow> bool" where
  "is_int (JBool _) = True"
| "is_int (JInt _) = True"
| "is_int _ = False"

fun is_plain_int :: "json \<Rightarrow> bool" where
  "is_plain_int (JInt _) = True"
| "is_plain_int _ = False"

fun as_bool :: "json \<Rightarrow> bool" where
  "as_bool (JBool b) = b"
| "as_bool _ = False"

fun as_int :: "json \<Rightarrow> int" where
  "as_int (JInt n) = n"
| "as_int (JBool b) = of_bool b"
| "as_int _ = 0"

fun as_obj :: "json \<Rightarrow> (pystr \<times> json) list option" where
  "as_obj (JObj d) = Some d"
| "as_obj _ = None"

lemma json_get_update [simp]:
  "json_get (AList.update (str n) v d) n = v"
  "str m \<noteq> str n \<Longrightarrow> json_get (AList.update (str m) v d) n = json_get d n"
  by (simp_all add: json_get_def dict_get_def update_conv')

lemma str_inject [simp]: "str s = str t \<longleftrightarrow> s = t"
proof
  assume "str s = str t"
  then have "map (char_of :: nat \<Rightarrow> char) (str s) = map char_of (str t)" by simp
  then show "s = t" by (simp add: str_def comp_def)
qed simp

lemma json_get_Nil [simp]: "json_get [] n = JNull"
  by (simp add: json_get_def dict_get_def)

lemma json_get_Cons [simp]:
  "json_get ((str m, v) # d) n = (if m = n then v else json_get d n)"
  by (simp add: json_get_def dict_get_def)

section \<open>Rendering\<close>

definition show_int :: "int \<Rightarrow> pystr" where
  "show_int n = (if n < 0 then 45 # show_nat (nat (- n)) else show_nat (nat n))"

text \<open>The escapes of a string: named ones, \<open>uXXXX\<close>, and a surrogate pair above the basic plane.\<close>

definition hex4 :: "nat \<Rightarrow> pystr" where
  "hex4 n = str (hex_bytes (be_bytes 2 n))"

definition json_char :: "nat \<Rightarrow> pystr" where
  "json_char c =
     (if c = 34 \<or> c = 92 then [92, c]
      else if c = 10 then [92, 110]
      else if c = 13 then [92, 114]
      else if c = 9 then [92, 116]
      else if c = 12 then [92, 102]
      else if c = 8 then [92, 98]
      else if 32 \<le> c \<and> c < 127 then [c]
      else if c < 0x10000 then [92, 117] @ hex4 c
      else [92, 117] @ hex4 (0xD800 + (c - 0x10000) div 1024) @
           [92, 117] @ hex4 (0xDC00 + (c - 0x10000) mod 1024))"

definition json_string :: "pystr \<Rightarrow> pystr" where
  "json_string s = [34] @ concat (map json_char s) @ [34]"

fun join_comma :: "pystr list \<Rightarrow> pystr" where
  "join_comma [] = []"
| "join_comma [s] = s"
| "join_comma (s # t # ss) = s @ 44 # join_comma (t # ss)"

lemma hex_digit_ascii: "n < 16 \<Longrightarrow> 48 \<le> (of_char (hex_digit n) :: nat) \<and> (of_char (hex_digit n) :: nat) < 103"
  by (simp add: hex_digit_def nth_Cons split: nat.split)

lemma length_hex4 [simp]: "length (hex4 n) = 4"
  by (simp add: hex4_def hex_bytes_def be_bytes_def)

fun json_dumps :: "json \<Rightarrow> pystr" where
  "json_dumps JNull = str ''null''"
| "json_dumps (JBool b) = (if b then str ''true'' else str ''false'')"
| "json_dumps (JInt n) = show_int n"
| "json_dumps (JFloat f) = f"
| "json_dumps (JStr s) = json_string s"
| "json_dumps (JList js) = [91] @ join_comma (map json_dumps js) @ [93]"
| "json_dumps (JObj d) =
     [123] @ join_comma (map (\<lambda>kv. json_string (fst kv) @ 58 # json_dumps (snd kv)) d) @ [125]"

section \<open>The decoder\<close>

text \<open>\<open>json.loads\<close> of a text: the scanner of the standard library, one function per production.
  A scanner returns the value with the rest of the text.\<close>

definition json_space :: "nat \<Rightarrow> bool" where
  "json_space c \<longleftrightarrow> c = 32 \<or> c = 9 \<or> c = 10 \<or> c = 13"

definition skip_space :: "pystr \<Rightarrow> pystr" where
  "skip_space s = dropWhile json_space s"

definition hex_value :: "nat \<Rightarrow> nat option" where
  "hex_value c = (if digit_in 16 c then digit_value c else None)"

definition read_hex4 :: "pystr \<Rightarrow> (nat \<times> pystr) option" where
  "read_hex4 s = (case s of
      a # b # c # d # r \<Rightarrow>
        (case (hex_value a, hex_value b, hex_value c, hex_value d) of
           (Some w, Some x, Some y, Some z) \<Rightarrow> Some (((w * 16 + x) * 16 + y) * 16 + z, r)
         | _ \<Rightarrow> None)
    | _ \<Rightarrow> None)"

lemma read_hex4_shorter: "read_hex4 s = Some (n, r) \<Longrightarrow> length r < length s"
  by (auto simp: read_hex4_def split: list.splits option.splits)

definition escaped :: "nat \<Rightarrow> nat option" where
  "escaped c =
     (if c = 34 \<or> c = 92 \<or> c = 47 then Some c
      else if c = 98 then Some 8 else if c = 102 then Some 12 else if c = 110 then Some 10
      else if c = 114 then Some 13 else if c = 116 then Some 9 else None)"

text \<open>After \<open>u\<close>: a high surrogate followed by an escaped low one is joined with it.\<close>

definition read_unicode :: "pystr \<Rightarrow> (nat \<times> pystr) option" where
  "read_unicode s = (case read_hex4 s of
      None \<Rightarrow> None
    | Some (n, r) \<Rightarrow>
       (if 0xD800 \<le> n \<and> n < 0xDC00 \<and> take 2 r = [92, 117] then
          (case read_hex4 (drop 2 r) of
             None \<Rightarrow> None
           | Some (m, r') \<Rightarrow>
              (if 0xDC00 \<le> m \<and> m < 0xE000
               then Some (0x10000 + (n - 0xD800) * 1024 + (m - 0xDC00), r')
               else Some (n, r)))
        else Some (n, r)))"

lemma read_unicode_shorter: "read_unicode s = Some (n, r) \<Longrightarrow> length r < length s"
  by (auto simp: read_unicode_def dest!: read_hex4_shorter split: option.splits if_splits)

text \<open>The rest of a string after its opening quote.\<close>

function scan_string :: "pystr \<Rightarrow> (pystr \<times> pystr) option" where
  "scan_string [] = None"
| "scan_string (c # r) =
     (if c = 34 then Some ([], r)
      else if c < 32 then None
      else if c = 92 then
        (case r of
           [] \<Rightarrow> None
         | e # r' \<Rightarrow>
            (if e = 117 then
               (case read_unicode r' of
                  None \<Rightarrow> None
                | Some (n, r'') \<Rightarrow> map_option (apfst ((#) n)) (scan_string r''))
             else
               (case escaped e of
                  None \<Rightarrow> None
                | Some n \<Rightarrow> map_option (apfst ((#) n)) (scan_string r'))))
      else map_option (apfst ((#) c)) (scan_string r))"
  by pat_completeness auto
termination
  by (relation "measure length") (auto dest: read_unicode_shorter)

lemma scan_string_shorter: "scan_string s = Some (t, r) \<Longrightarrow> length r < length s"
proof (induction s arbitrary: t rule: scan_string.induct)
  case (2 c r')
  then show ?case
    by (fastforce dest: read_unicode_shorter split: if_splits list.splits option.splits)
qed simp

text \<open>A number: the integer part, then a fraction and an exponent when they are complete. An integer
  literal of more than 4300 digits raises \<open>ValueError\<close>, as \<open>int\<close> does.\<close>

definition int_part :: "pystr \<Rightarrow> (pystr \<times> pystr) option" where
  "int_part s =
     (if s = [] \<or> \<not> ascii_digit (hd s) then None
      else if hd s = 48 then Some ([48], tl s)
      else Some (takeWhile ascii_digit s, dropWhile ascii_digit s))"

definition frac_part :: "pystr \<Rightarrow> pystr \<times> pystr" where
  "frac_part s =
     (if s \<noteq> [] \<and> hd s = 46 \<and> takeWhile ascii_digit (tl s) \<noteq> []
      then (46 # takeWhile ascii_digit (tl s), dropWhile ascii_digit (tl s)) else ([], s))"

definition exp_part :: "pystr \<Rightarrow> pystr \<times> pystr" where
  "exp_part s =
     (if s \<noteq> [] \<and> (hd s = 101 \<or> hd s = 69) then
        (let r = tl s;
             sign = (if r \<noteq> [] \<and> (hd r = 43 \<or> hd r = 45) then [hd r] else []);
             t = drop (length sign) r in
         if takeWhile ascii_digit t \<noteq> []
         then (hd s # sign @ takeWhile ascii_digit t, dropWhile ascii_digit t) else ([], s))
      else ([], s))"

definition scan_number :: "pystr \<Rightarrow> exn + json \<times> pystr" where
  "scan_number s =
     (let neg = (s \<noteq> [] \<and> hd s = 45) in
      case int_part (if neg then tl s else s) of
        None \<Rightarrow> Inl JSONDecodeError
      | Some (ds, r) \<Rightarrow>
         (let (fr, r1) = frac_part r; (ex, r2) = exp_part r1 in
          if fr = [] \<and> ex = [] then
            (if 4300 < length ds then Inl ValueError
             else let n = int (dec_value (map (\<lambda>c. c - 48) ds)) in
               Inr (JInt (if neg then - n else n), r))
          else Inr (JFloat ((if neg then [45] else []) @ ds @ fr @ ex), r2)))"

definition starts_with :: "string \<Rightarrow> pystr \<Rightarrow> bool" where
  "starts_with w s \<longleftrightarrow> take (length w) s = str w"

definition scan_atom :: "pystr \<Rightarrow> exn + json \<times> pystr" where
  "scan_atom s =
     (if starts_with ''null'' s then Inr (JNull, drop 4 s)
      else if starts_with ''true'' s then Inr (JBool True, drop 4 s)
      else if starts_with ''false'' s then Inr (JBool False, drop 5 s)
      else if starts_with ''NaN'' s then Inr (JFloat (str ''NaN''), drop 3 s)
      else if starts_with ''Infinity'' s then Inr (JFloat (str ''Infinity''), drop 8 s)
      else if starts_with ''-Infinity'' s then Inr (JFloat (str ''-Infinity''), drop 9 s)
      else scan_number s)"

text \<open>
  Values, array items and object members; the fuel bounds the depth of the calls. Every second call
  consumes a character, so twice the length of the text is always enough (\<open>scan_fuel\<close> below). A
  repeated key keeps its place and takes the later value.
\<close>

fun scan_value :: "nat \<Rightarrow> pystr \<Rightarrow> exn + json \<times> pystr"
  and scan_items :: "nat \<Rightarrow> json list \<Rightarrow> pystr \<Rightarrow> exn + json \<times> pystr"
  and scan_members :: "nat \<Rightarrow> (pystr \<times> json) list \<Rightarrow> pystr \<Rightarrow> exn + json \<times> pystr" where
  "scan_value 0 s = Inl JSONDecodeError"
| "scan_value (Suc n) s =
     (case s of
        [] \<Rightarrow> Inl JSONDecodeError
      | c # r \<Rightarrow>
         (if c = 34 then
            (case scan_string r of None \<Rightarrow> Inl JSONDecodeError | Some (t, r') \<Rightarrow> Inr (JStr t, r'))
          else if c = 123 then
            (case skip_space r of
               [] \<Rightarrow> Inl JSONDecodeError
             | q # r' \<Rightarrow> if q = 125 then Inr (JObj [], r') else scan_members n [] (q # r'))
          else if c = 91 then
            (case skip_space r of
               [] \<Rightarrow> Inl JSONDecodeError
             | q # r' \<Rightarrow> if q = 93 then Inr (JList [], r') else scan_items n [] (q # r'))
          else scan_atom s))"
| "scan_items 0 js s = Inl JSONDecodeError"
| "scan_items (Suc n) js s =
     sbind (scan_value n s) (\<lambda>(j, r).
       case skip_space r of
         [] \<Rightarrow> Inl JSONDecodeError
       | q # r' \<Rightarrow>
          (if q = 93 then Inr (JList (js @ [j]), r')
           else if q = 44 then scan_items n (js @ [j]) (skip_space r')
           else Inl JSONDecodeError))"
| "scan_members 0 d s = Inl JSONDecodeError"
| "scan_members (Suc n) d s =
     (case s of
        [] \<Rightarrow> Inl JSONDecodeError
      | q0 # r0 \<Rightarrow>
        (if q0 \<noteq> 34 then Inl JSONDecodeError
         else case scan_string r0 of
           None \<Rightarrow> Inl JSONDecodeError
         | Some (k, r) \<Rightarrow>
           (case skip_space r of
              [] \<Rightarrow> Inl JSONDecodeError
            | q1 # r1 \<Rightarrow>
              (if q1 \<noteq> 58 then Inl JSONDecodeError
               else sbind (scan_value n (skip_space r1)) (\<lambda>(j, r2).
                 case skip_space r2 of
                   [] \<Rightarrow> Inl JSONDecodeError
                 | q # r' \<Rightarrow>
                    (if q = 125 then Inr (JObj (AList.update k j d), r')
                     else if q = 44 then scan_members n (AList.update k j d) (skip_space r')
                     else Inl JSONDecodeError))))))"

definition json_loads :: "pystr \<Rightarrow> exn + json" where
  "json_loads s =
     (if s \<noteq> [] \<and> hd s = 0xFEFF then Inl JSONDecodeError
      else sbind (scan_value (2 * length s + 2) (skip_space s)) (\<lambda>(j, r).
        if skip_space r = [] then Inr j else Inl JSONDecodeError))"

text \<open>\<open>json.loads(bs.decode("utf-8"))\<close>.\<close>

definition json_loads_utf8 :: "bytes \<Rightarrow> exn + json" where
  "json_loads_utf8 bs = sbind (decode_utf8 bs) json_loads"

section \<open>Enough fuel\<close>

lemma skip_space_le: "length (skip_space s) \<le> length s"
  by (simp add: skip_space_def length_dropWhile_le)

lemma int_part_shorter: "int_part s = Some (ds, r) \<Longrightarrow> length r < length s"
  by (cases s) (auto simp: int_part_def le_imp_less_Suc length_dropWhile_le split: if_splits)

lemma frac_part_le: "length (snd (frac_part s)) \<le> length s"
  by (cases s) (auto simp: frac_part_def intro: le_trans [OF length_dropWhile_le])

lemma exp_part_le: "length (snd (exp_part s)) \<le> length s"
proof (cases s)
  case (Cons c r)
  have "length (dropWhile ascii_digit (drop k r)) \<le> Suc (length r)" for k
    using length_dropWhile_le [of ascii_digit "drop k r"] by simp
  then show ?thesis using Cons by (auto simp: exp_part_def Let_def)
qed (simp add: exp_part_def)

lemma scan_number_shorter:
  assumes "scan_number s = Inr (j, r)"
  shows "length r < length s"
proof -
  have e: "length (snd (exp_part (snd (frac_part r0)))) \<le> length r0" for r0
    using le_trans [OF exp_part_le frac_part_le] .
  obtain u ds r0 where u: "length u \<le> length s" "int_part u = Some (ds, r0)"
    and r: "r = r0 \<or> r = snd (exp_part (snd (frac_part r0)))"
  proof (cases "s \<noteq> [] \<and> hd s = 45")
    case True
    then show ?thesis
      using assms that [of "tl s"]
      by (auto simp: scan_number_def Let_def split: option.splits prod.splits if_splits)
  next
    case False
    then show ?thesis
      using assms that [of s]
      by (auto simp: scan_number_def Let_def split: option.splits prod.splits if_splits)
  qed
  with e [of r0] int_part_shorter [OF u(2)] show ?thesis by auto
qed

lemma scan_atom_shorter: "scan_atom s = Inr (j, r) \<Longrightarrow> length r < length s"
proof -
  have "starts_with w s \<Longrightarrow> w \<noteq> [] \<Longrightarrow> s \<noteq> []" for w
    by (auto simp: starts_with_def str_def)
  then show "length r < length s" if "scan_atom s = Inr (j, r)"
    using that by (auto simp: scan_atom_def dest: scan_number_shorter split: if_splits)
qed

lemmas scan_shorter_rules = scan_atom_shorter scan_string_shorter

lemma skip_space_Cons: "skip_space s = c # r \<Longrightarrow> length r < length s"
  using skip_space_le [of s] by simp

lemma scan_shorter:
  "scan_value n s = Inr (j, r) \<Longrightarrow> length r < length s"
  "scan_items n js s = Inr (j, r) \<Longrightarrow> length r < length s"
  "scan_members n d s = Inr (j, r) \<Longrightarrow> length r < length s"
proof (induction n s and n js s and n d s arbitrary: j r and j r and j r
    rule: scan_value_scan_items_scan_members.induct)
  case (2 n s)
  show ?case
  proof (cases s)
    case (Cons c t)
    with 2 show ?thesis
      by (fastforce dest: scan_shorter_rules skip_space_Cons split: if_splits list.splits option.splits prod.splits)
  qed (use 2 in simp)
next
  case (4 n js s)
  from 4(3) obtain i t where v: "scan_value n s = Inr (i, t)"
    by (auto simp: sbind_eq_Inr)
  with 4(3) obtain q u where q: "skip_space t = q # u" 
    by (cases "skip_space t") auto
  have a: "length t < length s" using 4(1) v by simp
  have b: "length u < length t" "length (skip_space u) \<le> length u"
    using skip_space_Cons [OF q] skip_space_le by auto
  show ?case
  proof (cases "q = 44")
    case True
    with 4(3) v q have "scan_items n (js @ [i]) (skip_space u) = Inr (j, r)" by simp
    from 4(2) [OF q _ True this] True a b show ?thesis by auto
  qed (use 4(3) v q a b in \<open>simp split: if_splits\<close>)
next
  case (6 n d s)
  from 6(3) obtain q0 r0 k r1 q1 r2 where s: "s = q0 # r0" "scan_string r0 = Some (k, r1)"
    "skip_space r1 = q1 # r2" "q0 = 34" "q1 = 58"
    by (auto split: list.splits if_splits option.splits)
  with 6(3) obtain i t where v: "scan_value n (skip_space r2) = Inr (i, t)"
    by (auto simp: sbind_eq_Inr)
  with 6(3) s obtain q u where q: "skip_space t = q # u"
    by (cases "skip_space t") auto
  have a: "length t < length (skip_space r2)" using 6(1) s v by simp
  have b: "length u < length t" "length (skip_space u) \<le> length u" "length (skip_space r2) \<le> length r2"
    "length r2 < length r1" "length r1 < length r0"
    using skip_space_Cons [OF q] skip_space_Cons [OF s(3)] skip_space_le scan_string_shorter [OF s(2)] by auto
  show ?case
  proof (cases "q = 44")
    case True
    with 6(3) v q s have m: "scan_members n (AList.update k i d) (skip_space u) = Inr (j, r)" by simp
    have "length r < length (skip_space u)"
      by (rule 6(2) [OF s(1) _ s(2) refl s(3) _ q _ True m]) (use s q True in auto)
    with s a b show ?thesis by auto
  qed (use 6(3) v q s a b in \<open>simp split: if_splits\<close>)
qed simp_all

text \<open>More fuel than twice the length changes nothing.\<close>

lemma scan_fuel_step:
  "(2 * length s < n \<longrightarrow> scan_value (Suc n) s = scan_value n s) \<and>
   (2 * length s + 1 < n \<longrightarrow> scan_items (Suc n) js s = scan_items n js s) \<and>
   (2 * length s < n \<longrightarrow> scan_members (Suc n) d s = scan_members n d s)"
proof (induction n arbitrary: s js d)
  case (Suc n)
  have v: "scan_value (Suc n) s' = scan_value n s'" if "2 * length s' < n" for s'
    using Suc.IH that by blast
  have i: "scan_items (Suc n) js' s' = scan_items n js' s'" if "2 * length s' + 1 < n" for s' js'
    using Suc.IH that by blast
  have m: "scan_members (Suc n) d' s' = scan_members n d' s'" if "2 * length s' < n" for s' d'
    using Suc.IH that by blast
  have tail: "2 * length (skip_space r) + 2 \<le> 2 * length t" if "skip_space t = q # r" for q r t
    using skip_space_Cons [OF that] skip_space_le [of r] by simp
  note [simp del] = scan_value.simps scan_items.simps scan_members.simps
  have A: "scan_value (Suc (Suc n)) s = scan_value (Suc n) s" if "2 * length s < Suc n"
  proof (cases s)
    case (Cons c r)
    have "scan_items (Suc n) [] (q # r') = scan_items n [] (q # r')"
      "scan_members (Suc n) [] (q # r') = scan_members n [] (q # r')" if "skip_space r = q # r'" for q r'
      using skip_space_le [of r] that \<open>2 * length s < Suc n\<close> Cons by (auto intro!: i m)
    then show ?thesis
      by (simp add: scan_value.simps(2) [of "Suc n"] scan_value.simps(2) [of n] Cons split: list.split)
  qed (simp add: scan_value.simps)
  have B: "scan_items (Suc (Suc n)) js s = scan_items (Suc n) js s" if L: "2 * length s + 1 < Suc n"
  proof -
    have "scan_value (Suc n) s = scan_value n s" using L by (intro v) simp
    moreover have "scan_items (Suc n) js' (skip_space r') = scan_items n js' (skip_space r')"
      if "scan_value n s = Inr (j, r)" "skip_space r = q # r'" for j r q r' js'
      using scan_shorter(1) [OF that(1)] tail [OF that(2)] L by (intro i) simp
    ultimately show ?thesis
      by (auto simp: scan_items.simps(2) [of "Suc n"] scan_items.simps(2) [of n] sbind_def
        split: sum.split list.split)
  qed
  have C: "scan_members (Suc (Suc n)) d s = scan_members (Suc n) d s" if L: "2 * length s < Suc n"
  proof (cases s)
    case (Cons q0 r0)
    have "scan_value (Suc n) (skip_space r1) = scan_value n (skip_space r1)"
      if "scan_string r0 = Some (k, r)" "skip_space r = q1 # r1" for k r q1 r1
      using scan_string_shorter [OF that(1)] tail [OF that(2)] L Cons by (intro v) simp
    moreover have "scan_members (Suc n) d' (skip_space r') = scan_members n d' (skip_space r')"
      if "scan_string r0 = Some (k, r)" "skip_space r = q1 # r1"
        "scan_value n (skip_space r1) = Inr (j, r2)" "skip_space r2 = q # r'" for k r q1 r1 j r2 q r' d'
      using scan_string_shorter [OF that(1)] tail [OF that(2)] scan_shorter(1) [OF that(3)]
        tail [OF that(4)] L Cons by (intro m) simp
    ultimately show ?thesis
      unfolding Cons
      by (auto simp: scan_members.simps(2) [of "Suc n"] scan_members.simps(2) [of n] sbind_def
        split: sum.split list.split option.split)
  qed (simp add: scan_members.simps)
  show ?case using A B C by blast
qed simp

lemma scan_fuel: "2 * length s < n \<Longrightarrow> n \<le> m \<Longrightarrow> scan_value m s = scan_value n s"
proof (induction m)
  case (Suc m)
  then show ?case
    using scan_fuel_step [of s m] by (cases "n = Suc m") (auto simp del: scan_value.simps)
qed simp


section \<open>Round trip\<close>

lemma hex_digit_value:
  assumes "n < 16"
  shows "hex_value (of_char (hex_digit n)) = Some n"
proof -
  have "list_all (\<lambda>n. hex_value (of_char (hex_digit n)) = Some n) [0..<16]"
    by code_simp
  then show ?thesis using assms by (simp add: list_all_iff)
qed

lemma hex4_digits:
  "hex4 n = [of_char (hex_digit (n div 256 mod 256 div 16)), of_char (hex_digit (n div 256 mod 256 mod 16)),
     of_char (hex_digit (n mod 256 div 16)), of_char (hex_digit (n mod 256 mod 16))]"
proof -
  have "be_bytes 2 n = [of_nat (n div 256), of_nat n]"
    by (simp add: be_bytes_def)
  then show ?thesis
    by (simp only: hex4_def hex_bytes_def str_def unat_of_nat_byte list.map concat.simps append_Cons append_Nil)
qed

lemma read_hex4_hex4:
  assumes "n < 65536"
  shows "read_hex4 (hex4 n @ r) = Some (n, r)"
proof -
  define h l where "h = n div 256" and "l = n mod 256"
  have n: "n = h * 256 + l" by (simp add: h_def l_def)
  have "h < 256" "l < 256" using assms by (simp_all add: h_def l_def less_mult_imp_div_less)
  then have q: "h div 16 < 16" "l div 16 < 16" by (simp_all add: less_mult_imp_div_less)
  have v: "read_hex4 (hex4 n @ r) = Some (((h div 16 * 16 + h mod 16) * 16 + l div 16) * 16 + l mod 16, r)"
    using q \<open>h < 256\<close> unfolding hex4_digits h_def [symmetric] l_def [symmetric]
    by (simp add: read_hex4_def hex_digit_value)
  have "(h * 16 + l div 16) * 16 + l mod 16 = h * 256 + (l div 16 * 16 + l mod 16)"
    by (simp add: add_mult_distrib)
  then show ?thesis using v by (simp only: div_mult_mod_eq n [symmetric])
qed

lemma escape_unicode:
  assumes "c < 0x110000" "\<not> is_surrogate c" "127 \<le> c \<or> c < 32"
    "c \<notin> {8, 9, 10, 12, 13}"
  shows "scan_string (json_char c @ r) = map_option (apfst ((#) c)) (scan_string r)"
proof (cases "c < 0x10000")
  case True
  then have "read_unicode (hex4 c @ r) = Some (c, r)"
    using assms(2) by (auto simp: read_unicode_def read_hex4_hex4 is_surrogate_def)
  with True assms show ?thesis by (auto simp: json_char_def)
next
  case False
  define h l where "h = (c - 0x10000) div 1024" and "l = (c - 0x10000) mod 1024"
  have "h < 1024" "l < 1024" and c: "c = 0x10000 + h * 1024 + l"
    using assms(1) False div_mult_mod_eq [of "c - 0x10000" 1024]
    by (simp_all add: h_def l_def less_mult_imp_div_less)
  then have "read_unicode (hex4 (0xD800 + h) @ 92 # 117 # hex4 (0xDC00 + l) @ r) = Some (c, r)"
    by (simp add: read_unicode_def read_hex4_hex4)
  then show ?thesis
    using False unfolding json_char_def h_def [symmetric] l_def [symmetric] by simp
qed

lemma scan_json_char:
  assumes "c < 0x110000" "\<not> is_surrogate c"
  shows "scan_string (json_char c @ r) = map_option (apfst ((#) c)) (scan_string r)"
proof (cases "(127 \<le> c \<or> c < 32) \<and> c \<notin> {8, 9, 10, 12, 13}")
  case True
  then show ?thesis by (intro escape_unicode [OF assms]) auto
next
  case False
  then consider "32 \<le> c" "c < 127" | "c \<in> {8, 9, 10, 12, 13}" by fastforce
  then show ?thesis by cases (auto simp: json_char_def escaped_def)
qed

lemma scan_string_chars:
  "scalar_str s \<Longrightarrow> scan_string (concat (map json_char s) @ 34 # r) = Some (s, r)"
proof (induction s)
  case (Cons c s)
  then have "c < 0x110000" "\<not> is_surrogate c" "scan_string (concat (map json_char s) @ 34 # r) = Some (s, r)"
    by (simp_all add: scalar_str_def)
  then show ?case by (simp add: scan_json_char del: scan_string.simps)
qed simp

text \<open>The values that print to a text the decoder reads back: no floats, and integers short enough
  for \<open>int\<close>. What may follow a value is the end or a closing or separating character.\<close>

fun printable :: "json \<Rightarrow> bool" where
  "printable (JInt n) = (length (show_nat (nat (abs n))) \<le> 4300)"
| "printable (JFloat f) = False"
| "printable (JStr s) = scalar_str s"
| "printable (JList js) = (\<forall>j \<in> set js. printable j)"
| "printable (JObj d) =
     (distinct (map fst d) \<and> (\<forall>kv \<in> set d. scalar_str (fst kv) \<and> printable (snd kv)))"
| "printable _ = True"

definition follows :: "pystr \<Rightarrow> bool" where
  "follows r \<longleftrightarrow> r = [] \<or> hd r \<in> {44, 93, 125}"

lemma scan_number_show:
  assumes "length (show_nat n) \<le> 4300" "follows r"
  shows "int_part (show_nat n @ r) = Some (show_nat n, r)"
proof -
  have stop: "takeWhile ascii_digit r = []" "dropWhile ascii_digit r = r"
    using assms(2) by (cases r; auto simp: follows_def ascii_digit_def)+
  have d: "ascii_digit c" if "c \<in> set (show_nat n)" for c
    using show_nat_digits [OF that] by (simp add: ascii_digit_def)
  show ?thesis
  proof (cases "n = 0")
    case True
    then show ?thesis by (simp add: show_nat.simps int_part_def ascii_digit_def)
  next
    case False
    then show ?thesis
      using hd_show_nat [of n] hd_show_nat_digit [of n] d stop
      by (simp add: int_part_def)
  qed
qed


lemma starts_with_hd: "starts_with (a # w) s \<Longrightarrow> s \<noteq> [] \<and> hd s = of_char a"
  by (cases s) (auto simp: starts_with_def str_def)

lemma starts_with_second: "starts_with (a # b # w) (c # s) \<Longrightarrow> s \<noteq> [] \<and> hd s = of_char b"
  by (cases s) (auto simp: starts_with_def str_def)

lemma digits_value [simp]: "dec_value (map (\<lambda>c. c - Suc 47) (show_nat n)) = n"
  using dec_value_show_nat [of n] by simp

lemma follows_frac: "follows r \<Longrightarrow> frac_part r = ([], r) \<and> exp_part r = ([], r)"
  by (auto simp: follows_def frac_part_def exp_part_def)

lemma scan_int:
  assumes "length (show_nat (nat (abs n))) \<le> 4300" "follows r"
  shows "scan_atom (show_int n @ r) = Inr (JInt n, r)"
proof -
  let ?d = "show_nat (nat (abs n))"
  obtain c cs where d: "?d = c # cs" by (cases "?d") auto
  have c: "48 \<le> c" "c < 58" using show_nat_digits [of c "nat (abs n)"] d by auto
  have p: "int_part (?d @ r) = Some (?d, r)" by (rule scan_number_show [OF assms])
  have nw: "\<not> starts_with ''null'' s" "\<not> starts_with ''true'' s" "\<not> starts_with ''false'' s"
    "\<not> starts_with ''NaN'' s" "\<not> starts_with ''Infinity'' s" if "hd s = 45 \<or> 48 \<le> hd s \<and> hd s < 58" for s
    using that by (auto dest!: starts_with_hd)
  show ?thesis
  proof (cases "n < 0")
    case True
    then have s: "show_int n = 45 # ?d" by (simp add: show_int_def)
    have "\<not> starts_with ''-Infinity'' (45 # ?d @ r)"
      using c d by (auto dest!: starts_with_second)
    then show ?thesis
      using nw [of "45 # ?d @ r"] True assms p follows_frac [OF assms(2)]
      by (simp add: s scan_atom_def scan_number_def dec_value_show_nat)
  next
    case False
    then have s: "show_int n = ?d" by (simp add: show_int_def)
    have "\<not> starts_with ''-Infinity'' (?d @ r)"
      using c d by (auto dest!: starts_with_hd)
    then show ?thesis
      using nw [of "?d @ r"] c d False assms p follows_frac [OF assms(2)] dec_value_show_nat [of "nat (abs n)"]
      by (simp add: s scan_atom_def scan_number_def)
  qed
qed

lemma dumps_head:
  assumes "printable j"
  obtains c cs where "json_dumps j = c # cs" "c < 128" "\<not> json_space c" "c \<noteq> 93" "c \<noteq> 125"
    "c = 34 \<longleftrightarrow> (\<exists>s. j = JStr s)" "c = 91 \<longleftrightarrow> (\<exists>js. j = JList js)" "c = 123 \<longleftrightarrow> (\<exists>d. j = JObj d)"
proof (cases j)
  case (JInt n)
  obtain c cs where d: "show_nat (nat (abs n)) = c # cs" by (cases "show_nat (nat (abs n))") auto
  have c: "48 \<le> c" "c < 58" using show_nat_digits [of c "nat (abs n)"] d by auto
  show ?thesis
    using that [of "hd (show_int n)" "tl (show_int n)"] c d JInt
    by (cases "n < 0") (auto simp: show_int_def json_space_def)
next
  case (JBool b)
  then show ?thesis
    using that by (cases b) (auto simp: str_def json_space_def)
qed (use that assms in \<open>auto simp: str_def json_string_def json_space_def\<close>)

lemma skip_dumps: "printable j \<Longrightarrow> skip_space (json_dumps j @ r) = json_dumps j @ r"
  by (metis dumps_head append_Cons dropWhile.simps(2) skip_space_def)

lemma skip_marks [simp]:
  "skip_space (34 # r) = 34 # r" "skip_space (93 # r) = 93 # r" "skip_space (44 # r) = 44 # r"
  "skip_space (125 # r) = 125 # r" "skip_space (58 # r) = 58 # r"
  by (simp_all add: skip_space_def json_space_def)

lemma follows_marks [simp]: "follows (93 # r)" "follows (44 # r)" "follows (125 # r)"
  by (simp_all add: follows_def)

definition member_text :: "pystr \<times> json \<Rightarrow> pystr" where
  "member_text kv = json_string (fst kv) @ 58 # json_dumps (snd kv)"

lemma scan_items_dumps:
  assumes "\<And>j r n. j \<in> set (i # js) \<Longrightarrow> follows r \<Longrightarrow> 2 * length (json_dumps j) < n \<Longrightarrow>
      scan_value n (json_dumps j @ r) = Inr (j, r)" "\<forall>j \<in> set (i # js). printable j"
    "2 * length (join_comma (map json_dumps (i # js))) + 2 \<le> n"
  shows "scan_items n acc (join_comma (map json_dumps (i # js)) @ 93 # r) = Inr (JList (acc @ i # js), r)"
  using assms
proof (induction js arbitrary: i acc n)
  case Nil
  then obtain m where n: "n = Suc m" by (cases n) auto
  have "scan_value m (json_dumps i @ 93 # r) = Inr (i, 93 # r)"
    using Nil.prems(1) [of i "93 # r" m] Nil.prems(3) n by simp
  with n show ?case by simp
next
  case (Cons k js)
  then obtain m where n: "n = Suc m" by (cases n) auto
  let ?t = "join_comma (map json_dumps (k # js)) @ 93 # r"
  have v: "scan_value m (json_dumps i @ 44 # ?t) = Inr (i, 44 # ?t)"
    using Cons.prems(1) [of i "44 # ?t" m] Cons.prems(3) n by simp
  have s: "skip_space ?t = ?t"
    using skip_dumps [of k] Cons.prems(2) by (cases js) simp_all
  have "scan_items m (acc @ [i]) ?t = Inr (JList ((acc @ [i]) @ k # js), r)"
    using Cons.prems n by (intro Cons.IH) auto
  with v s show ?case by (simp add: n)
qed

lemma scan_members_dumps:
  assumes "\<And>j r n. j \<in> snd ` set (kv # d) \<Longrightarrow> follows r \<Longrightarrow> 2 * length (json_dumps j) < n \<Longrightarrow>
      scan_value n (json_dumps j @ r) = Inr (j, r)"
    "\<forall>kv \<in> set (kv # d). scalar_str (fst kv) \<and> printable (snd kv)"
    "distinct (map fst (acc @ kv # d))"
    "2 * length (join_comma (map member_text (kv # d))) < n"
  shows "scan_members n acc (join_comma (map member_text (kv # d)) @ 125 # r) = Inr (JObj (acc @ kv # d), r)"
  using assms
proof (induction d arbitrary: kv acc n)
  case Nil
  then obtain m where n: "n = Suc m" by (cases n) auto
  obtain k j where kv: "kv = (k, j)" by (cases kv)
  have "scan_value m (json_dumps j @ 125 # r) = Inr (j, 125 # r)"
    using Nil.prems(1) [of j "125 # r" m] Nil.prems(4) n by (simp add: kv member_text_def)
  moreover have "\<not> has_key acc k" using Nil.prems(3) by (auto simp: kv has_key_def)
  ultimately show ?case
    using Nil.prems(2) by (simp add: n kv member_text_def json_string_def scan_string_chars skip_dumps update_new)
next
  case (Cons kv' d)
  then obtain m where n: "n = Suc m" by (cases n) auto
  obtain k j where kv: "kv = (k, j)" by (cases kv)
  let ?t = "join_comma (map member_text (kv' # d)) @ 125 # r"
  have v: "scan_value m (json_dumps j @ 44 # ?t) = Inr (j, 44 # ?t)"
    using Cons.prems(1) [of j "44 # ?t" m] Cons.prems(4) n by (simp add: kv member_text_def)
  have s: "skip_space ?t = ?t"
    by (cases d) (simp_all add: member_text_def json_string_def)
  have u: "AList.update k j acc = acc @ [(k, j)]"
    using Cons.prems(3) by (intro update_new) (auto simp: kv has_key_def)
  have "scan_members m (acc @ [kv]) ?t = Inr (JObj ((acc @ [kv]) @ kv' # d), r)"
    using Cons.prems n by (intro Cons.IH) auto
  with v s u show ?case
    using Cons.prems(2) by (simp add: n kv member_text_def [of "(k, j)"] json_string_def scan_string_chars skip_dumps)
qed

lemma scan_dumps:
  "printable j \<Longrightarrow> follows r \<Longrightarrow> 2 * length (json_dumps j) < n \<Longrightarrow>
   scan_value n (json_dumps j @ r) = Inr (j, r)"
proof (induction j arbitrary: r n)
  case (JList js)
  then obtain m where n: "n = Suc m" by (cases n) auto
  show ?case
  proof (cases js)
    case (Cons i rest)
    have i: "printable i" using JList.prems(1) Cons by simp
    obtain c cs where c: "json_dumps i = c # cs" "c \<noteq> 93"
      by (rule dumps_head [OF i]) (erule that, assumption)
    have s: "skip_space (join_comma (map json_dumps js) @ 93 # r) = join_comma (map json_dumps js) @ 93 # r"
      using skip_dumps [OF i] Cons by (cases rest) simp_all
    obtain cs' where j: "join_comma (map json_dumps js) = c # cs'"
      using c Cons by (cases rest) auto
    have "scan_items m [] (join_comma (map json_dumps js) @ 93 # r) = Inr (JList ([] @ js), r)"
      unfolding Cons by (rule scan_items_dumps) (use JList Cons n in auto)
    with s c(2) j show ?thesis by (simp add: n)
  qed (simp add: n)
next
  case (JObj d)
  then obtain m where n: "n = Suc m" by (cases n) auto
  have t: "map (\<lambda>kv. json_string (fst kv) @ 58 # json_dumps (snd kv)) d = map member_text d"
    by (simp add: member_text_def)
  have len: "2 * length (join_comma (map member_text d)) < m"
    using JObj.prems(3) t n by simp
  show ?case
  proof (cases d)
    case (Cons kv e)
    obtain cs where c: "join_comma (map member_text d) = 34 # cs"
      using Cons by (cases e) (auto simp: member_text_def json_string_def)
    have "scan_members m [] (join_comma (map member_text d) @ 125 # r) = Inr (JObj ([] @ d), r)"
      unfolding Cons
    proof (rule scan_members_dumps)
      fix j r n assume "j \<in> snd ` set (kv # e)" "follows r" "2 * length (json_dumps j) < n"
      then show "scan_value n (json_dumps j @ r) = Inr (j, r)"
        using JObj.IH JObj.prems(1) unfolding Cons by (fastforce simp: snds.simps)
    qed (use JObj.prems(1) Cons len in auto)
    with c show ?thesis by (simp add: n t)
  qed (simp add: n)
next
  case (JInt i)
  then obtain m where n: "n = Suc m" by (cases n) auto
  obtain c cs where c: "show_int i = c # cs" "c \<noteq> 34" "c \<noteq> 91" "c \<noteq> 123"
    by (rule dumps_head [OF JInt.prems(1)], rule that) auto
  then show ?case using scan_int [of i r] JInt by (simp add: n)
next
  case (JStr s)
  then show ?case by (cases n) (simp_all add: json_string_def scan_string_chars)
next
  case (JFloat f)
  then show ?case by simp
next
  case JNull
  then obtain m where "n = Suc m" by (cases n) auto
  then show ?case by (simp add: str_def scan_atom_def starts_with_def)
next
  case (JBool b)
  then obtain m where "n = Suc m" by (cases n) auto
  then show ?case by (cases b) (simp_all add: str_def scan_atom_def starts_with_def)
qed

lemma json_loads_dumps: "printable j \<Longrightarrow> json_loads (json_dumps j) = Inr j"
proof -
  assume p: "printable j"
  obtain c cs where c: "json_dumps j = c # cs" "c < 128"
    by (rule dumps_head [OF p]) (erule that, assumption)
  have s: "scan_value (2 * length (json_dumps j) + 2) (json_dumps j) = Inr (j, [])"
    using scan_dumps [OF p, where r = "[]" and n = "2 * length (json_dumps j) + 2"]
    unfolding follows_def append_Nil2 by fastforce
  have k: "skip_space (json_dumps j) = json_dumps j" using skip_dumps [OF p, of "[]"] by simp
  have h: "hd (json_dumps j) \<noteq> 0xFEFF" using c by simp
  show ?thesis
    unfolding json_loads_def k s sbind_simps using h by (simp add: skip_space_def)
qed

section \<open>Errors\<close>

definition json_error :: "exn \<Rightarrow> bool" where
  "json_error e \<longleftrightarrow> e = JSONDecodeError \<or> e = ValueError"

lemma scan_atom_error: "scan_atom s = Inl e \<Longrightarrow> json_error e"
  by (auto simp: scan_atom_def scan_number_def json_error_def Let_def split: if_splits option.splits prod.splits)

lemma scan_errors:
  "(scan_value n s = Inl e \<longrightarrow> json_error e) \<and> (scan_items n js s = Inl e \<longrightarrow> json_error e) \<and>
   (scan_members n d s = Inl e \<longrightarrow> json_error e)"
proof (induction n arbitrary: s js d)
  case (Suc n)
  have v: "scan_value n s = Inl e \<Longrightarrow> json_error e" and i: "scan_items n js s = Inl e \<Longrightarrow> json_error e"
    and m: "scan_members n d s = Inl e \<Longrightarrow> json_error e" for s js d
    using Suc.IH by blast+
  have j: "json_error JSONDecodeError" by (simp add: json_error_def)
  note rules = v i m scan_atom_error
  have "scan_value (Suc n) s = Inl e \<Longrightarrow> json_error e"
    by (auto dest: rules simp: j split: list.splits if_splits option.splits)
  moreover have "scan_items (Suc n) js s = Inl e \<Longrightarrow> json_error e"
    by (auto dest: rules simp: j sbind_def split: sum.splits prod.splits list.splits if_splits)
  moreover have "scan_members (Suc n) d s = Inl e \<Longrightarrow> json_error e"
    by (auto dest: rules simp: j sbind_def split: sum.splits prod.splits list.splits if_splits option.splits)
  ultimately show ?case by blast
qed (simp add: json_error_def)

lemma json_loads_error: "json_loads s = Inl e \<Longrightarrow> json_error e"
  using scan_errors [of "2 * length s + 2" "skip_space s" e]
  by (auto simp: json_loads_def sbind_eq_Inl json_error_def split: if_splits prod.splits)

lemma decode_utf8_error: "decode_utf8 bs = Inl e \<Longrightarrow> e = UnicodeError"
proof (induction bs rule: decode_utf8.induct)
  case (1 bs)
  then show ?case
    using decode_utf8.simps [of bs] by (auto simp: sbind_eq_Inl split: if_splits option.splits prod.splits)
qed

lemma json_loads_utf8_error:
  "json_loads_utf8 bs = Inl e \<Longrightarrow> e = UnicodeError \<or> e = JSONDecodeError \<or> e = ValueError"
  by (auto simp: json_loads_utf8_def sbind_eq_Inl json_error_def dest: json_loads_error decode_utf8_error)

section \<open>Encoded documents\<close>

lemma ascii_append [simp]: "ascii_str (a @ b) \<longleftrightarrow> ascii_str a \<and> ascii_str b"
  by (simp add: ascii_str_def)

lemma ascii_Cons [simp]: "ascii_str (c # b) \<longleftrightarrow> c < 128 \<and> ascii_str b" "ascii_str []"
  by (simp_all add: ascii_str_def)

lemma ascii_show_int [simp]: "ascii_str (show_int n)"
proof -
  have "ascii_str (show_nat m)" for m
    by (auto simp: ascii_str_def list_all_iff dest: show_nat_digits)
  then show ?thesis by (simp add: show_int_def)
qed

lemma ascii_json_string [simp]: "ascii_str (json_string s)"
proof -
  have d: "(of_char (hex_digit n) :: nat) < 128" if "n < 16" for n
    using hex_digit_ascii [OF that] by simp
  have "ascii_str (hex4 n)" for n
    unfolding hex4_digits by (simp add: d less_mult_imp_div_less)
  then have "ascii_str (json_char c)" for c by (simp add: json_char_def)
  then have "ascii_str (concat (map json_char s))" by (induction s) simp_all
  then show ?thesis by (simp add: json_string_def)
qed

lemma ascii_join_comma: "list_all ascii_str xs \<Longrightarrow> ascii_str (join_comma xs)"
  by (induction xs rule: join_comma.induct) auto

lemma ascii_dumps: "printable j \<Longrightarrow> ascii_str (json_dumps j)"
proof (induction j)
  case (JObj d)
  then have "ascii_str (json_dumps (snd kv))" if "kv \<in> set d" for kv
    using that by (cases kv) (fastforce simp: snds.simps)
  then show ?case by (auto simp: list_all_iff intro!: ascii_join_comma)
qed (auto simp: str_def list_all_iff intro!: ascii_join_comma)

lemma utf8_of_ascii: "ascii_str s \<Longrightarrow> encode_utf8 s = Inr (map of_nat s)"
proof -
  assume a: "ascii_str s"
  then have "scalar_str s" by (auto simp: ascii_str_def scalar_str_def list_all_iff is_surrogate_def)
  moreover have "concat (map utf8_bytes s) = map of_nat s"
    using a by (induction s) (simp_all add: utf8_bytes_def)
  ultimately show ?thesis by (simp add: encode_utf8_def)
qed

lemma json_loads_encoded:
  "printable j \<Longrightarrow> json_loads_utf8 (map of_nat (json_dumps j)) = Inr j"
  using decode_encode_utf8 [OF utf8_of_ascii [OF ascii_dumps]] json_loads_dumps
  by (simp add: json_loads_utf8_def)

section \<open>Which documents raise a plain ValueError\<close>

definition json_fault :: "nat \<Rightarrow> exn \<Rightarrow> bool" where
  "json_fault n e \<longleftrightarrow> (e = ValueError \<longrightarrow> 4300 < n)"

lemma json_fault_mono: "json_fault m e \<Longrightarrow> m \<le> n \<Longrightarrow> json_fault n e"
  by (auto simp: json_fault_def)

lemma int_part_length: "int_part s = Some (ds, r) \<Longrightarrow> length ds \<le> length s"
  by (auto simp: int_part_def length_takeWhile_le split: if_splits) (metis Suc_leI length_greater_0_conv)

lemma scan_atom_fault: "scan_atom s = Inl e \<Longrightarrow> json_fault (length s) e"
proof -
  have "length ds \<le> length s" if "int_part (if s \<noteq> [] \<and> hd s = 45 then tl s else s) = Some (ds, r)" for ds r
    using int_part_length [OF that] by (simp split: if_splits)
  then show "json_fault (length s) e" if "scan_atom s = Inl e"
    using that by (fastforce simp: scan_atom_def scan_number_def json_fault_def Let_def
      split: if_splits option.splits prod.splits)
qed

lemma decode_error_fault: "json_fault n JSONDecodeError"
  by (simp add: json_fault_def)

lemma scan_faults:
  "(scan_value n s = Inl e \<longrightarrow> json_fault (length s) e) \<and> (scan_items n js s = Inl e \<longrightarrow> json_fault (length s) e) \<and>
   (scan_members n d s = Inl e \<longrightarrow> json_fault (length s) e)"
proof (induction n arbitrary: s js d)
  case (Suc n)
  have v: "scan_value n t = Inl e \<Longrightarrow> length t \<le> length s \<Longrightarrow> json_fault (length s) e"
    and i: "scan_items n js t = Inl e \<Longrightarrow> length t \<le> length s \<Longrightarrow> json_fault (length s) e"
    and m: "scan_members n d t = Inl e \<Longrightarrow> length t \<le> length s \<Longrightarrow> json_fault (length s) e" for s t js d
    using Suc.IH json_fault_mono by blast+
  have skip: "length (skip_space u) \<le> k" if "length u \<le> k" for u :: pystr and k
    using skip_space_le [of u] that by linarith
  have part: "length t \<le> length s" if "skip_space u = q # t" "length u \<le> length s" for u q t
    using skip_space_Cons [OF that(1)] that(2) by linarith
  have "scan_value (Suc n) s = Inl e \<Longrightarrow> json_fault (length s) e"
  proof (cases s)
    case (Cons c r)
    have h: "length (skip_space r) \<le> length s" using Cons by (intro skip) simp
    assume "scan_value (Suc n) s = Inl e"
    with Cons h show ?thesis
      by (auto simp: decode_error_fault dest!: i m scan_atom_fault
          intro: json_fault_mono split: list.splits if_splits option.splits)
  qed (simp add: decode_error_fault)
  moreover have "scan_items (Suc n) js s = Inl e \<Longrightarrow> json_fault (length s) e"
  proof (cases "scan_value n s")
    case (Inr jr)
    obtain j r where jr: "jr = (j, r)" by (cases jr)
    have r: "length r \<le> length s" using scan_shorter(1) [of n s j r] Inr jr by simp
    assume "scan_items (Suc n) js s = Inl e"
    with Inr jr show ?thesis
      using part [OF _ r] skip
      by (auto simp: decode_error_fault split: list.splits if_splits intro: i)
  qed (use v [of s s] in simp)
  moreover have "scan_members (Suc n) d s = Inl e \<Longrightarrow> json_fault (length s) e"
  proof (cases s)
    case (Cons q0 r0)
    assume h: "scan_members (Suc n) d s = Inl e"
    show ?thesis
    proof (cases "q0 = 34 \<and> (\<exists>k r r1. scan_string r0 = Some (k, r) \<and> skip_space r = 58 # r1)")
      case False
      with h Cons have "e = JSONDecodeError" by (auto split: option.splits list.splits if_splits)
      then show ?thesis by (simp add: decode_error_fault)
    next
      case True
      then obtain k r r1 where k: "scan_string r0 = Some (k, r)" "skip_space r = 58 # r1" "q0 = 34" by auto
      have r1: "length r1 \<le> length s"
        using part [OF k(2)] scan_string_shorter [OF k(1)] Cons by simp
      show ?thesis
      proof (cases "scan_value n (skip_space r1)")
        case (Inl e')
        with h Cons k have "scan_value n (skip_space r1) = Inl e" by simp
        from v [OF this skip [OF r1]] show ?thesis .
      next
        case (Inr jr)
        obtain j r2 where jr: "jr = (j, r2)" by (cases jr)
        have r2: "length r2 \<le> length s"
          using scan_shorter(1) [of n "skip_space r1" j r2] Inr jr skip [OF r1] by simp
        have m': "json_fault (Suc (length r0)) e" if "scan_members n d' (skip_space t) = Inl e"
            "length t \<le> Suc (length r0)" for d' t
          using m [of d' "skip_space t" s] that skip [of t] Cons by simp
        from h Cons k Inr jr show ?thesis
          using part [OF _ r2] by (auto simp: decode_error_fault split: list.splits if_splits intro: m')
      qed
    qed
  qed (simp add: decode_error_fault)
  ultimately show ?case by blast
qed (simp add: decode_error_fault)

lemma decode_utf8_length: "decode_utf8 bs = Inr s \<Longrightarrow> length s \<le> length bs"
proof (induction bs arbitrary: s rule: decode_utf8.induct)
  case (1 bs)
  show ?case
  proof (cases "bs = []")
    case False
    then obtain c r t where u: "utf8_next bs = Some (c, r)" "decode_utf8 r = Inr t" "s = c # t"
      using 1(2) decode_utf8.simps [of bs] by (auto simp: sbind_eq_Inr split: option.splits)
    with 1(1) [OF False u(1) refl u(2)] utf8_next_shorter [OF u(1)] show ?thesis by simp
  qed (use 1(2) decode_utf8.simps [of bs] in simp)
qed

lemma json_loads_short: "length bs \<le> 4300 \<Longrightarrow> json_loads_utf8 bs \<noteq> Inl ValueError"
proof
  assume "length bs \<le> 4300" "json_loads_utf8 bs = Inl ValueError"
  then obtain s where s: "decode_utf8 bs = Inr s" "json_loads s = Inl ValueError" "length s \<le> 4300"
    using decode_utf8_length decode_utf8_error by (fastforce simp: json_loads_utf8_def sbind_eq_Inl)
  then have "scan_value (2 * length s + 2) (skip_space s) = Inl ValueError"
    by (auto simp: json_loads_def sbind_eq_Inl split: if_splits prod.splits)
  then have "json_fault (length (skip_space s)) ValueError" using scan_faults by blast
  with s(3) skip_space_le [of s] show False by (simp add: json_fault_def)
qed

end
