(* ===== verification/P2P.thy ===== *)
theory P2P
  imports JSON "HOL-Library.List_Lexorder"
begin

text \<open>
  The host side of the official P2P directory and of the helper processes (\<open>okam_native/p2p.py\<close>):
  the two directory lookups, the framing of secrets on the helper's standard input, the choice of a
  camera password, the sanitised diagnostics and results of the probes, the log line made of them,
  and the JPEG header scanner. The HTTP transport (\<open>opener\<close>, \<open>urlopen\<close>) and the operating system's
  process runner are arguments; everything around them is translated.
\<close>

section \<open>Requests to the directory services\<close>

definition HTTP_TIMEOUT_SECONDS :: rat where [simp]: "HTTP_TIMEOUT_SECONDS = 15"
definition MAX_RESPONSE_BYTES :: nat where [simp]: "MAX_RESPONSE_BYTES = 64 * 1024"
definition FIELD_BYTES :: nat where [simp]: "FIELD_BYTES = 4096"
definition SERVICE_DIRECTORY_URL :: pystr where
  "SERVICE_DIRECTORY_URL = str ''https://authentication.eye4.cn/getInitstring''"
definition VIRTUAL_ID_URL :: pystr where "VIRTUAL_ID_URL = str ''https://vuid.eye4.cn''"
definition DEFAULT_CAMERA_PASSWORD :: pystr where "DEFAULT_CAMERA_PASSWORD = str ''888888''"

record http_request =
  url :: pystr
  data :: "bytes option"
  verb :: string
  headers :: "(string \<times> string) list"

type_synonym opener = "http_request \<Rightarrow> rat \<Rightarrow> exn + bytes"

text \<open>The response of \<open>urlopen\<close> is its status and its body, whose transfer may still fail.\<close>

definition open_request :: "(http_request \<Rightarrow> rat \<Rightarrow> exn + int \<times> (exn + bytes)) \<Rightarrow> opener" where
  "open_request urlopen request timeout =
     sbind (urlopen request timeout) (\<lambda>(status, body).
       if status \<noteq> 200 then Inl (P2PError ''official P2P directory rejected a request'')
       else sbind body (\<lambda>bs.
         let payload = take (MAX_RESPONSE_BYTES + 1) bs in
         if MAX_RESPONSE_BYTES < length payload
         then Inl (P2PError ''official P2P directory response was too large'')
         else Inr payload))"

definition json_headers :: "string \<Rightarrow> (string \<times> string) list" where
  "json_headers agent =
     [(''Accept'', ''application/json''),
      (''Content-Type'', ''application/json; charset=utf-8''),
      (''User-Agent'', agent)]"

text \<open>\<open>except (OSError, UnicodeError, json.JSONDecodeError, urllib.error.URLError)\<close>.\<close>

fun request_failure :: "exn \<Rightarrow> bool" where
  "request_failure OSError = True"
| "request_failure UnicodeError = True"
| "request_failure JSONDecodeError = True"
| "request_failure _ = False"

definition ask_directory :: "string \<Rightarrow> opener \<Rightarrow> http_request \<Rightarrow> exn + json" where
  "ask_directory failed opener request =
     (case sbind (opener request HTTP_TIMEOUT_SECONDS) json_loads_utf8 of
        Inr j \<Rightarrow> Inr j
      | Inl e \<Rightarrow> Inl (if request_failure e then P2PError failed else e))"

definition get_service_parameter :: "unicode \<Rightarrow> opener \<Rightarrow> json \<Rightarrow> exn + pystr" where
  "get_service_parameter db opener uid =
     (case uid of
        JStr u \<Rightarrow>
         (if length u < 4 \<or> 256 < length u then Inl (P2PError ''camera device identifier is invalid'')
          else
            let family = take 4 u in
            if \<not> isalnum db family then Inl (P2PError ''camera device family is invalid'')
            else
              sbind (encode_ascii (json_dumps (JObj [(str ''uid'', JList [JStr family])]))) (\<lambda>body.
              sbind (ask_directory ''official P2P directory request failed'' opener
                \<lparr>url = SERVICE_DIRECTORY_URL, data = Some body, verb = ''POST'',
                 headers = json_headers ''okam-ha-native/p2p-directory''\<rparr>) (\<lambda>result.
              case result of
                JList (JStr s # _) \<Rightarrow>
                  (if 16 \<le> length s \<and> length s \<le> FIELD_BYTES then Inr s
                   else Inl (P2PError ''official P2P directory response was invalid''))
              | _ \<Rightarrow> Inl (P2PError ''official P2P directory response was invalid''))))
      | _ \<Rightarrow> Inl (P2PError ''camera device identifier is invalid''))"

text \<open>
  \<open>^[A-Za-z]+\d{7,}.*[A-Za-z]$\<close> under \<open>fullmatch\<close>: a decimal digit never is an ASCII letter, so the
  leading letters are the longest run of them and seven digits suffice; the dot stops at a newline.
\<close>

definition is_decimal :: "unicode \<Rightarrow> nat \<Rightarrow> bool" where
  "is_decimal db c \<longleftrightarrow> decimal_of db c \<noteq> None"

definition virtual_id :: "unicode \<Rightarrow> pystr \<Rightarrow> bool" where
  "virtual_id db uid \<longleftrightarrow>
     (let rest = dropWhile ascii_alpha uid; tail = drop 7 rest in
      takeWhile ascii_alpha uid \<noteq> [] \<and> 7 \<le> length (takeWhile (is_decimal db) rest) \<and>
      tail \<noteq> [] \<and> ascii_alpha (last tail) \<and> 10 \<notin> set tail)"

definition upper_hex :: "nat \<Rightarrow> nat" where
  "upper_hex n = (if n < 10 then 48 + n else 55 + n)"

text \<open>\<open>urllib.parse.urlencode\<close> of one pair: the UTF-8 bytes, percent-escaped.\<close>

definition quote_byte :: "byte \<Rightarrow> pystr" where
  "quote_byte b =
     (let n = unat b in
      if ascii_alpha n \<or> ascii_digit n \<or> n \<in> {95, 46, 45, 126} then [n]
      else if n = 32 then [43]
      else [37, upper_hex (n div 16), upper_hex (n mod 16)])"

definition urlencode1 :: "string \<Rightarrow> pystr \<Rightarrow> exn + pystr" where
  "urlencode1 name v =
     sbind (encode_utf8 v) (\<lambda>bs. Inr (str name @ 61 # concat (map quote_byte bs)))"

definition resolve_client_id :: "unicode \<Rightarrow> opener \<Rightarrow> json \<Rightarrow> exn + pystr" where
  "resolve_client_id db opener uid =
     (case uid of
        JStr u \<Rightarrow>
         (if \<not> (4 \<le> length u \<and> length u \<le> 256)
          then Inl (P2PError ''camera device identifier is invalid'')
          else if \<not> virtual_id db u then Inr u
          else
            sbind (urlencode1 ''vuid'' u) (\<lambda>query.
            sbind (ask_directory ''official virtual-device resolver request failed'' opener
              \<lparr>url = VIRTUAL_ID_URL @ 63 # query, data = None, verb = ''GET'',
               headers = json_headers ''okam-ha-native/vuid-resolver''\<rparr>) (\<lambda>result.
            case (case result of JObj d \<Rightarrow> json_get d ''uid'' | _ \<Rightarrow> JNull) of
              JStr c \<Rightarrow>
                (if 4 \<le> length c \<and> length c \<le> 256 then Inr c
                 else Inl (P2PError ''official virtual-device resolver response was invalid''))
            | _ \<Rightarrow> Inl (P2PError ''official virtual-device resolver response was invalid''))))
      | _ \<Rightarrow> Inl (P2PError ''camera device identifier is invalid''))"

section \<open>Secrets for the helper\<close>

definition p2p_field :: "pystr \<Rightarrow> exn + bytes" where
  "p2p_field v =
     sbind (encode_utf8 v) (\<lambda>encoded.
       if encoded = [] \<or> FIELD_BYTES < length encoded \<or> list_ex (\<lambda>b. unat b < 0x20) encoded
       then Inl (P2PError ''native P2P input was invalid'')
       else Inr (be_bytes 4 (length encoded) @ encoded))"

definition select_camera_password :: "json \<Rightarrow> json \<Rightarrow> exn + pystr" where
  "select_camera_password api configured =
     (if configured \<noteq> JNull \<and> configured \<noteq> JStr [] then
        (case configured of
           JStr p \<Rightarrow> sbind (p2p_field p) (\<lambda>_. Inr p)
         | _ \<Rightarrow> Inl (P2PError ''configured camera credential is invalid''))
      else
        (case api of
           JStr p \<Rightarrow> (if p \<noteq> [] then sbind (p2p_field p) (\<lambda>_. Inr p) else Inr DEFAULT_CAMERA_PASSWORD)
         | _ \<Rightarrow> Inr DEFAULT_CAMERA_PASSWORD))"

text \<open>\<open>_field(uid) + _field(service_parameter) [+ _field(device_password)]\<close>.\<close>

fun fields_input :: "pystr list \<Rightarrow> exn + bytes" where
  "fields_input [] = Inr []"
| "fields_input (v # vs) = sbind (p2p_field v) (\<lambda>f. sbind (fields_input vs) (\<lambda>fs. Inr (f @ fs)))"

section \<open>Sanitised diagnostics\<close>

definition MAX_COUNTER_ENTRIES :: nat where [simp]: "MAX_COUNTER_ENTRIES = 64"

text \<open>The dictionaries that \<open>_diagnostics\<close> and \<open>_stream_diagnostics\<close> build hold each of these keys or
  not.\<close>

record diagnostics =
  connect_path_item :: "pystr option"
  login_candidate_item :: "int option"
  login_attempts_item :: "int option list option"
  counters_item :: "(pystr \<times> int) list option"

record stream_diagnostics = diagnostics +
  start_command_item :: "int option"
  start_result_item :: "int option"

definition short_ascii :: "nat \<Rightarrow> pystr \<Rightarrow> bool" where
  "short_ascii n s \<longleftrightarrow> ascii_str s \<and> length s \<le> n"

definition plain_int_item :: "json \<Rightarrow> int option" where
  "plain_int_item j = (if is_plain_int j then Some (as_int j) else None)"

definition attempt_ok :: "json \<Rightarrow> bool" where
  "attempt_ok j \<longleftrightarrow> j = JNull \<or> is_plain_int j"

definition counter_ok :: "pystr \<times> json \<Rightarrow> bool" where
  "counter_ok nv \<longleftrightarrow> short_ascii 64 (fst nv) \<and> is_plain_int (snd nv) \<and> 0 \<le> as_int (snd nv)"

definition read_diagnostics :: "json \<Rightarrow> diagnostics" where
  "read_diagnostics payload =
     (case payload of
        JObj d \<Rightarrow>
          \<lparr>connect_path_item = (case json_get d ''connect_path'' of
              JStr p \<Rightarrow> if short_ascii 32 p then Some p else None | _ \<Rightarrow> None),
           login_candidate_item = plain_int_item (json_get d ''login_candidate''),
           login_attempts_item = (case json_get d ''login_attempts'' of
              JList js \<Rightarrow> if length js \<le> 8 \<and> list_all attempt_ok js
                then Some (map plain_int_item js) else None
            | _ \<Rightarrow> None),
           counters_item = (case json_get d ''counters'' of
              JObj cs \<Rightarrow> if length cs \<le> MAX_COUNTER_ENTRIES \<and> list_all counter_ok cs
                then Some (map (map_prod id as_int) cs) else None
            | _ \<Rightarrow> None)\<rparr>
      | _ \<Rightarrow> \<lparr>connect_path_item = None, login_candidate_item = None, login_attempts_item = None,
              counters_item = None\<rparr>)"

definition read_stream_diagnostics :: "json \<Rightarrow> stream_diagnostics" where
  "read_stream_diagnostics payload =
     diagnostics.extend (read_diagnostics payload)
       (case payload of
          JObj d \<Rightarrow> stream_diagnostics.fields
            (plain_int_item (json_get d ''stream_start_command''))
            (plain_int_item (json_get d ''stream_start_result''))
        | _ \<Rightarrow> stream_diagnostics.fields None None)"

section \<open>Probe results\<close>

text \<open>The frozen result classes; \<open>isinstance(state, int)\<close> admits a boolean, whose value is then the
  number it equals.\<close>

record connect_result =
  was_connected :: bool
  state_reached :: int
  was_disconnected :: bool
  path_taken :: pystr
  counts :: "(pystr \<times> int) list"

record authentication_result =
  res_connected :: bool
  res_connect_state :: int
  res_login_sent :: bool
  res_login_response_received :: bool
  res_authenticated :: bool
  res_login_command :: "int option"
  res_login_result :: "int option"
  res_disconnected :: bool
  res_connect_path :: pystr
  res_login_candidate :: int
  res_login_attempts :: "int option list"
  res_counters :: "(pystr \<times> int) list"

record stream_probe_result = authentication_result +
  res_stream_start_sent :: bool
  res_stream_stop_sent :: bool
  res_h264_received :: bool
  res_h264_frames :: int
  res_h264_bytes :: int
  res_keyframe_seen :: bool
  res_h265_frames :: int
  res_stream_start_command :: int
  res_stream_start_result :: "int option"

record snapshot_probe_result = stream_probe_result +
  res_jpeg :: bytes
  res_width :: nat
  res_height :: nat

text \<open>An invocation of a helper process, and what running it to its end gives: the exit status and
  the standard output, or an \<open>OSError\<close> or \<open>SubprocessError\<close>.\<close>

record invocation =
  command_line :: "pystr list"
  stdin_bytes :: bytes
  environment :: "(pystr \<times> pystr) list"
  time_limit :: rat

type_synonym runner = "invocation \<Rightarrow> exn + int \<times> bytes"

definition run_helper :: "string \<Rightarrow> string \<Rightarrow> runner \<Rightarrow> invocation \<Rightarrow> exn + int \<times> json" where
  "run_helper failed invalid run call =
     (case run call of
        Inl e \<Rightarrow> Inl (if e = OSError \<or> is_subprocess_error e then P2PError failed else e)
      | Inr (code, out) \<Rightarrow>
         (case json_loads_utf8 out of
            Inl e \<Rightarrow> Inl (if e = UnicodeError \<or> e = JSONDecodeError then P2PError invalid else e)
          | Inr payload \<Rightarrow> Inr (code, payload)))"

text \<open>\<open>payload.get\<close> of a payload that is no dictionary raises \<open>AttributeError\<close>.\<close>

definition members :: "json \<Rightarrow> exn + (pystr \<times> json) list" where
  "members payload = (case payload of JObj d \<Rightarrow> Inr d | _ \<Rightarrow> Inl AttributeError)"

definition run_connect_probe ::
    "runner \<Rightarrow> pystr \<Rightarrow> pystr \<Rightarrow> pystr \<Rightarrow> pystr \<Rightarrow> (pystr \<times> pystr) list \<Rightarrow> rat \<Rightarrow> exn + connect_result" where
  "run_connect_probe run helper library uid service env timeout =
     sbind (fields_input [uid, service]) (\<lambda>stdin.
     sbind (run_helper ''native P2P helper failed'' ''native P2P helper returned an invalid response'' run
        \<lparr>command_line = [helper, library], stdin_bytes = stdin, environment = env, time_limit = timeout\<rparr>)
       (\<lambda>(code, payload).
     sbind (members payload) (\<lambda>d.
       let state = json_get d ''connect_state''; connected = json_get d ''connected'';
           disconnected = json_get d ''disconnected''; diag = read_diagnostics payload in
       if \<not> is_int state \<or> \<not> is_bool connected \<or> \<not> is_bool disconnected
       then Inl (P2PError ''native P2P helper returned an invalid result'')
       else if code \<notin> {0, 4} then Inl (P2PError ''native P2P helper failed safely'')
       else Inr \<lparr>was_connected = as_bool connected, state_reached = as_int state,
         was_disconnected = as_bool disconnected,
         path_taken = (case connect_path_item diag of None \<Rightarrow> [] | Some p \<Rightarrow> p),
         counts = (case counters_item diag of None \<Rightarrow> [] | Some c \<Rightarrow> c)\<rparr>)))"

definition optional_int :: "json \<Rightarrow> bool" where
  "optional_int j \<longleftrightarrow> j = JNull \<or> is_int j"

definition int_item :: "json \<Rightarrow> int option" where
  "int_item j = (if j = JNull then None else Some (as_int j))"

definition bools_in :: "(pystr \<times> json) list \<Rightarrow> string list \<Rightarrow> bool" where
  "bools_in d names \<longleftrightarrow> list_all (\<lambda>n. is_bool (json_get d n)) names"

definition ints_in :: "(pystr \<times> json) list \<Rightarrow> string list \<Rightarrow> bool" where
  "ints_in d names \<longleftrightarrow> list_all (\<lambda>n. is_int (json_get d n)) names"

definition bool_at :: "(pystr \<times> json) list \<Rightarrow> string \<Rightarrow> bool" where
  "bool_at d name = as_bool (json_get d name)"

definition int_at :: "(pystr \<times> json) list \<Rightarrow> string \<Rightarrow> int" where
  "int_at d name = as_int (json_get d name)"

definition authentication_fields ::
    "(pystr \<times> json) list \<Rightarrow> 'd diagnostics_scheme \<Rightarrow> authentication_result" where
  "authentication_fields d diag =
     \<lparr>res_connected = bool_at d ''connected'', res_connect_state = int_at d ''connect_state'',
      res_login_sent = bool_at d ''login_sent'',
      res_login_response_received = bool_at d ''login_response_received'',
      res_authenticated = bool_at d ''authenticated'',
      res_login_command = int_item (json_get d ''login_command''),
      res_login_result = int_item (json_get d ''login_result''),
      res_disconnected = bool_at d ''disconnected'',
      res_connect_path = (case connect_path_item diag of None \<Rightarrow> [] | Some p \<Rightarrow> p),
      res_login_candidate = (case login_candidate_item diag of None \<Rightarrow> - 1 | Some n \<Rightarrow> n),
      res_login_attempts = (case login_attempts_item diag of None \<Rightarrow> [] | Some a \<Rightarrow> a),
      res_counters = (case counters_item diag of None \<Rightarrow> [] | Some c \<Rightarrow> c)\<rparr>"

definition run_authentication_probe ::
    "runner \<Rightarrow> pystr \<Rightarrow> pystr \<Rightarrow> pystr \<Rightarrow> pystr \<Rightarrow> pystr \<Rightarrow> (pystr \<times> pystr) list \<Rightarrow> rat \<Rightarrow>
      exn + authentication_result" where
  "run_authentication_probe run helper library uid service password env timeout =
     sbind (fields_input [uid, service, password]) (\<lambda>stdin.
     sbind (run_helper ''native camera authentication helper failed''
          ''native camera authentication helper returned an invalid response'' run
        \<lparr>command_line = [helper, library, str ''--authenticate''], stdin_bytes = stdin, environment = env,
         time_limit = timeout\<rparr>)
       (\<lambda>(code, payload).
     sbind (members payload) (\<lambda>d.
       if \<not> is_int (json_get d ''connect_state'')
          \<or> \<not> bools_in d [''connected'', ''login_sent'', ''login_response_received'', ''authenticated'',
              ''disconnected'']
          \<or> \<not> optional_int (json_get d ''login_command'')
          \<or> \<not> optional_int (json_get d ''login_result'')
       then Inl (P2PError ''native camera authentication helper returned an invalid result'')
       else if code \<notin> {0, 4, 5} then Inl (P2PError ''native camera authentication helper failed safely'')
       else Inr (authentication_fields d (read_diagnostics payload)))))"

definition stream_bools :: "string list" where
  "stream_bools = [''connected'', ''login_sent'', ''login_response_received'', ''authenticated'',
     ''stream_start_sent'', ''stream_stop_sent'', ''h264_received'', ''keyframe_seen'', ''disconnected'']"

definition stream_ints :: "string list" where
  "stream_ints = [''connect_state'', ''login_command'', ''login_result'', ''h264_frames'', ''h264_bytes'',
     ''h265_frames'']"

definition stream_result :: "json \<Rightarrow> int \<Rightarrow> exn + stream_probe_result" where
  "stream_result payload code =
     (case payload of
        JObj d \<Rightarrow>
         (if \<not> bools_in d stream_bools \<or> \<not> ints_in d stream_ints
             \<or> list_ex (\<lambda>n. int_at d n < 0) [''h264_frames'', ''h264_bytes'', ''h265_frames'']
          then Inl (P2PError ''native H.264 helper returned an invalid result'')
          else if code \<notin> {0, 4, 5, 6} then Inl (P2PError ''native H.264 helper failed safely'')
          else
            let diag = read_stream_diagnostics payload in
            Inr (authentication_result.extend (authentication_fields d diag)
              (stream_probe_result.fields (bool_at d ''stream_start_sent'')
                (bool_at d ''stream_stop_sent'') (bool_at d ''h264_received'') (int_at d ''h264_frames'')
                (int_at d ''h264_bytes'') (bool_at d ''keyframe_seen'') (int_at d ''h265_frames'')
                (case start_command_item diag of None \<Rightarrow> 0 | Some n \<Rightarrow> n) (start_result_item diag))))
      | _ \<Rightarrow> Inl (P2PError ''native H.264 helper returned an invalid result''))"

definition run_stream_probe ::
    "runner \<Rightarrow> pystr \<Rightarrow> pystr \<Rightarrow> pystr \<Rightarrow> pystr \<Rightarrow> pystr \<Rightarrow> (pystr \<times> pystr) list \<Rightarrow> rat \<Rightarrow>
      exn + stream_probe_result" where
  "run_stream_probe run helper library uid service password env timeout =
     sbind (fields_input [uid, service, password]) (\<lambda>stdin.
     sbind (run_helper ''native H.264 helper failed'' ''native H.264 helper returned an invalid response'' run
        \<lparr>command_line = [helper, library, str ''--stream-test''], stdin_bytes = stdin, environment = env,
         time_limit = timeout\<rparr>)
       (\<lambda>(code, payload). stream_result payload code))"

section \<open>The log line\<close>

text \<open>
  \<open>getattr(result, name, default)\<close> on the result classes: the connect probe has only the path and
  the counters, the authentication probe no start command.
\<close>

record evidence =
  ev_path :: pystr
  ev_candidate :: int
  ev_attempts :: "int option list"
  ev_command :: int
  ev_result :: "int option"
  ev_counters :: "(pystr \<times> int) list"

definition connect_evidence :: "connect_result \<Rightarrow> evidence" where
  "connect_evidence r = \<lparr>ev_path = path_taken r, ev_candidate = - 1, ev_attempts = [], ev_command = 0,
     ev_result = None, ev_counters = counts r\<rparr>"

definition authentication_evidence :: "authentication_result \<Rightarrow> evidence" where
  "authentication_evidence r = \<lparr>ev_path = res_connect_path r, ev_candidate = res_login_candidate r,
     ev_attempts = res_login_attempts r, ev_command = 0, ev_result = None, ev_counters = res_counters r\<rparr>"

definition stream_evidence :: "'a stream_probe_result_scheme \<Rightarrow> evidence" where
  "stream_evidence r = \<lparr>ev_path = res_connect_path r, ev_candidate = res_login_candidate r,
     ev_attempts = res_login_attempts r, ev_command = res_stream_start_command r,
     ev_result = res_stream_start_result r, ev_counters = res_counters r\<rparr>"

definition show_optional :: "string \<Rightarrow> int option \<Rightarrow> pystr" where
  "show_optional none i = (case i of None \<Rightarrow> str none | Some n \<Rightarrow> show_int n)"

fun join_with :: "pystr \<Rightarrow> pystr list \<Rightarrow> pystr" where
  "join_with sep [] = []"
| "join_with sep [s] = s"
| "join_with sep (s # t # ss) = s @ sep @ join_with sep (t # ss)"

definition diagnostic_line :: "evidence \<Rightarrow> pystr" where
  "diagnostic_line r =
     str ''transport_diagnostics '' @ join_with (str '' '')
       ([str ''connect_path='' @ (if ev_path r \<noteq> [] then ev_path r else str ''unknown''),
         str ''login_candidate='' @ show_int (ev_candidate r),
         str ''login_attempts='' @
           (let a = join_with (str '','') (map (show_optional ''none'') (ev_attempts r)) in
            if a \<noteq> [] then a else str ''-''),
         str ''stream_start_command='' @ show_int (ev_command r),
         str ''stream_start_result='' @ show_optional ''None'' (ev_result r)] @
        map (\<lambda>nv. fst nv @ 61 # show_int (snd nv)) (sort_key fst (ev_counters r)))"

section \<open>JPEG dimensions\<close>

definition start_of_frame :: "nat set" where
  "start_of_frame = {0xC0, 0xC1, 0xC2, 0xC3, 0xC5, 0xC6, 0xC7, 0xC9, 0xCA, 0xCB, 0xCD, 0xCE, 0xCF}"

definition byte_at :: "bytes \<Rightarrow> nat \<Rightarrow> nat" where
  "byte_at bs i = unat (bs ! i)"

text \<open>\<open>while offset < len(jpeg) and jpeg[offset] == 0xFF: offset += 1\<close>.\<close>

definition skip_fill :: "bytes \<Rightarrow> nat \<Rightarrow> nat" where
  "skip_fill jpeg offset = offset + length (takeWhile (\<lambda>b. b = 0xFF) (drop offset jpeg))"

text \<open>One round of the outer loop: \<open>Inl\<close> goes on at an offset, \<open>Inr None\<close> leaves the loop, and
  \<open>Inr (Some d)\<close> returns.\<close>

definition jpeg_round :: "bytes \<Rightarrow> nat \<Rightarrow> nat + (nat \<times> nat) option" where
  "jpeg_round jpeg offset =
     (if byte_at jpeg offset \<noteq> 0xFF then Inl (offset + 1)
      else
        let pos = skip_fill jpeg offset in
        if length jpeg \<le> pos then Inr None
        else
          let marker = byte_at jpeg pos; offset = pos + 1 in
          if marker \<in> {0x01, 0xD8, 0xD9} \<or> (0xD0 \<le> marker \<and> marker \<le> 0xD7) then Inl offset
          else if length jpeg < offset + 2 then Inr None
          else
            let segment_length = be_nat (pyslice offset (offset + 2) jpeg) in
            if segment_length < 2 \<or> length jpeg < offset + segment_length then Inr None
            else if marker \<in> start_of_frame \<and> 7 \<le> segment_length then
              let height = be_nat (pyslice (offset + 3) (offset + 5) jpeg);
                  width = be_nat (pyslice (offset + 5) (offset + 7) jpeg) in
              if 0 < width \<and> 0 < height then Inr (Some (width, height)) else Inr None
            else Inl (offset + segment_length))"

lemma jpeg_round_advances: "jpeg_round jpeg offset = Inl offset' \<Longrightarrow> offset < offset'"
  by (auto simp: jpeg_round_def Let_def skip_fill_def split: if_splits)

function jpeg_scan :: "bytes \<Rightarrow> nat \<Rightarrow> (nat \<times> nat) option" where
  "jpeg_scan jpeg offset =
     (if length jpeg < offset + 4 then None
      else case jpeg_round jpeg offset of
        Inl offset' \<Rightarrow> jpeg_scan jpeg offset'
      | Inr d \<Rightarrow> d)"
  by pat_completeness auto
termination
  by (relation "measure (\<lambda>(jpeg, offset). length jpeg - offset)") (auto dest: jpeg_round_advances)

declare jpeg_scan.simps [simp del]

definition jpeg_dimensions :: "bytes \<Rightarrow> exn + nat \<times> nat" where
  "jpeg_dimensions jpeg =
     (if length jpeg < 11 \<or> take 2 jpeg \<noteq> [0xFF, 0xD8]
      then Inl (P2PError ''native snapshot decoder returned invalid JPEG data'')
      else case jpeg_scan jpeg 2 of
        None \<Rightarrow> Inl (P2PError ''native snapshot decoder returned invalid JPEG data'')
      | Some d \<Rightarrow> Inr d)"

section \<open>The directory lookups\<close>

text \<open>Resolving the service parameter reveals and uses nothing of a device identifier but its
  four-byte family: two identifiers of admissible length with the same family get the same
  answer from the same directory.\<close>

theorem service_lookup_uses_family:
  assumes "4 \<le> length u" "length u \<le> 256" "4 \<le> length v" "length v \<le> 256" "take 4 u = take 4 v"
  shows "get_service_parameter db opener (JStr u) = get_service_parameter db opener (JStr v)"
  using assms by (simp add: get_service_parameter_def)

lemma not_alpha_decimal: "is_decimal db c \<Longrightarrow> \<not> ascii_alpha c"
  by (auto simp: is_decimal_def decimal_of_def ascii_digit_def ascii_alpha_def split: if_splits)

lemma newline_not_decimal: "\<not> is_decimal db 10"
  by (simp add: is_decimal_def decimal_of_def ascii_digit_def)

text \<open>The virtual-identifier test is the regular expression of the source: letters, then at
  least seven decimal digits, then anything but a newline, then a letter.\<close>

theorem virtual_id_pattern:
  "virtual_id db uid \<longleftrightarrow>
   (\<exists>a ds m z. uid = a @ ds @ m @ [z] \<and> a \<noteq> [] \<and> list_all ascii_alpha a \<and> 7 \<le> length ds \<and>
      list_all (is_decimal db) ds \<and> 10 \<notin> set m \<and> ascii_alpha z)"
  (is "_ \<longleftrightarrow> ?matches")
proof
  assume v: "virtual_id db uid"
  define rest where "rest = dropWhile ascii_alpha uid"
  define tail where "tail = drop 7 rest"
  from v have t: "tail \<noteq> []" "ascii_alpha (last tail)" "10 \<notin> set tail" "takeWhile ascii_alpha uid \<noteq> []"
    and seven: "7 \<le> length (takeWhile (is_decimal db) rest)"
    unfolding virtual_id_def Let_def rest_def [symmetric] tail_def [symmetric] by blast+
  have "list_all (is_decimal db) (take 7 (takeWhile (is_decimal db) rest))"
    by (auto simp: list_all_iff dest!: in_set_takeD set_takeWhileD)
  moreover have "take 7 (takeWhile (is_decimal db) rest) = take 7 rest"
    using seven by (metis append_eq_append_conv_if takeWhile_dropWhile_id take_append take0 append_Nil2 diff_is_0_eq)
  ultimately have "list_all (is_decimal db) (take 7 rest)" by simp
  moreover have "uid = takeWhile ascii_alpha uid @ take 7 rest @ butlast tail @ [last tail]"
    unfolding append_butlast_last_id [OF t(1)] by (simp add: rest_def tail_def)
  moreover have "7 \<le> length (take 7 rest)"
    using seven le_trans [OF seven length_takeWhile_le] by simp
  moreover have "list_all ascii_alpha (takeWhile ascii_alpha uid)"
    by (auto simp: list_all_iff dest: set_takeWhileD)
  ultimately show ?matches
    using t by (blast dest: in_set_butlastD)
next
  assume ?matches
  then obtain a ds m z where uid: "uid = a @ ds @ m @ [z]" and a: "a \<noteq> []" "list_all ascii_alpha a"
    and ds: "7 \<le> length ds" "list_all (is_decimal db) ds" and m: "10 \<notin> set m" "ascii_alpha z"
    by blast
  have "ds \<noteq> []" using ds(1) by auto
  then have "\<not> ascii_alpha (hd ds)"
    using ds(2) by (simp add: list_all_iff not_alpha_decimal [of db])
  with \<open>ds \<noteq> []\<close> have split: "takeWhile ascii_alpha uid = a" "dropWhile ascii_alpha uid = ds @ m @ [z]"
    using a(2) by (cases ds; simp add: uid list_all_iff takeWhile_append2 dropWhile_append2)+
  have "takeWhile (is_decimal db) (ds @ m @ [z]) = ds @ takeWhile (is_decimal db) (m @ [z])"
    using ds(2) by (simp add: list_all_iff)
  moreover have "10 \<notin> set (drop 7 ds)"
    using ds(2) newline_not_decimal [of db] by (auto simp: list_all_iff dest: in_set_dropD)
  moreover have "z \<noteq> 10" using m(2) by (auto simp: ascii_alpha_def)
  ultimately show "virtual_id db uid"
    using a ds m by (simp add: virtual_id_def Let_def split)
qed

section \<open>JPEG headers\<close>

text \<open>
  What a decoder may emit before the frame header: runs of bytes that are not \<open>0xFF\<close>, standalone
  markers, and segments that declare their length.
\<close>

datatype jpeg_part =
    Filler byte
  | Standalone nat byte
  | Segment nat byte bytes

fun part_bytes :: "jpeg_part \<Rightarrow> bytes" where
  "part_bytes (Filler b) = [b]"
| "part_bytes (Standalone k m) = replicate (Suc k) 0xFF @ [m]"
| "part_bytes (Segment k m d) = replicate (Suc k) 0xFF @ m # be_bytes 2 (length d + 2) @ d"

definition standalone_marker :: "byte \<Rightarrow> bool" where
  "standalone_marker m \<longleftrightarrow> unat m \<in> {0x01, 0xD8, 0xD9} \<or> (0xD0 \<le> unat m \<and> unat m \<le> 0xD7)"

fun part_ok :: "jpeg_part \<Rightarrow> bool" where
  "part_ok (Filler b) = (b \<noteq> 0xFF)"
| "part_ok (Standalone k m) = standalone_marker m"
| "part_ok (Segment k m d) = (m \<noteq> 0xFF \<and> \<not> standalone_marker m \<and> length d < 65534 \<and>
     (unat m \<notin> start_of_frame \<or> length d < 5))"

definition frame_bytes :: "nat \<Rightarrow> byte \<Rightarrow> byte \<Rightarrow> nat \<Rightarrow> nat \<Rightarrow> bytes \<Rightarrow> bytes" where
  "frame_bytes k m precision width height d =
     replicate (Suc k) 0xFF @ m # be_bytes 2 (length d + 7) @ precision # be_bytes 2 height @
     be_bytes 2 width @ d"

lemma takeWhile_run: "m \<noteq> x \<Longrightarrow> takeWhile (\<lambda>b. b = x) (replicate k x @ m # r) = replicate k x"
  by (induction k) auto

lemma skip_fill_run:
  assumes "length pre = offset" "m \<noteq> 0xFF"
  shows "skip_fill (pre @ replicate k 0xFF @ m # r) offset = offset + k"
  using assms by (simp add: skip_fill_def takeWhile_run)

lemma byte_at_append: "length pre = i \<Longrightarrow> byte_at (pre @ b # r) i = unat b"
  by (simp add: byte_at_def nth_append)

lemma be_nat_pair: "n < 65536 \<Longrightarrow> be_nat (be_bytes 2 n) = n"
  by (simp add: be_nat_be_bytes)

lemma standalone_not_fill: "standalone_marker m \<Longrightarrow> m \<noteq> 0xFF"
  by (auto simp: standalone_marker_def)

lemma start_not_standalone:
  "unat m \<in> start_of_frame \<Longrightarrow> m \<noteq> 0xFF \<and> \<not> standalone_marker m"
  by (auto simp: standalone_marker_def start_of_frame_def)

lemma round_marker:
  assumes "length pre = offset" "m \<noteq> 0xFF"
  shows "jpeg_round (pre @ replicate (Suc k) 0xFF @ m # r) offset =
    (if standalone_marker m then Inl (offset + k + 2)
     else if length r < 2 then Inr None
     else
       let n = be_nat (take 2 r) in
       if n < 2 \<or> length r < n then Inr None
       else if unat m \<in> start_of_frame \<and> 7 \<le> n then
         let height = be_nat (pyslice 3 5 r); width = be_nat (pyslice 5 7 r) in
         if 0 < width \<and> 0 < height then Inr (Some (width, height)) else Inr None
       else Inl (offset + k + 2 + n))"
proof -
  define j where "j = pre @ replicate (Suc k) 0xFF @ m # r"
  have f: "skip_fill j offset = offset + Suc k" unfolding j_def by (rule skip_fill_run [OF assms])
  have b: "byte_at j offset = 0xFF"
    using byte_at_append [OF assms(1), of "0xFF" "replicate k 0xFF @ m # r"] by (simp add: j_def)
  have c: "byte_at j (offset + Suc k) = unat m"
    using byte_at_append [of "pre @ replicate (Suc k) 0xFF" "offset + Suc k" m r] assms(1)
    by (simp add: j_def)
  have d: "pyslice (offset + Suc k + 1 + x) (offset + Suc k + 1 + y) j = pyslice x y r" for x y
    using pyslice_append_right [of "pre @ replicate (Suc k) 0xFF @ [m]" "offset + Suc k + 1 + x" "offset + Suc k + 1 + y" r]
      assms(1) by (simp add: j_def)
  have e: "pyslice (offset + Suc k + 1) (offset + Suc k + 1 + 2) j = take 2 r"
    using d [of 0 2] by (simp add: pyslice_def)
  have l: "length j = offset + k + 2 + length r" using assms(1) by (simp add: j_def)
  have "jpeg_round j offset =
    (if standalone_marker m then Inl (offset + Suc k + 1)
     else if length j < offset + Suc k + 1 + 2 then Inr None
     else
       let n = be_nat (take 2 r) in
       if n < 2 \<or> length j < offset + Suc k + 1 + n then Inr None
       else if unat m \<in> start_of_frame \<and> 7 \<le> n then
         let height = be_nat (pyslice 3 5 r); width = be_nat (pyslice 5 7 r) in
         if 0 < width \<and> 0 < height then Inr (Some (width, height)) else Inr None
       else Inl (offset + Suc k + 1 + n))"
    unfolding jpeg_round_def Let_def b f c d e standalone_marker_def using l by (simp only: if_False not_True_eq_False simp_thms) auto
  then show ?thesis unfolding j_def [symmetric] by (simp add: l Let_def)
qed

lemma scan_step:
  "offset + 4 \<le> length j \<Longrightarrow> jpeg_round j offset = Inl o' \<Longrightarrow> jpeg_scan j offset = jpeg_scan j o'"
  by (simp add: jpeg_scan.simps [of j offset])

lemma scan_part:
  assumes "part_ok p" "4 \<le> length r" "length pre = offset"
  shows "jpeg_scan (pre @ part_bytes p @ r) offset =
    jpeg_scan (pre @ part_bytes p @ r) (offset + length (part_bytes p))"
proof (cases p)
  case (Filler b)
  then have "byte_at (pre @ part_bytes p @ r) offset \<noteq> 0xFF"
    using assms byte_at_append [OF assms(3), of b r] unat_eq_nat_uint
    by (auto simp: word_unat_eq_iff)
  then show ?thesis
    using assms Filler by (intro scan_step) (auto simp: jpeg_round_def)
next
  case (Standalone k m)
  then have "m \<noteq> 0xFF" "standalone_marker m" using assms(1) standalone_not_fill by auto
  with round_marker [OF assms(3), of m k r] show ?thesis
    using assms Standalone by (intro scan_step) auto
next
  case (Segment k m d)
  let ?t = "be_bytes 2 (length d + 2) @ d @ r"
  have m: "m \<noteq> 0xFF" "\<not> standalone_marker m" and d: "length d < 65534"
    and s: "unat m \<notin> start_of_frame \<or> length d < 5"
    using assms(1) Segment by auto
  have n: "be_nat (take 2 ?t) = length d + 2"
    using d by (simp add: be_nat_pair)
  have "jpeg_round (pre @ replicate (Suc k) 0xFF @ m # ?t) offset = Inl (offset + k + 2 + (length d + 2))"
    unfolding round_marker [OF assms(3) m(1)] n using m s by (auto simp: Let_def)
  then show ?thesis
    using assms Segment by (intro scan_step) (auto simp: algebra_simps)
qed

lemma scan_parts:
  assumes "\<forall>p \<in> set ps. part_ok p" "4 \<le> length r" "length pre = offset"
  shows "jpeg_scan (pre @ concat (map part_bytes ps) @ r) offset =
    jpeg_scan (pre @ concat (map part_bytes ps) @ r) (offset + length (concat (map part_bytes ps)))"
  using assms
proof (induction ps arbitrary: pre offset)
  case (Cons p ps)
  have "jpeg_scan (pre @ part_bytes p @ concat (map part_bytes ps) @ r) offset =
    jpeg_scan (pre @ part_bytes p @ concat (map part_bytes ps) @ r) (offset + length (part_bytes p))"
    using Cons.prems by (intro scan_part) auto
  also have "\<dots> = jpeg_scan ((pre @ part_bytes p) @ concat (map part_bytes ps) @ r)
    (offset + length (part_bytes p) + length (concat (map part_bytes ps)))"
    using Cons.prems by (subst append_assoc [symmetric], intro Cons.IH) auto
  finally show ?case by (simp add: add.assoc)
qed simp

lemma scan_frame:
  assumes "length pre = offset" "unat m \<in> start_of_frame" "0 < width" "width < 65536" "0 < height"
    "height < 65536" "length d < 65529"
  shows "jpeg_scan (pre @ frame_bytes k m precision width height d @ r) offset = Some (width, height)"
proof -
  let ?t = "be_bytes 2 (length d + 7) @ precision # be_bytes 2 height @ be_bytes 2 width @ d @ r"
  have m: "m \<noteq> 0xFF" "\<not> standalone_marker m" using start_not_standalone [OF assms(2)] by auto
  have n: "be_nat (take 2 ?t) = length d + 7"
    using assms by (simp add: be_nat_pair)
  have h: "pyslice 3 5 ?t = be_bytes 2 height" "pyslice 5 7 ?t = be_bytes 2 width"
    by (simp_all add: pyslice_def numeral_eq_Suc)
  have "jpeg_round (pre @ replicate (Suc k) 0xFF @ m # ?t) offset = Inr (Some (width, height))"
    unfolding round_marker [OF assms(1) m(1)] n h using m assms by (auto simp: Let_def be_nat_pair)
  then show ?thesis
    using assms by (subst jpeg_scan.simps) (simp add: frame_bytes_def)
qed

lemma jpeg_found:
  assumes "\<forall>p \<in> set ps. part_ok p" "unat m \<in> start_of_frame" "0 < width" "width < 65536" "0 < height"
    "height < 65536" "length d < 65529"
  shows "jpeg_dimensions ([0xFF, 0xD8] @ concat (map part_bytes ps) @
      frame_bytes k m precision width height d @ r) = Inr (width, height)"
proof -
  let ?f = "frame_bytes k m precision width height d @ r" and ?c = "concat (map part_bytes ps)"
  have "9 \<le> length ?f" by (simp add: frame_bytes_def)
  then have "jpeg_scan ([0xFF, 0xD8] @ ?c @ ?f) 2 = jpeg_scan (([0xFF, 0xD8] @ ?c) @ ?f) (2 + length ?c)"
    using scan_parts [OF assms(1), of ?f "[0xFF, 0xD8]" 2] by simp
  also have "\<dots> = Some (width, height)"
    using assms by (intro scan_frame) auto
  finally have "jpeg_scan ([0xFF, 0xD8] @ ?c @ ?f) 2 = Some (width, height)" .
  then show ?thesis using \<open>9 \<le> length ?f\<close> by (simp add: jpeg_dimensions_def)
qed

text \<open>The JPEG scanner finds the frame header behind any sequence of filler bytes, standalone
  markers and other segments, each with any number of fill bytes, and reads the width and the
  height of every non-empty picture from it.\<close>

theorem jpeg_frame_found:
  assumes "\<forall>p \<in> set ps. part_ok p" "unat m \<in> start_of_frame" "0 < width" "width < 65536" "0 < height"
    "height < 65536" "length d < 65529"
  shows "jpeg_dimensions ([0xFF, 0xD8] @ concat (map part_bytes ps) @
      frame_bytes k m precision width height d @ r) = Inr (width, height)"
  by (rule jpeg_found [OF assms])

theorem jpeg_frame_found_witness:
  "jpeg_dimensions ([0xFF, 0xD8] @ concat (map part_bytes [Segment 0 0xE0 [1, 2], Filler 7, Standalone 1 0x01]) @
     frame_bytes 0 0xC0 8 640 360 [3] @ [9]) = Inr (640, 360)"
  by (rule jpeg_frame_found) (simp_all add: standalone_marker_def start_of_frame_def)

definition frame_at :: "bytes \<Rightarrow> nat \<Rightarrow> nat \<Rightarrow> nat \<Rightarrow> bool" where
  "frame_at jpeg pos width height \<longleftrightarrow>
     0 < pos \<and> pos + 8 \<le> length jpeg \<and> byte_at jpeg (pos - 1) = 0xFF \<and> byte_at jpeg pos \<in> start_of_frame \<and>
     height = be_nat (pyslice (pos + 1 + 3) (pos + 1 + 5) jpeg) \<and>
     width = be_nat (pyslice (pos + 1 + 5) (pos + 1 + 7) jpeg)"

lemma skip_fill_ends:
  assumes "offset < length j" "byte_at j offset = 0xFF"
  shows "offset < skip_fill j offset" "byte_at j (skip_fill j offset - 1) = 0xFF"
proof -
  let ?n = "length (takeWhile (\<lambda>b. b = 0xFF) (drop offset j))"
  have "j ! offset = 0xFF" using assms(2) by (simp add: byte_at_def word_unat_eq_iff)
  then have "0 < ?n" using assms(1) by (simp add: Cons_nth_drop_Suc [symmetric])
  moreover from this have "drop offset j ! (?n - 1) = 0xFF"
    using nth_mem [of "?n - 1" "takeWhile (\<lambda>b. b = 0xFF) (drop offset j)"]
    by (auto simp: takeWhile_nth dest: set_takeWhileD)
  moreover from calculation(1) have "skip_fill j offset - 1 = offset + (?n - 1)"
    unfolding skip_fill_def by linarith
  ultimately show "offset < skip_fill j offset" "byte_at j (skip_fill j offset - 1) = 0xFF"
    using assms(1) by (simp_all add: skip_fill_def byte_at_def)
qed

lemma round_frame:
  assumes "jpeg_round j offset = Inr (Some (width, height))" "offset < length j"
  shows "0 < width \<and> 0 < height \<and> frame_at j (skip_fill j offset) width height"
proof -
  have b: "byte_at j offset = 0xFF" using assms(1) by (auto simp: jpeg_round_def split: if_splits)
  define pos where "pos = skip_fill j offset"
  note e = skip_fill_ends [OF assms(2) b, folded pos_def]
  from assms(1) show ?thesis
    unfolding jpeg_round_def Let_def pos_def [symmetric] frame_at_def
    using e by (auto split: if_splits)
qed

lemma scan_found:
  "jpeg_scan j offset = Some (width, height) \<Longrightarrow>
   0 < width \<and> 0 < height \<and> (\<exists>pos. frame_at j pos width height)"
proof (induction j offset rule: jpeg_scan.induct)
  case (1 j offset)
  show ?case
  proof (cases "jpeg_round j offset")
    case (Inl o')
    with 1 show ?thesis using jpeg_scan.simps [of j offset] by (auto split: if_splits)
  next
    case (Inr d)
    with 1(2) have "d = Some (width, height)" "offset < length j"
      using jpeg_scan.simps [of j offset] by (auto split: if_splits)
    with Inr round_frame [of j offset] show ?thesis by blast
  qed
qed

lemma frame_at_bounds: "frame_at j pos width height \<Longrightarrow> width < 65536 \<and> height < 65536"
proof -
  assume f: "frame_at j pos width height"
  then have "length (pyslice (pos + 1 + 3) (pos + 1 + 5) j) = 2"
    "length (pyslice (pos + 1 + 5) (pos + 1 + 7) j) = 2"
    by (auto simp: frame_at_def min_def)
  then show ?thesis
    using f be_nat_bound [of "pyslice (pos + 1 + 3) (pos + 1 + 5) j"]
      be_nat_bound [of "pyslice (pos + 1 + 5) (pos + 1 + 7) j"]
    by (simp only: frame_at_def) simp
qed

text \<open>Dimensions are only ever reported from inside the data: a start-of-frame segment lies
  completely within the bytes, and both numbers are positive 16-bit values read from it.\<close>

theorem jpeg_dimensions_bounded:
  assumes "jpeg_dimensions jpeg = Inr (width, height)"
  shows "0 < width \<and> width < 65536 \<and> 0 < height \<and> height < 65536 \<and>
    (\<exists>pos. frame_at jpeg pos width height)"
  using assms scan_found [of jpeg 2 width height] frame_at_bounds
  by (auto simp: jpeg_dimensions_def split: if_splits option.splits)

theorem jpeg_dimensions_bounded_witness:
  "\<exists>pos. frame_at ([0xFF, 0xD8] @ frame_bytes 0 0xC0 8 640 360 []) pos 640 360"
  using jpeg_dimensions_bounded [of "[0xFF, 0xD8] @ frame_bytes 0 0xC0 8 640 360 []" 640 360]
    jpeg_found [of "[]" "0xC0" 640 360 "[]" 0 8 "[]"]
  by (simp add: start_of_frame_def)

section \<open>Diagnostics and results\<close>

lemma optional_default: "(case x of None \<Rightarrow> d | Some y \<Rightarrow> y) = (if x = None then d else the x)"
  by (cases x) auto

definition counts_ok :: "(pystr \<times> int) list \<Rightarrow> bool" where
  "counts_ok c \<longleftrightarrow> length c \<le> 64 \<and> list_all (\<lambda>nv. short_ascii 64 (fst nv) \<and> 0 \<le> snd nv) c"

lemma diagnostics_items:
  "connect_path_item (read_diagnostics j) = Some p \<Longrightarrow> short_ascii 32 p"
  "login_attempts_item (read_diagnostics j) = Some a \<Longrightarrow> length a \<le> 8"
  "counters_item (read_diagnostics j) = Some c \<Longrightarrow> counts_ok c"
  by (fastforce simp: read_diagnostics_def counts_ok_def counter_ok_def list_all_iff
    split: json.splits if_splits)+

lemma stream_result_shape:
  assumes "stream_result payload code = Inr r"
  obtains d where "payload = JObj d" "bools_in d stream_bools" "ints_in d stream_ints"
    "0 \<le> int_at d ''h264_frames''" "0 \<le> int_at d ''h264_bytes''" "0 \<le> int_at d ''h265_frames''"
    "code \<in> {0, 4, 5, 6}"
    "r = authentication_result.extend (authentication_fields d (read_stream_diagnostics payload))
          (stream_probe_result.fields (bool_at d ''stream_start_sent'')
            (bool_at d ''stream_stop_sent'') (bool_at d ''h264_received'') (int_at d ''h264_frames'')
            (int_at d ''h264_bytes'') (bool_at d ''keyframe_seen'') (int_at d ''h265_frames'')
            (case start_command_item (read_stream_diagnostics payload) of None \<Rightarrow> 0 | Some n \<Rightarrow> n)
            (start_result_item (read_stream_diagnostics payload)))"
proof (cases payload)
  case (JObj d)
  with assms show ?thesis
    by (intro that [of d]) (auto simp: stream_result_def Let_def not_less split: if_splits)
qed (use assms in \<open>simp_all add: stream_result_def\<close>)

lemma stream_items [simp]:
  "connect_path_item (read_stream_diagnostics j) = connect_path_item (read_diagnostics j)"
  "login_candidate_item (read_stream_diagnostics j) = login_candidate_item (read_diagnostics j)"
  "login_attempts_item (read_stream_diagnostics j) = login_attempts_item (read_diagnostics j)"
  "counters_item (read_stream_diagnostics j) = counters_item (read_diagnostics j)"
  by (simp_all add: read_stream_diagnostics_def diagnostics.extend_def)

text \<open>C22: Whatever a helper prints, an accepted result is well typed: the transport path is at most
  32 ASCII characters, there are at most eight login attempts and at most 64 counters, each under
  an ASCII name of at most 64 characters with a count that is not negative, and no frame or byte
  count is negative.\<close>

theorem stream_result_typed:
  assumes "stream_result payload code = Inr r"
  shows "short_ascii 32 (res_connect_path r) \<and> length (res_login_attempts r) \<le> 8 \<and>
    counts_ok (res_counters r) \<and> 0 \<le> res_h264_frames r \<and> 0 \<le> res_h264_bytes r \<and>
    0 \<le> res_h265_frames r \<and> code \<in> {0, 4, 5, 6}"
  using assms
proof (cases rule: stream_result_shape)
  case (1 d)
  let ?g = "read_diagnostics payload"
  have "short_ascii 32 (case connect_path_item ?g of None \<Rightarrow> [] | Some p \<Rightarrow> p)"
    by (auto simp: diagnostics_items short_ascii_def ascii_str_def split: option.split dest!: diagnostics_items(1))
  moreover have "length (case login_attempts_item ?g of None \<Rightarrow> [] | Some p \<Rightarrow> p) \<le> 8"
    by (auto split: option.split dest: diagnostics_items(2))
  moreover have "counts_ok (case counters_item ?g of None \<Rightarrow> [] | Some p \<Rightarrow> p)"
    by (auto simp: counts_ok_def [of "[]"] split: option.split dest: diagnostics_items(3))
  ultimately show ?thesis
    using 1 by (simp add: authentication_result.extend_def stream_probe_result.fields_def authentication_fields_def)
qed

section \<open>The log line is plain ASCII\<close>

lemma ascii_join: "ascii_str sep \<Longrightarrow> list_all ascii_str xs \<Longrightarrow> ascii_str (join_with sep xs)"
  by (induction sep xs rule: join_with.induct) auto

lemma diagnostic_line_ascii:
  assumes "ascii_str (ev_path r)" "list_all (\<lambda>nv. ascii_str (fst nv)) (ev_counters r)"
  shows "ascii_str (diagnostic_line r)"
proof -
  have o: "ascii_str (show_optional s i)" if "ascii_str (str s)" for s i
    using that by (simp add: show_optional_def split: option.split)
  have s: "ascii_str (str '','')" "ascii_str (str '' '')" "ascii_str (str ''none'')" "ascii_str (str ''None'')"
    "ascii_str (str ''-'')" "ascii_str (str ''unknown'')" "ascii_str (str ''connect_path='')"
    "ascii_str (str ''login_candidate='')" "ascii_str (str ''login_attempts='')"
    "ascii_str (str ''stream_start_command='')" "ascii_str (str ''stream_start_result='')"
    "ascii_str (str ''transport_diagnostics '')"
    by (simp_all add: str_def)
  have a: "ascii_str (join_with (str '','') (map (show_optional ''none'') xs))" for xs
    using s o by (intro ascii_join) (simp_all add: list_all_iff)
  show ?thesis
    unfolding diagnostic_line_def Let_def using assms s a o
    by (auto intro!: ascii_join simp: list_all_iff)
qed

text \<open>The transport line that is logged for any accepted stream result is pure ASCII, whatever the
  helper reported.\<close>

theorem logged_line_ascii:
  assumes "stream_result payload code = Inr r"
  shows "ascii_str (diagnostic_line (stream_evidence r))"
  using assms
proof (cases rule: stream_result_shape)
  case (1 d)
  have "ascii_str (case connect_path_item (read_diagnostics payload) of None \<Rightarrow> [] | Some p \<Rightarrow> p)"
    by (auto simp: short_ascii_def split: option.split dest!: diagnostics_items(1))
  moreover have "list_all (\<lambda>nv. ascii_str (fst nv)) (case counters_item (read_diagnostics payload) of None \<Rightarrow> [] | Some p \<Rightarrow> p)"
    by (fastforce simp: counts_ok_def short_ascii_def list_all_iff split: option.split
      dest!: diagnostics_items(3) [OF sym])
  ultimately show ?thesis
    using 1 by (intro diagnostic_line_ascii) (simp_all add: stream_evidence_def
      authentication_result.extend_def stream_probe_result.fields_def authentication_fields_def)
qed

section \<open>Errors of the connect probe\<close>

lemma p2p_field_errors:
  "p2p_field v = Inl e \<Longrightarrow> (\<exists>m. e = P2PError m) \<or> (e = UnicodeError \<and> \<not> scalar_str v)"
  by (auto simp: p2p_field_def sbind_eq_Inl encode_utf8_def split: if_splits)

lemma fields_input_errors:
  "fields_input vs = Inl e \<Longrightarrow> (\<exists>m. e = P2PError m) \<or> (e = UnicodeError \<and> (\<exists>v \<in> set vs. \<not> scalar_str v))"
  by (induction vs) (auto simp: sbind_eq_Inl dest: p2p_field_errors)

lemma run_helper_errors:
  assumes "run_helper a b run call = Inl e" "\<And>e. run call = Inl e \<Longrightarrow> e = OSError \<or> is_subprocess_error e"
  shows "(\<exists>m. e = P2PError m) \<or>
    (e = ValueError \<and> (\<exists>code out. run call = Inr (code, out) \<and> json_loads_utf8 out = Inl ValueError))"
  using assms json_loads_utf8_error
  by (fastforce simp: run_helper_def split: sum.splits prod.splits if_splits)

text \<open>Running the connect probe fails only with a sanitised \<open>P2PError\<close>, with three exceptions: a
  lone surrogate in an input, an integer of more than 4300 digits in the helper's output, and
  output that is JSON but not an object, for which \<open>payload.get\<close> raises \<open>AttributeError\<close>.\<close>

theorem connect_probe_errors:
  assumes "run_connect_probe run helper library uid service env timeout = Inl e"
    "\<And>call e. run call = Inl e \<Longrightarrow> e = OSError \<or> is_subprocess_error e"
  shows "(\<exists>m. e = P2PError m) \<or> (e = UnicodeError \<and> \<not> (scalar_str uid \<and> scalar_str service)) \<or>
    (\<exists>call code out. run call = Inr (code, out) \<and>
      ((e = ValueError \<and> json_loads_utf8 out = Inl ValueError) \<or>
       (e = AttributeError \<and> (\<exists>j. json_loads_utf8 out = Inr j \<and> as_obj j = None))))"
proof (cases "fields_input [uid, service]")
  case (Inl e')
  with assms(1) fields_input_errors [OF Inl] show ?thesis
    by (auto simp: run_connect_probe_def)
next
  case (Inr stdin)
  let ?call = "\<lparr>command_line = [helper, library], stdin_bytes = stdin, environment = env, time_limit = timeout\<rparr>"
  let ?h = "run_helper ''native P2P helper failed'' ''native P2P helper returned an invalid response'' run ?call"
  show ?thesis
  proof (cases ?h)
    case h: (Inl e')
    with assms(1) Inr have "e' = e" by (simp add: run_connect_probe_def)
    moreover have "(\<exists>m. e' = P2PError m) \<or>
      (e' = ValueError \<and> (\<exists>code out. run ?call = Inr (code, out) \<and> json_loads_utf8 out = Inl ValueError))"
      using run_helper_errors [OF h assms(2)] .
    ultimately show ?thesis by metis
  next
    case h: (Inr cp)
    obtain code payload where cp: "cp = (code, payload)" by (cases cp)
    show ?thesis
    proof (cases "as_obj payload")
      case None
      from h cp obtain out where o: "run ?call = Inr (code, out)" "json_loads_utf8 out = Inr payload"
        by (auto simp: run_helper_def split: sum.splits prod.splits if_splits)
      moreover from None have "members payload = Inl AttributeError"
        by (cases payload) (simp_all add: members_def)
      then have "e = AttributeError"
        using assms(1) Inr h cp by (simp add: run_connect_probe_def)
      ultimately show ?thesis using None by blast
    next
      case (Some d)
      then have "payload = JObj d" by (cases payload) auto
      with assms(1) Inr h cp show ?thesis
        by (auto simp: run_connect_probe_def members_def Let_def split: if_splits)
    qed
  qed
qed

lemma empty_list_output: "json_loads_utf8 [91, 93] = Inr (JList [])"
  using json_loads_encoded [of "JList []"] by simp

lemma connect_probe_crash:
  "run_connect_probe (\<lambda>call. Inr (0, [91, 93])) (str ''helper'') (str ''lib'') (str ''ABCD'')
     (str ''EFGH'') [] 55 = Inl AttributeError"
  by (simp add: run_connect_probe_def run_helper_def empty_list_output members_def p2p_field_def
    encode_utf8_def scalar_str_def str_def is_surrogate_def utf8_bytes_def)

theorem connect_probe_errors_witness:
  "\<exists>call code out. (\<lambda>call. Inr (0, [91, 93]) :: exn + int \<times> bytes) call = Inr (code, out) \<and>
     as_obj (projr (json_loads_utf8 out)) = None"
  using connect_probe_errors [OF connect_probe_crash] empty_list_output by auto

theorem service_lookup_uses_family_witness:
  "get_service_parameter db opener (JStr (str ''VSTH123456'')) = get_service_parameter db opener (JStr (str ''VSTH999''))"
  by (rule service_lookup_uses_family) (simp_all add: str_def)

definition sample_output :: json where
  "sample_output = JObj
     ([(str ''connect_path'', JStr (str ''lan'')), (str ''connect_state'', JInt 3), (str ''login_command'', JInt 0),
       (str ''login_result'', JInt 0), (str ''h264_frames'', JInt 3), (str ''h264_bytes'', JInt 2048),
       (str ''h265_frames'', JInt 0), (str ''login_attempts'', JList [JInt 0]),
       (str ''counters'', JObj [(str ''rx_total'', JInt 9)])] @
      map (\<lambda>n. (str n, JBool True)) stream_bools)"

lemma sample_accepted: "\<exists>r. stream_result sample_output 0 = Inr r"
  by (simp add: stream_result_def sample_output_def bools_in_def ints_in_def stream_bools_def
    stream_ints_def int_at_def Let_def)

theorem stream_result_typed_witness:
  "counts_ok (res_counters (projr (stream_result sample_output 0)))"
  using stream_result_typed [of sample_output 0 "projr (stream_result sample_output 0)"] sample_accepted
  by auto

theorem logged_line_ascii_witness:
  "ascii_str (diagnostic_line (stream_evidence (projr (stream_result sample_output 0))))"
  using logged_line_ascii [of sample_output 0 "projr (stream_result sample_output 0)"] sample_accepted
  by auto

end
