(* ===== verification/Helper.thy ===== *)
theory Helper
  imports CS2_Command CS2_Connect P2P
begin

text \<open>
  The native helper (\<open>okam_native/amd64_helper.py\<close>): its input fields, the summary it prints, one run
  of a probe stage over a session, and its command line. The run is written over an abstract device,
  the operations of a session it uses, and instantiated with the CS2 session; the locale
  \<open>closing_device\<close> is the contract it needs. Signals, and the pipe that frames are written to, are
  scripts: a signal may have arrived before each test of \<open>_running\<close>, and each write may fail after
  some bytes.
\<close>

section \<open>Input fields\<close>

text \<open>What is left of the standard input; \<open>read(n)\<close> of a pipe gives fewer bytes only at its end.\<close>

definition read_input :: "nat \<Rightarrow> (bytes, bytes) eff" where
  "read_input n = (\<lambda>s. (Ret (take n s), drop n s))"

definition input_invalid :: exn where
  "input_invalid = CS2Error ''native P2P input is invalid''"

definition read_field :: "(bytes, pystr) eff" where
  "read_field =
     bind (read_input 4) (\<lambda>size_bytes.
     if length size_bytes \<noteq> 4 then raise input_invalid
     else
       let size = be_nat size_bytes in
       if \<not> (0 < size \<and> size \<le> 4096) then raise input_invalid
       else
         bind (read_input size) (\<lambda>v.
         if length v \<noteq> size \<or> list_ex (\<lambda>b. unat b < 0x20) v then raise input_invalid
         else case decode_utf8 v of
           Inl e \<Rightarrow> raise (if e = UnicodeError then input_invalid else e)
         | Inr text \<Rightarrow> ret text))"

section \<open>The summary\<close>

record summary =
  s_connected :: bool
  s_connect_state :: int
  s_login_sent :: bool
  s_login_response_received :: bool
  s_authenticated :: bool
  s_login_command :: int
  s_login_result :: int
  s_login_candidate :: int
  s_login_attempts :: "int option list"
  s_connect_path :: string
  s_counters :: "(string \<times> nat) list"
  s_stream_start_command :: int
  s_stream_start_result :: int
  s_stream_start_sent :: bool
  s_stream_stop_sent :: bool
  s_h264_received :: bool
  s_h264_frames :: nat
  s_h264_bytes :: nat
  s_keyframe_seen :: bool
  s_h265_frames :: nat
  s_disconnected :: bool

definition default_summary :: summary where
  "default_summary =
     \<lparr>s_connected = False, s_connect_state = - 1, s_login_sent = False, s_login_response_received = False,
      s_authenticated = False, s_login_command = 0, s_login_result = - 1, s_login_candidate = - 1,
      s_login_attempts = [], s_connect_path = '''', s_counters = [], s_stream_start_command = 0,
      s_stream_start_result = - 1, s_stream_start_sent = False, s_stream_stop_sent = False,
      s_h264_received = False, s_h264_frames = 0, s_h264_bytes = 0, s_keyframe_seen = False,
      s_h265_frames = 0, s_disconnected = False\<rparr>"

definition attempt_json :: "int option \<Rightarrow> json" where
  "attempt_json a = (case a of None \<Rightarrow> JNull | Some n \<Rightarrow> JInt n)"

text \<open>The dictionary, in the order of its keys (\<open>sort_keys=True\<close>), as is the one of the counters.\<close>

definition summary_json :: "summary \<Rightarrow> json" where
  "summary_json r = JObj
     [(str ''authenticated'', JBool (s_authenticated r)),
      (str ''connect_path'', JStr (str (s_connect_path r))),
      (str ''connect_state'', JInt (s_connect_state r)),
      (str ''connected'', JBool (s_connected r)),
      (str ''counters'', JObj (sort_key fst (map (\<lambda>nv. (str (fst nv), JInt (int (snd nv)))) (s_counters r)))),
      (str ''disconnected'', JBool (s_disconnected r)),
      (str ''h264_bytes'', JInt (int (s_h264_bytes r))),
      (str ''h264_frames'', JInt (int (s_h264_frames r))),
      (str ''h264_received'', JBool (s_h264_received r)),
      (str ''h265_frames'', JInt (int (s_h265_frames r))),
      (str ''keyframe_seen'', JBool (s_keyframe_seen r)),
      (str ''login_attempts'', JList (map attempt_json (s_login_attempts r))),
      (str ''login_candidate'', JInt (s_login_candidate r)),
      (str ''login_command'', JInt (s_login_command r)),
      (str ''login_response_received'', JBool (s_login_response_received r)),
      (str ''login_result'', JInt (s_login_result r)),
      (str ''login_sent'', JBool (s_login_sent r)),
      (str ''stream_start_command'', JInt (s_stream_start_command r)),
      (str ''stream_start_result'', JInt (s_stream_start_result r)),
      (str ''stream_start_sent'', JBool (s_stream_start_sent r)),
      (str ''stream_stop_sent'', JBool (s_stream_stop_sent r))]"

section \<open>A device\<close>

record 's device = "'s transport" +
  dv_connect :: "rat \<Rightarrow> ('s, unit) eff"
  dv_close :: "('s, bool) eff"
  dv_path :: "'s \<Rightarrow> string"
  dv_counters :: "'s \<Rightarrow> (string \<times> nat) list"

definition cs2_device :: "socket_open \<Rightarrow> pystr option \<Rightarrow> cs2 device" where
  "cs2_device opened route = transport.extend cs2_transport
     (device.fields (connect opened route) close_session connect_path counters)"

text \<open>The helper's own state: the summary under construction, the local variables \<open>accepted_user\<close> and
  \<open>accepted_password\<close>, the value of \<open>_running\<close> at each test of the loop, the outcome of each write to
  the standard output (after how many bytes it failed, if it did), and what has been written.\<close>

record helper =
  result :: summary
  accepted :: "pystr \<times> pystr"
  running :: "bool list"
  write_errors :: "nat option list"
  stdout_bytes :: bytes

datatype mode = Connect_Only | Authenticate | Stream_Test | Stream_Stdout

definition update :: "(summary \<Rightarrow> summary) \<Rightarrow> ('s \<times> helper, unit) eff" where
  "update f = on_snd (modify (result_update f))"

definition the_result :: "('s \<times> helper, summary) eff" where
  "the_result = on_snd (gets result)"

definition finish_run :: "'s device \<Rightarrow> int \<Rightarrow> ('s \<times> helper, int \<times> summary) eff" where
  "finish_run D code =
     bind (on_fst (gets (dv_counters D))) (\<lambda>cs.
     seq (update (s_counters_update (\<lambda>_. sort_key (\<lambda>nv. str (fst nv)) cs)))
     (bind the_result (\<lambda>r. ret (code, r))))"

definition close_device :: "'s device \<Rightarrow> ('s \<times> helper, unit) eff" where
  "close_device D = bind (on_fst (dv_close D)) (\<lambda>b. update (s_disconnected_update (\<lambda>_. b)))"

definition accept :: "pystr \<times> pystr \<Rightarrow> ('s \<times> helper, unit) eff" where
  "accept credential = on_snd (modify (accepted_update (\<lambda>_. credential)))"

text \<open>\<open>write_command(session, make_cgi_request(path, accepted_user, accepted_password))\<close>.\<close>

definition send_request :: "'s device \<Rightarrow> pystr \<Rightarrow> ('s \<times> helper, unit) eff" where
  "send_request D path =
     bind (on_snd (gets accepted)) (\<lambda>(user, password).
     bind (lift_sum (make_cgi_request path user password)) (\<lambda>request.
       on_fst (write_command (transport.truncate D) request)))"

definition live_start :: "int \<Rightarrow> pystr" where
  "live_start substream = str ''livestream.cgi?streamid=10&substream='' @ show_int substream @ str ''&''"

definition live_stop :: pystr where
  "live_stop = str ''livestream.cgi?streamid=16&substream=0&''"

text \<open>The accepted credential: a forced candidate, or the outcome of the login probe.\<close>

definition choose_credential ::
    "'s device \<Rightarrow> pystr \<Rightarrow> int option \<Rightarrow> ('s \<times> helper, unit) eff" where
  "choose_credential D device_password credential_index =
     (case credential_index of
        Some i \<Rightarrow>
          (let candidates = login_candidates device_password in
           if \<not> (0 \<le> i \<and> i < int (length candidates))
           then raise (CS2Error ''credential candidate is out of range'')
           else seq (accept (candidates ! nat i)) (update (s_login_candidate_update (\<lambda>_. i))))
      | None \<Rightarrow>
          seq (update (s_login_sent_update (\<lambda>_. True)))
          (bind (on_fst (authenticate_camera (transport.truncate D) device_password 45)) (\<lambda>l.
           seq (accept (login_user l, login_password l))
             (update (\<lambda>r. r\<lparr>s_login_response_received := True, s_authenticated := True,
                s_login_command := int LOGIN_RESPONSE_COMMAND, s_login_result := login_result l,
                s_login_candidate := int (login_candidate l), s_login_attempts := login_attempts l\<rparr>)))))"

text \<open>\<open>sys.stdout.buffer.write(payload); flush()\<close>: whether it went through.\<close>

definition write_frame :: "bytes \<Rightarrow> ('s \<times> helper, bool) eff" where
  "write_frame payload = on_snd (\<lambda>h. case write_errors h of
      [] \<Rightarrow> (Ret True, h\<lparr>stdout_bytes := stdout_bytes h @ payload\<rparr>)
    | None # r \<Rightarrow> (Ret True, h\<lparr>write_errors := r, stdout_bytes := stdout_bytes h @ payload\<rparr>)
    | Some k # r \<Rightarrow> (Ret False, h\<lparr>write_errors := r, stdout_bytes := stdout_bytes h @ take k payload\<rparr>))"

definition still_running :: "('s \<times> helper, bool) eff" where
  "still_running = on_snd (\<lambda>h. case running h of [] \<Rightarrow> (Halt, h) | b # r \<Rightarrow> (Ret b, h\<lparr>running := r\<rparr>))"

definition enough_media :: "summary \<Rightarrow> bool" where
  "enough_media r \<longleftrightarrow> 3 \<le> s_h264_frames r \<and> 1024 \<le> s_h264_bytes r \<and> s_keyframe_seen r"

text \<open>One round of the media loop: \<open>Inl\<close> goes on, \<open>Inr\<close> leaves it.\<close>

definition media_round :: "'s device \<Rightarrow> mode \<Rightarrow> unit \<Rightarrow> ('s \<times> helper, unit + unit) eff" where
  "media_round D mode = (\<lambda>_.
     bind still_running (\<lambda>go.
     if \<not> go then ret (Inr ())
     else bind (on_fst (read_video_frame (transport.truncate D) 45)) (\<lambda>(payload, frame_type).
       if frame_type = 0x10 \<or> frame_type = 0x11
       then seq (update (s_h265_frames_update Suc)) (ret (Inl ()))
       else
         (let (valid, keyframe) = inspect_h264 payload in
          if \<not> valid then ret (Inl ())
          else
            seq (update (\<lambda>r. r\<lparr>s_h264_received := True, s_h264_frames := Suc (s_h264_frames r),
                  s_h264_bytes := s_h264_bytes r + length payload,
                  s_keyframe_seen := (s_keyframe_seen r \<or> keyframe)\<rparr>))
            (if mode = Stream_Stdout
             then bind (write_frame payload) (\<lambda>written. ret (if written then Inl () else Inr ()))
             else bind the_result (\<lambda>r. ret (if enough_media r then Inr () else Inl ())))))))"

text \<open>Each round tests \<open>_running\<close> once, so the length of that script bounds the rounds.\<close>

definition media_loop :: "'s device \<Rightarrow> mode \<Rightarrow> ('s \<times> helper, unit) eff" where
  "media_loop D mode =
     bind (on_snd (gets (\<lambda>h. Suc (length (running h))))) (\<lambda>fuel. loop fuel (media_round D mode) ())"

definition stop_stream :: "'s device \<Rightarrow> ('s \<times> helper, unit) eff" where
  "stop_stream D = seq (send_request D live_stop) (update (s_stream_stop_sent_update (\<lambda>_. True)))"

definition stream_stage :: "'s device \<Rightarrow> mode \<Rightarrow> int \<Rightarrow> ('s \<times> helper, int \<times> summary) eff" where
  "stream_stage D mode substream =
     seq (send_request D (live_start substream))
     (seq (update (s_stream_start_sent_update (\<lambda>_. True)))
     (bind (on_fst (read_command_result (transport.truncate D) LIVE_STREAM_RESPONSE_COMMANDS 10)) (\<lambda>answer.
      seq (case answer of
             None \<Rightarrow> ret ()
           | Some (command, res) \<Rightarrow>
               update (\<lambda>r. r\<lparr>s_stream_start_command := int command, s_stream_start_result := res\<rparr>))
      (seq (media_loop D mode)
      (seq (stop_stream D)
      (seq (close_device D)
      (bind the_result (\<lambda>r.
       finish_run D (if s_h264_received r \<and> s_stream_stop_sent r then 0 else 6)))))))))"

definition note_rejection :: "exn \<Rightarrow> ('s \<times> helper, unit) eff" where
  "note_rejection e = (case e of
      CameraLoginRejected attempts \<Rightarrow>
        update (\<lambda>r. r\<lparr>s_login_attempts := attempts,
          s_login_response_received := list_ex (\<lambda>a. a \<noteq> None) attempts\<rparr>)
    | _ \<Rightarrow> ret ())"

text \<open>The handler of \<open>except CS2Error\<close>.\<close>

definition on_error :: "'s device \<Rightarrow> exn \<Rightarrow> ('s \<times> helper, int \<times> summary) eff" where
  "on_error D e =
     (if \<not> is_cs2_error e then raise e
      else
        seq (note_rejection e)
        (bind the_result (\<lambda>r.
         seq (when_do (s_stream_start_sent r \<and> \<not> s_stream_stop_sent r)
                (catch (stop_stream D) (\<lambda>e'. if is_cs2_error e' then ret () else raise e')))
         (seq (close_device D)
         (bind the_result (\<lambda>r'.
          finish_run D (if \<not> s_connected r' then 4 else if \<not> s_authenticated r' then 5 else 6)))))))"

definition run_body ::
    "'s device \<Rightarrow> mode \<Rightarrow> pystr option \<Rightarrow> int option \<Rightarrow> int \<Rightarrow> ('s \<times> helper, int \<times> summary) eff" where
  "run_body D mode device_password credential_index substream =
     seq (on_fst (dv_connect D 55))
     (bind (on_fst (gets (dv_path D))) (\<lambda>path.
      seq (update (\<lambda>r. r\<lparr>s_connected := True, s_connect_state := 3, s_connect_path := path\<rparr>))
      (if mode = Connect_Only then seq (close_device D) (finish_run D 0)
       else case device_password of
         None \<Rightarrow> raise AssertionError
       | Some p \<Rightarrow>
           seq (choose_credential D p credential_index)
             (if mode = Authenticate then seq (close_device D) (finish_run D 0)
              else stream_stage D mode substream))))"

definition run_probe ::
    "'s device \<Rightarrow> mode \<Rightarrow> pystr option \<Rightarrow> int option \<Rightarrow> int \<Rightarrow> ('s \<times> helper, int \<times> summary) eff" where
  "run_probe D mode device_password credential_index substream =
     seq (update (\<lambda>_. default_summary))
     (seq (accept (str ''admin'', case device_password of None \<Rightarrow> [] | Some p \<Rightarrow> p))
       (catch (run_body D mode device_password credential_index substream) (on_error D)))"

section \<open>The command line\<close>

definition mode_of :: "pystr \<Rightarrow> mode option" where
  "mode_of option =
     (if option = [] then Some Connect_Only
      else if option = str ''--authenticate'' then Some Authenticate
      else if option = str ''--stream-test'' then Some Stream_Test
      else if option = str ''--stream-stdout'' then Some Stream_Stdout
      else None)"

definition read_inputs :: "mode \<Rightarrow> (bytes, pystr \<times> pystr \<times> pystr option) eff" where
  "read_inputs mode =
     bind read_field (\<lambda>uid.
     bind read_field (\<lambda>service.
     if mode = Connect_Only then ret (uid, service, None)
     else bind read_field (\<lambda>password. ret (uid, service, Some password))))"

text \<open>
  \<open>main\<close>: the exit status, and the line of JSON with whether it goes to the standard error. The
  session is made by \<open>create\<close> from the two fields; \<open>session\<close> is the state in which the run starts.
\<close>

definition helper_main ::
    "(pystr \<Rightarrow> pystr \<Rightarrow> exn + 's) \<Rightarrow> 's device \<Rightarrow> helper \<Rightarrow> pystr list \<Rightarrow> bytes \<Rightarrow>
      (int \<times> (bool \<times> pystr) option) outcome" where
  "helper_main create D h args stdin =
     (if length args \<noteq> 2 \<and> length args \<noteq> 3 then Ret (2, None)
      else case mode_of (if length args = 3 then args ! 2 else []) of
        None \<Rightarrow> Ret (2, None)
      | Some mode \<Rightarrow>
          (case read_inputs mode stdin of
             (Raise e, _) \<Rightarrow> (if is_cs2_error e then Ret (3, None) else Raise e)
           | (Halt, _) \<Rightarrow> Halt
           | (Ret (uid, service, password), _) \<Rightarrow>
              (case create uid service of
                 Inl e \<Rightarrow> (if is_cs2_error e then Ret (3, None) else Raise e)
               | Inr s \<Rightarrow>
                  (case run_probe D mode password None 2 (s, h) of
                     (Raise e, _) \<Rightarrow> (if is_cs2_error e then Ret (3, None) else Raise e)
                   | (Halt, _) \<Rightarrow> Halt
                   | (Ret (code, r), _) \<Rightarrow>
                       Ret (code, Some (mode = Stream_Stdout, json_dumps (summary_json r)))))))"

section \<open>What the probes write is what the helper reads\<close>

lemma read_field_of_field:
  assumes "p2p_field v = Inr bs"
  shows "read_field (bs @ rest) = (Ret v, rest)"
proof -
  obtain enc where e: "encode_utf8 v = Inr enc" "enc \<noteq> []" "length enc \<le> 4096"
    "\<not> list_ex (\<lambda>b. unat b < 0x20) enc" "bs = be_bytes 4 (length enc) @ enc"
    using assms by (auto simp: p2p_field_def sbind_eq_Inr split: if_splits)
  have "be_nat (be_bytes 4 (length enc)) = length enc"
    using e(3) by (simp add: be_nat_be_bytes)
  moreover have "read_input 4 (bs @ rest) = (Ret (be_bytes 4 (length enc)), enc @ rest)"
    by (simp add: read_input_def e)
  moreover have "read_input (length enc) (enc @ rest) = (Ret enc, rest)"
    by (simp add: read_input_def)
  ultimately show ?thesis
    using e decode_encode_utf8 [OF e(1)] by (simp add: read_field_def bind_Ret Let_def)
qed

text \<open>What a probe writes to the standard input of the helper is what the helper reads there: the
  identifier, the service parameter and, unless only a connection is asked for, the password, each
  character for character, with nothing left over.\<close>

theorem inputs_roundtrip:
  assumes "fields_input (if mode = Connect_Only then [uid, service] else [uid, service, password]) = Inr stdin"
  shows "read_inputs mode stdin =
    (Ret (uid, service, if mode = Connect_Only then None else Some password), [])"
proof -
  obtain u s where f: "p2p_field uid = Inr u" "p2p_field service = Inr s"
    and r: "if mode = Connect_Only then stdin = u @ s else \<exists>p. p2p_field password = Inr p \<and> stdin = u @ s @ p"
    using assms by (auto simp: sbind_eq_Inr split: if_splits)
  show ?thesis
  proof (cases "mode = Connect_Only")
    case True
    with r f show ?thesis
      using read_field_of_field [OF f(2), of "[]"] by (simp add: read_inputs_def bind_Ret read_field_of_field)
  next
    case False
    with r obtain p where p: "p2p_field password = Inr p" "stdin = u @ s @ p" by auto
    with False f show ?thesis
      using read_field_of_field [OF p(1), of "[]"] by (simp add: read_inputs_def bind_Ret read_field_of_field)
  qed
qed

theorem inputs_roundtrip_witness:
  "\<exists>stdin. read_inputs Authenticate stdin = (Ret (str ''ABCD'', str ''service'', Some (str ''secret'')), [])"
proof -
  have f: "p2p_field (str x) = Inr (be_bytes 4 (length x) @ map of_nat (str x))"
    if "x \<in> {''ABCD'', ''service'', ''secret''}" for x
    using that by (auto simp: p2p_field_def utf8_of_ascii ascii_str_def str_def)
  show ?thesis
    by (rule exI, rule inputs_roundtrip [of Authenticate "str ''ABCD''" "str ''service''" "str ''secret''",
      simplified]) (simp add: f)
qed

section \<open>Ending a run\<close>

text \<open>Code whose normal returns satisfy a postcondition, from states with an invariant.\<close>

definition returns_with :: "('s \<Rightarrow> bool) \<Rightarrow> ('a \<Rightarrow> 's \<Rightarrow> bool) \<Rightarrow> ('s, 'a) eff \<Rightarrow> bool" where
  "returns_with P Q m \<longleftrightarrow> (\<forall>s x t. P s \<longrightarrow> m s = (Ret x, t) \<longrightarrow> Q x t)"

lemma returns_withD: "returns_with P Q m \<Longrightarrow> P s \<Longrightarrow> m s = (Ret x, t) \<Longrightarrow> Q x t"
  by (simp add: returns_with_def)

lemma returns_bind:
  assumes "steps_by (inv_rel P) m" "\<And>x. returns_with P Q (f x)"
  shows "returns_with P Q (bind m f)"
  unfolding returns_with_def
proof (intro allI impI)
  fix s x t assume "P s" "bind m f s = (Ret x, t)"
  then obtain y u where u: "m s = (Ret y, u)" "f y u = (Ret x, t)" by (auto simp: bind_eq_Ret)
  with steps_by_invD [OF assms(1) \<open>P s\<close>] assms(2) show "Q x t" by (auto simp: returns_with_def)
qed

lemma returns_seq: "steps_by (inv_rel P) m \<Longrightarrow> returns_with P Q n \<Longrightarrow> returns_with P Q (seq m n)"
  by (simp add: seq_def returns_bind)

lemma returns_raise: "returns_with P Q (raise e)"
  by (simp add: returns_with_def)

lemma bind_look: "bind (on_fst (gets g)) k d = k (g (fst d)) d"
  by (cases d) (simp add: bind_def on_fst_def)

lemma seq_update: "seq (update f) n d = n (fst d, result_update f (snd d))"
  by (cases d) (simp add: seq_def bind_def update_def on_snd_def)

text \<open>
  The interface between the run and its device: no operation leaves the invariant, connecting keeps
  it from a fresh device, and closing never fails and leaves the device shut.
\<close>

locale closing_device =
  fixes D :: "'s device" and ok :: "'s \<Rightarrow> bool" and fresh :: "'s \<Rightarrow> bool" and shut :: "'s \<Rightarrow> bool"
  assumes write_keeps: "steps_by (inv_rel ok) (tr_write D channel payload timeout)"
    and read_keeps: "steps_by (inv_rel ok) (tr_read D channel amount timeout)"
    and count_keeps: "steps_by (inv_rel ok) (tr_count_kind D pre kind)"
    and clock_keeps: "steps_by (inv_rel ok) (tr_monotonic D)"
    and connect_keeps: "fresh s \<Longrightarrow> ok s \<Longrightarrow> ok (snd (dv_connect D timeout s))"
    and close_shuts: "ok s \<Longrightarrow> \<exists>b t. dv_close D s = (Ret b, t) \<and> ok t \<and> shut t"
begin

lemmas inv_rules = two_state.step_rules [OF two_state_inv_rel]

lemma basic_keeps:
  "steps_by (inv_rel ok) (tr_write (transport.truncate D) channel payload timeout)"
  "steps_by (inv_rel ok) (tr_read (transport.truncate D) channel amount timeout)"
  "steps_by (inv_rel ok) (tr_count_kind (transport.truncate D) pre kind)"
  "steps_by (inv_rel ok) (tr_monotonic (transport.truncate D))"
  by (simp_all add: transport.defs write_keeps read_keeps count_keeps clock_keeps)

lemma write_command_keeps: "steps_by (inv_rel ok) (write_command (transport.truncate D) request)"
  unfolding write_command_def by (intro inv_rules basic_keeps)

lemma read_command_keeps: "steps_by (inv_rel ok) (read_command (transport.truncate D) timeout)"
  unfolding read_command_def by (intro inv_rules basic_keeps)

lemma read_response_keeps: "steps_by (inv_rel ok) (read_response (transport.truncate D) ids deadline)"
  unfolding read_response_def response_round_def
  by (intro inv_rules basic_keeps read_command_keeps)

lemma read_result_keeps: "steps_by (inv_rel ok) (read_command_result (transport.truncate D) ids timeout)"
  unfolding read_command_result_def by (intro inv_rules basic_keeps read_response_keeps)

lemma try_candidates_keeps: "steps_by (inv_rel ok) (try_candidates (transport.truncate D) cs deadline attempts)"
proof (induction cs arbitrary: attempts)
  case (Cons c cs)
  show ?case
    unfolding try_candidates.simps
    by (intro inv_rules basic_keeps write_command_keeps read_response_keeps Cons.IH)
qed (simp add: two_state.raise_step [OF two_state_inv_rel])

lemma authenticate_keeps: "steps_by (inv_rel ok) (authenticate_camera (transport.truncate D) password timeout)"
  unfolding authenticate_camera_def by (intro inv_rules basic_keeps try_candidates_keeps)

lemma video_keeps: "steps_by (inv_rel ok) (read_video_frame (transport.truncate D) timeout)"
  unfolding read_video_frame_def by (intro inv_rules basic_keeps)

lemma close_keeps: "steps_by (inv_rel ok) (dv_close D)"
  using close_shuts by (fastforce simp: steps_by_def inv_rel_def)

end

context closing_device
begin

text \<open>The states of a run: the device keeps its invariant, and what has been connected stays so.\<close>

definition alive :: "bool \<Rightarrow> 's \<times> helper \<Rightarrow> bool" where
  "alive b d \<longleftrightarrow> ok (fst d) \<and> (b \<longrightarrow> s_connected (result (snd d)))"

lemma device_step: "steps_by (inv_rel ok) m \<Longrightarrow> steps_by (inv_rel (alive b)) (on_fst m)"
  by (rule steps_byI) (auto simp: on_fst_def inv_rel_def alive_def dest: steps_by_invD split: prod.splits)

lemma update_step: "(\<And>r. s_connected r \<Longrightarrow> s_connected (f r)) \<Longrightarrow> steps_by (inv_rel (alive b)) (update f)"
  by (rule steps_byI) (auto simp: update_def on_snd_def inv_rel_def alive_def)

lemma helper_steps:
  "steps_by (inv_rel (alive b)) the_result"
  "steps_by (inv_rel (alive b)) (on_fst (gets g))"
  "steps_by (inv_rel (alive b)) (on_snd (gets k))"
  "steps_by (inv_rel (alive b)) (accept credential)"
  "steps_by (inv_rel (alive b)) still_running"
  "steps_by (inv_rel (alive b)) (write_frame payload)"
  by (auto simp: steps_by_def inv_rel_def alive_def the_result_def on_fst_def on_snd_def accept_def
    still_running_def write_frame_def split: prod.splits list.splits option.splits)

lemmas run_rules = two_state.step_rules [OF two_state_inv_rel] helper_steps

lemma close_step: "steps_by (inv_rel (alive b)) (close_device D)"
  unfolding close_device_def by (intro run_rules device_step close_keeps update_step) simp

lemma send_step: "steps_by (inv_rel (alive b)) (send_request D path)"
  unfolding send_request_def by (intro run_rules device_step write_command_keeps)

lemma credential_step: "steps_by (inv_rel (alive b)) (choose_credential D password index)"
  unfolding choose_credential_def by (intro run_rules device_step authenticate_keeps update_step) simp_all

lemma loop_steps: "steps_by (inv_rel (alive b)) (media_loop D mode)"
  unfolding media_loop_def media_round_def by (intro run_rules device_step video_keeps update_step) simp_all

lemma stop_step: "steps_by (inv_rel (alive b)) (stop_stream D)"
  unfolding stop_stream_def by (intro run_rules send_step update_step) simp

lemma rejection_step: "steps_by (inv_rel (alive b)) (note_rejection e)"
  by (cases e) (auto simp: note_rejection_def intro!: run_rules update_step)

lemma close_run:
  assumes "alive b d" "close_device D d = (x, d')"
  shows "x = Ret () \<and> alive b d' \<and> shut (fst d') \<and> (\<exists>v. result (snd d') = s_disconnected_update (\<lambda>_. v) (result (snd d)))"
  using assms close_shuts [of "fst d"]
  by (auto simp: close_device_def bind_def on_fst_def update_def on_snd_def alive_def split: prod.splits outcome.splits)

lemma finish_run:
  "finish_run D code d = (Ret (c, r), d') \<longleftrightarrow>
   c = code \<and> d' = (fst d, result_update (s_counters_update (\<lambda>_. sort_key (\<lambda>nv. str (fst nv)) (dv_counters D (fst d)))) (snd d)) \<and>
   r = result (snd d')"
  by (cases d) (auto simp: finish_run_def bind_def seq_def on_fst_def on_snd_def update_def the_result_def)

text \<open>What the end of a run promises.\<close>

definition run_end :: "mode \<Rightarrow> int \<times> summary \<Rightarrow> 's \<times> helper \<Rightarrow> bool" where
  "run_end mode cr d \<longleftrightarrow> shut (fst d) \<and> fst cr \<in> {0, 4, 5, 6} \<and> (fst cr = 4 \<longleftrightarrow> \<not> s_connected (snd cr)) \<and>
     (fst cr = 5 \<longrightarrow> \<not> s_authenticated (snd cr)) \<and>
     (fst cr = 0 \<longrightarrow> mode = Connect_Only \<or> mode = Authenticate \<or>
        s_h264_received (snd cr) \<and> s_stream_stop_sent (snd cr))"

lemma close_finish:
  assumes "alive b d" "seq (close_device D) (bind the_result (\<lambda>r. finish_run D (code r))) d = (Ret (c, r), d')"
  shows "shut (fst d') \<and> (\<exists>v cs. c = code (result (snd d)\<lparr>s_disconnected := v\<rparr>) \<and> r = result (snd d)\<lparr>s_disconnected := v, s_counters := cs\<rparr>)"
proof -
  obtain x u where u: "close_device D d = (x, u)" by (cases "close_device D d")
  note c = close_run [OF assms(1) u]
  with u assms(2) have "bind the_result (\<lambda>r. finish_run D (code r)) u = (Ret (c, r), d')"
    by (auto simp: seq_eq_Ret)
  then have f: "finish_run D (code (result (snd u))) u = (Ret (c, r), d')"
    by (cases u) (auto simp: bind_def the_result_def on_snd_def)
  from c obtain v where v: "result (snd u) = result (snd d)\<lparr>s_disconnected := v\<rparr>" by auto
  show ?thesis
    using c f [unfolded finish_run] by (auto simp: alive_def v)
qed

lemma simple_close:
  assumes "mode = Connect_Only \<or> mode = Authenticate"
  shows "returns_with (alive True) (run_end mode) (seq (close_device D) (finish_run D 0))"
  unfolding returns_with_def
proof (intro allI impI)
  fix d cr d'
  assume a: "alive True d" "seq (close_device D) (finish_run D 0) d = (Ret cr, d')"
  have "bind the_result (\<lambda>_. finish_run D 0) = finish_run D 0"
    by (auto simp: fun_eq_iff bind_def the_result_def on_snd_def)
  then show "run_end mode cr d'"
    using close_finish [OF a(1), of "\<lambda>_. 0" "fst cr" "snd cr" d'] a assms by (auto simp: run_end_def alive_def)
qed

lemma stream_close:
  "returns_with (alive True) (run_end mode) (seq (close_device D) (bind the_result (\<lambda>r.
     finish_run D (if s_h264_received r \<and> s_stream_stop_sent r then 0 else 6))))"
  unfolding returns_with_def
proof (intro allI impI)
  fix d cr d'
  assume a: "alive True d" "seq (close_device D) (bind the_result (\<lambda>r.
     finish_run D (if s_h264_received r \<and> s_stream_stop_sent r then 0 else 6))) d = (Ret cr, d')"
  show "run_end mode cr d'"
    using close_finish [OF a(1), of "\<lambda>r. if s_h264_received r \<and> s_stream_stop_sent r then 0 else 6" "fst cr" "snd cr" d'] a
    by (auto simp: run_end_def alive_def split: if_splits)
qed

lemma error_close:
  "returns_with (alive False) (run_end mode) (seq (close_device D) (bind the_result (\<lambda>r.
     finish_run D (if \<not> s_connected r then 4 else if \<not> s_authenticated r then 5 else 6))))"
  unfolding returns_with_def
proof (intro allI impI)
  fix d cr d'
  let ?code = "\<lambda>r. if \<not> s_connected r then 4 else if \<not> s_authenticated r then 5 else 6 :: int"
  assume a: "alive False d" "seq (close_device D) (bind the_result (\<lambda>r. finish_run D (?code r))) d = (Ret cr, d')"
  show "run_end mode cr d'"
    using close_finish [OF a(1), of ?code "fst cr" "snd cr" d'] a
    by (auto simp: run_end_def split: if_splits)
qed

lemma stream_end: "returns_with (alive True) (run_end mode) (stream_stage D mode substream)"
proof -
  have "returns_with (alive True) Q (seq (send_request D (live_start substream))
     (seq (update (s_stream_start_sent_update (\<lambda>_. True)))
     (bind (on_fst (read_command_result (transport.truncate D) LIVE_STREAM_RESPONSE_COMMANDS 10)) (\<lambda>answer.
      seq (case answer of
             None \<Rightarrow> ret ()
           | Some (command, res) \<Rightarrow>
               update (\<lambda>r. r\<lparr>s_stream_start_command := int command, s_stream_start_result := res\<rparr>))
      (seq (media_loop D mode) (seq (stop_stream D) tail))))))"
    if "returns_with (alive True) Q tail" for Q and tail :: "('s \<times> helper, int \<times> summary) eff"
    by (intro returns_seq returns_bind send_step run_rules device_step read_result_keeps loop_steps stop_step
      update_step that) simp_all
  from this [OF stream_close] show ?thesis by (simp add: stream_stage_def)
qed

lemma error_end: "returns_with (alive False) (run_end mode) (on_error D e)"
proof (cases "is_cs2_error e")
  case True
  have "returns_with (alive False) Q (seq (note_rejection e) (bind the_result (\<lambda>r.
      seq (when_do (s_stream_start_sent r \<and> \<not> s_stream_stop_sent r)
        (catch (stop_stream D) (\<lambda>e'. if is_cs2_error e' then ret () else raise e'))) tail)))"
    if "returns_with (alive False) Q tail" for Q and tail :: "('s \<times> helper, int \<times> summary) eff"
    by (intro returns_seq returns_bind rejection_step stop_step run_rules that)
  from this [OF error_close] True show ?thesis by (simp add: on_error_def)
qed (simp add: on_error_def returns_raise)

text \<open>The connection itself starts from a fresh device, and only from there keeps the invariant.\<close>

lemma connected_run:
  assumes "ok s" "fresh s" "on_fst (dv_connect D 55) (s, h) = (r, d)"
  shows "alive False d"
  using assms connect_keeps [OF assms(2,1), of 55] by (auto simp: on_fst_def alive_def split: prod.splits)

definition after_connect :: "mode \<Rightarrow> pystr option \<Rightarrow> int option \<Rightarrow> int \<Rightarrow> ('s \<times> helper, int \<times> summary) eff" where
  "after_connect mode password index substream =
     (if mode = Connect_Only then seq (close_device D) (finish_run D 0)
      else case password of
        None \<Rightarrow> raise AssertionError
      | Some p \<Rightarrow>
          seq (choose_credential D p index)
            (if mode = Authenticate then seq (close_device D) (finish_run D 0)
             else stream_stage D mode substream))"

lemma after_connect_keeps: "steps_by (inv_rel (alive b)) (after_connect mode password index substream)"
proof -
  have finish: "steps_by (inv_rel (alive b)) (finish_run D code)" for code
    unfolding finish_run_def by (intro run_rules update_step) simp
  have stage: "steps_by (inv_rel (alive b)) (stream_stage D mode substream)"
    unfolding stream_stage_def
    by (intro run_rules send_step device_step read_result_keeps loop_steps stop_step close_step finish update_step) simp_all
  show ?thesis
    unfolding after_connect_def by (intro run_rules close_step finish stage credential_step)
qed

lemma after_connect_end: "returns_with (alive True) (run_end mode) (after_connect mode password index substream)"
  unfolding after_connect_def
  using simple_close [of mode] stream_end [of mode substream] returns_seq [OF credential_step]
  by (auto simp: returns_raise split: option.split)

lemma body_end:
  assumes "ok s" "fresh s" "run_body D mode password index substream (s, h) = (r, d)"
  shows "alive False d \<and> (\<forall>cr. r = Ret cr \<longrightarrow> run_end mode cr d)"
proof -
  obtain x u where u: "on_fst (dv_connect D 55) (s, h) = (x, u)" by (cases "on_fst (dv_connect D 55) (s, h)")
  note a = connected_run [OF assms(1,2) u]
  let ?f = "\<lambda>r. r\<lparr>s_connected := True, s_connect_state := 3, s_connect_path := dv_path D (fst u)\<rparr>"
  have "run_body D mode password index substream = seq (on_fst (dv_connect D 55)) (bind (on_fst (gets (dv_path D)))
    (\<lambda>path. seq (update (\<lambda>r. r\<lparr>s_connected := True, s_connect_state := 3, s_connect_path := path\<rparr>))
      (after_connect mode password index substream)))"
    by (simp add: run_body_def after_connect_def)
  then have b: "run_body D mode password index substream (s, h) = (case x of
      Ret _ \<Rightarrow> after_connect mode password index substream (fst u, result_update ?f (snd u))
    | Raise e \<Rightarrow> (Raise e, u) | Halt \<Rightarrow> (Halt, u))"
    by (simp add: seq_def [of "on_fst _"] bind_def [of "on_fst (dv_connect D 55)"] u bind_look seq_update split: outcome.split)
  have t: "alive True (fst u, result_update ?f (snd u))"
    using a by (simp add: alive_def)
  show ?thesis
  proof (cases x)
    case (Ret y)
    with b assms(3) have c: "after_connect mode password index substream (fst u, result_update ?f (snd u)) = (r, d)"
      by simp
    have "alive True d" by (rule steps_by_invD [OF after_connect_keeps t c])
    moreover have "run_end mode cr d" if "r = Ret cr" for cr
      using c that by (intro returns_withD [OF after_connect_end t]) simp
    ultimately show ?thesis by (simp add: alive_def)
  qed (use a b assms(3) in simp_all)
qed

lemma run_ends:
  assumes "ok s" "fresh s" "run_probe D mode password index substream (s, h) = (Ret (code, r), (t, h'))"
  shows "shut t \<and> code \<in> {0, 4, 5, 6} \<and> (code = 4 \<longleftrightarrow> \<not> s_connected r) \<and> (code = 5 \<longrightarrow> \<not> s_authenticated r) \<and>
    (code = 0 \<longrightarrow> mode = Connect_Only \<or> mode = Authenticate \<or> s_h264_received r \<and> s_stream_stop_sent r)"
proof -
  let ?h = "h\<lparr>result := default_summary, accepted := (str ''admin'', case password of None \<Rightarrow> [] | Some p \<Rightarrow> p)\<rparr>"
  have c: "catch (run_body D mode password index substream) (on_error D) (s, ?h) = (Ret (code, r), (t, h'))"
    using assms(3) by (simp add: run_probe_def seq_def bind_def update_def on_snd_def accept_def)
  obtain x d where d: "run_body D mode password index substream (s, ?h) = (x, d)"
    by (cases "run_body D mode password index substream (s, ?h)")
  note e = body_end [OF assms(1,2) d]
  have "run_end mode (code, r) (t, h')"
  proof (cases x)
    case (Raise err)
    with c d have "on_error D err d = (Ret (code, r), (t, h'))" by (simp add: catch_def)
    moreover from e have "alive False d" by simp
    ultimately show ?thesis by (intro returns_withD [OF error_end])
  qed (use c d e in \<open>auto simp: catch_def\<close>)
  then show ?thesis by (auto simp: run_end_def)
qed

end

lemma cs2_close_total:
  assumes "session_ok s"
  shows "\<exists>b t. close_session s = (Ret b, t) \<and> session_ok t \<and> closed t"
proof -
  let ?targets = "case peer s of None \<Rightarrow> close_targets s | Some p \<Rightarrow> set_add p (close_targets s)"
  obtain b u where u: "notify_close ?targets False s = (Ret b, u)"
    using notify_close_run [of s ?targets False] assms by (auto simp: session_ok_def)
  have "\<exists>b t. close_session s = (Ret b, t) \<and> closed t"
    using u by (cases "closed s") (auto simp: close_session_def bind_gets bind_def when_do_def seq_def)
  then show ?thesis using steps_by_invD [OF ok_close assms] by blast
qed

interpretation camera: closing_device "cs2_device opened route" session_ok
    "\<lambda>s. sock s = NoSocket \<and> \<not> closed s" closed for opened route
proof unfold_locales
  fix s timeout assume "sock s = NoSocket \<and> \<not> closed s" "session_ok s"
  then show "session_ok (snd (dv_connect (cs2_device opened route) timeout s))"
    using connect_keeps_ok by (simp add: cs2_device_def transport.defs device.defs)
qed (simp_all add: cs2_device_def cs2_transport_def transport.defs device.defs ok_write ok_read ok_count_kind
  ok_core_steps cs2_close_total)



definition idle_helper :: helper where
  "idle_helper = \<lparr>result = default_summary, accepted = ([], []), running = [], write_errors = [], stdout_bytes = []\<rparr>"

lemma fresh_session_new: "sock fresh_session = NoSocket" "\<not> closed fresh_session"
  by (simp_all add: fresh_session_def test_session_def)

lemma connect_only_run:
  "\<exists>r t h'. run_probe (cs2_device (Opened 40000) (Some (str ''192.0.2.7''))) Connect_Only None None 2
     (fresh_session, idle_helper) = (Ret (0, r), (t, h'))"
proof -
  obtain t where t: "connect (Opened 40000) (Some (str ''192.0.2.7'')) 55 fresh_session = (Ret (), t)"
    using fresh_session_connects [of 55] by auto
  then have "session_ok t"
    using connect_keeps_ok [OF fresh_session_ok fresh_session_new, of "Opened 40000" "Some (str ''192.0.2.7'')" 55] by simp
  then obtain b u where u: "close_session t = (Ret b, u)" using cs2_close_total by blast
  show ?thesis
    by (simp add: run_probe_def seq_update seq_def [of "accept _"] accept_def on_snd_def bind_def idle_helper_def
      catch_def run_body_def seq_def on_fst_def cs2_device_def transport.defs device.defs t update_def
      close_device_def finish_run_def the_result_def u)
qed


section \<open>The summary as the probes read it\<close>

definition summary_fields :: "summary \<Rightarrow> (pystr \<times> json) list" where
  "summary_fields r = (case summary_json r of JObj d \<Rightarrow> d | _ \<Rightarrow> [])"

lemma summary_obj: "summary_json r = JObj (summary_fields r)"
  by (simp add: summary_fields_def summary_json_def)

lemma summary_items:
  "json_get (summary_fields r) ''authenticated'' = JBool (s_authenticated r)"
  "json_get (summary_fields r) ''connect_path'' = JStr (str (s_connect_path r))"
  "json_get (summary_fields r) ''connect_state'' = JInt (s_connect_state r)"
  "json_get (summary_fields r) ''connected'' = JBool (s_connected r)"
  "json_get (summary_fields r) ''counters'' =
     JObj (sort_key fst (map (\<lambda>nv. (str (fst nv), JInt (int (snd nv)))) (s_counters r)))"
  "json_get (summary_fields r) ''disconnected'' = JBool (s_disconnected r)"
  "json_get (summary_fields r) ''h264_bytes'' = JInt (int (s_h264_bytes r))"
  "json_get (summary_fields r) ''h264_frames'' = JInt (int (s_h264_frames r))"
  "json_get (summary_fields r) ''h264_received'' = JBool (s_h264_received r)"
  "json_get (summary_fields r) ''h265_frames'' = JInt (int (s_h265_frames r))"
  "json_get (summary_fields r) ''keyframe_seen'' = JBool (s_keyframe_seen r)"
  "json_get (summary_fields r) ''login_attempts'' = JList (map attempt_json (s_login_attempts r))"
  "json_get (summary_fields r) ''login_candidate'' = JInt (s_login_candidate r)"
  "json_get (summary_fields r) ''login_command'' = JInt (s_login_command r)"
  "json_get (summary_fields r) ''login_response_received'' = JBool (s_login_response_received r)"
  "json_get (summary_fields r) ''login_result'' = JInt (s_login_result r)"
  "json_get (summary_fields r) ''login_sent'' = JBool (s_login_sent r)"
  "json_get (summary_fields r) ''stream_start_command'' = JInt (s_stream_start_command r)"
  "json_get (summary_fields r) ''stream_start_result'' = JInt (s_stream_start_result r)"
  "json_get (summary_fields r) ''stream_start_sent'' = JBool (s_stream_start_sent r)"
  "json_get (summary_fields r) ''stream_stop_sent'' = JBool (s_stream_stop_sent r)"
  by (simp_all add: summary_fields_def summary_json_def)

definition counter_items :: "summary \<Rightarrow> (pystr \<times> int) list" where
  "counter_items r = sort_key fst (map (\<lambda>nv. (str (fst nv), int (snd nv))) (s_counters r))"

lemma insort_key_map:
  "(\<And>x. f (g x) = h x) \<Longrightarrow> map g (insort_key h x xs) = insort_key f (g x) (map g xs)"
  by (induction xs) simp_all

lemma sort_key_map: "(\<And>x. f (g x) = h x) \<Longrightarrow> map g (sort_key h xs) = sort_key f (map g xs)"
  by (induction xs) (simp_all add: insort_key_map [of f g h])

lemma counters_json:
  "sort_key fst (map (\<lambda>nv. (str (fst nv), JInt (int (snd nv)))) (s_counters r)) = map (map_prod id JInt) (counter_items r)"
  unfolding counter_items_def by (subst sort_key_map [where f = fst]) (simp_all add: comp_def)

text \<open>What the diagnostics keep of the counters: all or nothing.\<close>

definition kept_counters :: "summary \<Rightarrow> (pystr \<times> int) list" where
  "kept_counters r =
     (if length (s_counters r) \<le> MAX_COUNTER_ENTRIES \<and> list_all (\<lambda>nv. short_ascii 64 (str (fst nv))) (s_counters r)
      then counter_items r else [])"

lemma attempts_read:
  "map plain_int_item (map attempt_json as) = as" "list_all attempt_ok (map attempt_json as)"
  by (induction as) (auto simp: attempt_json_def plain_int_item_def attempt_ok_def split: option.split)

lemma counters_read:
  "(case json_get (summary_fields r) ''counters'' of
      JObj cs \<Rightarrow> if length cs \<le> MAX_COUNTER_ENTRIES \<and> list_all counter_ok cs
        then Some (map (map_prod id as_int) cs) else None
    | _ \<Rightarrow> None) =
   (if length (s_counters r) \<le> MAX_COUNTER_ENTRIES \<and> list_all (\<lambda>nv. short_ascii 64 (str (fst nv))) (s_counters r)
    then Some (counter_items r) else None)"
proof -
  have "map (map_prod id as_int) (map (map_prod id JInt) xs) = xs" for xs :: "(pystr \<times> int) list"
    by (induction xs) auto
  moreover have "length (counter_items r) = length (s_counters r)" by (simp add: counter_items_def)
  moreover have "list_all counter_ok (map (map_prod id JInt) (counter_items r)) \<longleftrightarrow>
      list_all (\<lambda>nv. short_ascii 64 (str (fst nv))) (s_counters r)"
    by (auto simp: list_all_iff counter_ok_def counter_items_def)
  ultimately show ?thesis
    by (simp add: summary_items counters_json del: MAX_COUNTER_ENTRIES_def)
qed

text \<open>C31: The two halves of the repository agree on the summary: parsing the line of JSON that the
  helper prints and reading it as a stream result gives back every field of the helper's summary,
  whenever the path is short plain text, there are at most eight login attempts and the exit status
  is one of the four; the counters survive only if there are at most 64 of them.\<close>

theorem summary_read_back:
  assumes "printable (summary_json r)" and "code \<in> {0, 4, 5, 6}"
    and "short_ascii 32 (str (s_connect_path r))" and "length (s_login_attempts r) \<le> 8"
  shows "sbind (json_loads_utf8 (map of_nat (json_dumps (summary_json r)))) (\<lambda>payload. stream_result payload code) =
    Inr \<lparr>res_connected = s_connected r, res_connect_state = s_connect_state r, res_login_sent = s_login_sent r,
         res_login_response_received = s_login_response_received r, res_authenticated = s_authenticated r,
         res_login_command = Some (s_login_command r), res_login_result = Some (s_login_result r),
         res_disconnected = s_disconnected r, res_connect_path = str (s_connect_path r),
         res_login_candidate = s_login_candidate r, res_login_attempts = s_login_attempts r,
         res_counters = kept_counters r, res_stream_start_sent = s_stream_start_sent r,
         res_stream_stop_sent = s_stream_stop_sent r, res_h264_received = s_h264_received r,
         res_h264_frames = int (s_h264_frames r), res_h264_bytes = int (s_h264_bytes r),
         res_keyframe_seen = s_keyframe_seen r, res_h265_frames = int (s_h265_frames r),
         res_stream_start_command = s_stream_start_command r,
         res_stream_start_result = Some (s_stream_start_result r)\<rparr>"
proof -
  have "json_loads_utf8 (map of_nat (json_dumps (summary_json r))) = Inr (summary_json r)"
    by (rule json_loads_encoded [OF assms(1)])
  moreover have "read_diagnostics (JObj (summary_fields r)) =
    \<lparr>connect_path_item = Some (str (s_connect_path r)), login_candidate_item = Some (s_login_candidate r),
     login_attempts_item = Some (s_login_attempts r),
     counters_item = (if length (s_counters r) \<le> MAX_COUNTER_ENTRIES \<and>
         list_all (\<lambda>nv. short_ascii 64 (str (fst nv))) (s_counters r) then Some (counter_items r) else None)\<rparr>"
    using assms(3,4) attempts_read
    by (simp add: read_diagnostics_def counters_read summary_items(2,12,13) plain_int_item_def)
  ultimately show ?thesis
    using assms(2)
    by (simp add: summary_obj stream_result_def bools_in_def ints_in_def stream_bools_def stream_ints_def
      int_at_def bool_at_def summary_items Let_def read_stream_diagnostics_def diagnostics.extend_def
      stream_diagnostics.fields_def authentication_result.extend_def stream_probe_result.fields_def
      authentication_fields_def plain_int_item_def int_item_def kept_counters_def)
qed

lemma one_digit: "n < 10 \<Longrightarrow> length (show_nat n) = 1"
  by (simp add: show_nat.simps)

theorem summary_read_back_witness:
  "\<exists>res. sbind (json_loads_utf8 (map of_nat (json_dumps (summary_json (default_summary\<lparr>s_counters := [(''punch_repeats'', 3)]\<rparr>)))))
      (\<lambda>payload. stream_result payload 4) = Inr res \<and> res_counters res = [(str ''punch_repeats'', 3)]"
proof -
  let ?r = "default_summary\<lparr>s_counters := [(''punch_repeats'', 3)]\<rparr>"
  have "printable (summary_json ?r)"
    by (simp add: summary_json_def default_summary_def one_digit scalar_str_def is_surrogate_def str_def)
  moreover have "kept_counters ?r = [(str ''punch_repeats'', 3)]"
    by (simp add: kept_counters_def counter_items_def short_ascii_def ascii_str_def str_def)
  ultimately show ?thesis
    using summary_read_back [of ?r 4]
    by (intro exI conjI) (assumption | simp add: default_summary_def short_ascii_def ascii_str_def str_def)+
qed

text \<open>
  The limit of the recorder (48 packet and command kinds, beside the counters of fixed names) is
  below the limit of the reader (64) only for the kinds alone: a session that has met 48 kinds
  first and then counts 17 of its fixed names holds 65 counters, and the whole block is dropped.
\<close>

definition odd_kinds :: "string list" where
  "odd_kinds = map hex_word [0..<48]"

lemma for_each_count_kind:
  "for_each ks (count_kind pre) s = (Ret (), s\<lparr>counters := fold (\<lambda>k. tally (pre @ k)) ks (counters s)\<rparr>)"
  by (induction ks arbitrary: s) (simp_all add: seq_def bind_def count_kind_tally)

lemma for_each_count:
  "for_each ns count s = (Ret (), s\<lparr>counters := fold (\<lambda>n. count_in n 1) ns (counters s)\<rparr>)"
  by (induction ns arbitrary: s) (simp_all add: seq_def bind_def count_apply)

definition outgrown :: "(string \<times> nat) list" where
  "outgrown = fold (\<lambda>n. count_in n 1) (take 17 FIXED_COUNTERS) (fold (\<lambda>k. tally (''type_'' @ k)) odd_kinds [])"

lemma length_outgrown: "length outgrown = 65"
  by code_simp

theorem counters_outgrow_reader:
  "\<exists>t. seq (for_each odd_kinds (count_kind ''type_'')) (for_each (take 17 FIXED_COUNTERS) count)
     (s\<lparr>counters := []\<rparr>) = (Ret (), t) \<and> length (counters t) = 65 \<and> kept_counters (r\<lparr>s_counters := counters t\<rparr>) = []"
proof -
  have "seq (for_each odd_kinds (count_kind ''type_'')) (for_each (take 17 FIXED_COUNTERS) count)
     (s\<lparr>counters := []\<rparr>) = (Ret (), s\<lparr>counters := outgrown\<rparr>)"
    unfolding outgrown_def by (simp add: seq_def bind_def for_each_count_kind for_each_count)
  then show ?thesis by (simp add: kept_counters_def length_outgrown)
qed

end
