(* ===== verification/Http.thy ===== *)
theory Http
  imports Effects JSON P2P
begin

text \<open>
  What the HTTP bridge uses of the standard library: splitting a request target, the first value of a
  query parameter, percent-encoding, \<open>int\<close> of a header, the truth value of a JSON value and
  \<open>hmac.compare_digest\<close>. Header values are text of code points below 256, as \<open>http.client\<close> decodes
  them. The library's check of a bracketed or non-ASCII host in a request target is a parameter.
\<close>

section \<open>Request targets\<close>

definition scheme_char :: "nat \<Rightarrow> bool" where
  "scheme_char c \<longleftrightarrow> ascii_alpha c \<or> ascii_digit c \<or> c \<in> {43, 45, 46}"

definition before :: "nat list \<Rightarrow> pystr \<Rightarrow> pystr" where
  "before stops s = takeWhile (\<lambda>c. c \<notin> set stops) s"

definition from_first :: "nat list \<Rightarrow> pystr \<Rightarrow> pystr" where
  "from_first stops s = dropWhile (\<lambda>c. c \<notin> set stops) s"

definition drop_scheme :: "pystr \<Rightarrow> pystr" where
  "drop_scheme link =
     (let scheme = before [58] link in
      if scheme \<noteq> [] \<and> length scheme < length link \<and> ascii_alpha (hd link) \<and> list_all scheme_char scheme
      then drop (Suc (length scheme)) link else link)"

text \<open>\<open>urlsplit(url)\<close>: its path and its query.\<close>

definition urlsplit :: "(pystr \<Rightarrow> bool) \<Rightarrow> pystr \<Rightarrow> exn + pystr \<times> pystr" where
  "urlsplit host_refused link =
     (let u = drop_scheme (filter (\<lambda>c. c \<notin> {9, 10, 13}) (dropWhile (\<lambda>c. c \<le> 32) link));
          slashes = (take 2 u = [47, 47]);
          netloc = (if slashes then before [47, 63, 35] (drop 2 u) else []);
          rest = (if slashes then from_first [47, 63, 35] (drop 2 u) else u);
          target = before [35] rest in
      if (91 \<in> set netloc) \<noteq> (93 \<in> set netloc) \<or>
         ((91 \<in> set netloc \<or> \<not> ascii_str netloc) \<and> host_refused netloc)
      then Inl ValueError
      else Inr (before [63] target, drop 1 (from_first [63] target)))"

section \<open>Percent-encoding\<close>

text \<open>\<open>quote(s, safe="")\<close>.\<close>

definition quote_octet :: "byte \<Rightarrow> pystr" where
  "quote_octet b = (if unat b = 32 then [37, 50, 48] else quote_byte b)"

definition quote :: "pystr \<Rightarrow> exn + pystr" where
  "quote s = sbind (encode_utf8 s) (\<lambda>bs. Inr (concat (map quote_octet bs)))"

text \<open>\<open>bs.decode("utf-8", "replace")\<close>: each maximal start of a sequence that goes wrong becomes one
  replacement character.\<close>

definition second_byte_ok :: "nat \<Rightarrow> byte \<Rightarrow> bool" where
  "second_byte_ok n b \<longleftrightarrow> is_cont b \<and> (n = 0xE0 \<longrightarrow> 0xA0 \<le> unat b) \<and> (n = 0xED \<longrightarrow> unat b < 0xA0) \<and>
     (n = 0xF0 \<longrightarrow> 0x90 \<le> unat b) \<and> (n = 0xF4 \<longrightarrow> unat b < 0x90)"

definition bad_length :: "bytes \<Rightarrow> nat" where
  "bad_length bs = (case bs of
      b0 # b1 # r \<Rightarrow>
        (let n = unat b0 in
         if 0xE0 \<le> n \<and> n < 0xF5 \<and> second_byte_ok n b1
         then (case r of b2 # _ \<Rightarrow> if 0xF0 \<le> n \<and> is_cont b2 then 3 else 2 | [] \<Rightarrow> 2)
         else 1)
    | _ \<Rightarrow> 1)"

lemma bad_length_pos: "0 < bad_length bs"
  by (auto simp: bad_length_def Let_def split: list.split)

function decode_replace :: "bytes \<Rightarrow> pystr" where
  "decode_replace bs =
     (if bs = [] then []
      else case utf8_next bs of
        Some (c, r) \<Rightarrow> c # decode_replace r
      | None \<Rightarrow> 0xFFFD # decode_replace (drop (bad_length bs) bs))"
  by pat_completeness auto
termination
  by (relation "measure length") (auto dest: utf8_next_shorter simp: bad_length_pos)

declare decode_replace.simps [simp del]

text \<open>\<open>unquote(s)\<close>: the escapes in each run of ASCII characters are bytes of UTF-8.\<close>

fun unquote_from :: "bytes \<Rightarrow> pystr \<Rightarrow> pystr" where
  "unquote_from run [] = decode_replace run"
| "unquote_from run (c # s) =
     (if 128 \<le> c then decode_replace run @ c # unquote_from [] s
      else case s of
        h # l # r \<Rightarrow>
          (case (hex_value h, hex_value l) of
             (Some x, Some y) \<Rightarrow>
               if c = 37 then unquote_from (run @ [of_nat (x * 16 + y)]) r else unquote_from (run @ [of_nat c]) s
           | _ \<Rightarrow> unquote_from (run @ [of_nat c]) s)
      | _ \<Rightarrow> unquote_from (run @ [of_nat c]) s)"

definition unquote :: "pystr \<Rightarrow> pystr" where
  "unquote s = unquote_from [] s"

section \<open>Query parameters\<close>

text \<open>\<open>s.split(sep)\<close> for a one-character separator.\<close>

fun split_from :: "nat \<Rightarrow> pystr \<Rightarrow> pystr \<Rightarrow> pystr list" where
  "split_from sep item [] = [item]"
| "split_from sep item (c # s) =
     (if c = sep then item # split_from sep [] s else split_from sep (item @ [c]) s)"

definition split_text :: "nat \<Rightarrow> pystr \<Rightarrow> pystr list" where
  "split_text sep s = split_from sep [] s"

text \<open>\<open>parse_qs(query).get(name, [None])[0]\<close>: blank values are left out.\<close>

definition query_pair :: "pystr \<Rightarrow> (pystr \<times> pystr) list" where
  "query_pair item =
     (let name = before [61] item; v = drop 1 (from_first [61] item); plus = map (\<lambda>c. if c = 43 then 32 else c) in
      if v = [] then [] else [(unquote (plus name), unquote (plus v))])"

definition query_value :: "string \<Rightarrow> pystr \<Rightarrow> pystr option" where
  "query_value name query = map_of (concat (map query_pair (split_text 38 query))) (str name)"

section \<open>Numbers, truth and digests\<close>

definition header_space :: "nat \<Rightarrow> bool" where
  "header_space c \<longleftrightarrow> 9 \<le> c \<and> c \<le> 13 \<or> 28 \<le> c \<and> c \<le> 32 \<or> c = 133 \<or> c = 160"

text \<open>Digits with single underscores between them.\<close>

fun digit_groups :: "pystr \<Rightarrow> nat list option" where
  "digit_groups [] = None"
| "digit_groups [c] = (if ascii_digit c then Some [c - 48] else None)"
| "digit_groups (c # d # s) =
     (if \<not> ascii_digit c then None
      else map_option (\<lambda>ds. (c - 48) # ds) (digit_groups (if d = 95 then s else d # s)))"

text \<open>\<open>int(s)\<close> of header text; \<open>None\<close> is \<open>ValueError\<close>.\<close>

definition header_int :: "pystr \<Rightarrow> int option" where
  "header_int text =
     (let s = rev (dropWhile header_space (rev (dropWhile header_space text)));
          sign = (s \<noteq> [] \<and> hd s \<in> {43, 45}) in
      case digit_groups (if sign then tl s else s) of
        None \<Rightarrow> None
      | Some ds \<Rightarrow> if 4300 < length ds then None
          else Some (if sign \<and> hd s = 45 then - int (dec_value ds) else int (dec_value ds)))"

text \<open>The exact value of a decimal literal with a fraction or an exponent; \<open>None\<close> for the infinities and
  \<open>NaN\<close>. \<open>float\<close> rounds it to 53 bits, to zero when it is at most half the least positive number.\<close>

definition float_value :: "pystr \<Rightarrow> rat option" where
  "float_value text =
     (let neg = (take 1 text = [45]); u = (if neg then tl text else text);
          ds = takeWhile ascii_digit u; r = dropWhile ascii_digit u;
          fr = (if take 1 r = [46] then takeWhile ascii_digit (tl r) else []);
          x = (if take 1 r = [46] then dropWhile ascii_digit (tl r) else r);
          eneg = (take 1 (tl x) = [45]);
          es = dropWhile (\<lambda>c. c = 43 \<or> c = 45) (tl x);
          e = (if eneg then - int (dec_value (map (\<lambda>c. c - 48) es)) else int (dec_value (map (\<lambda>c. c - 48) es))) - int (length fr);
          m = of_nat (dec_value (map (\<lambda>c. c - 48) (ds @ fr))) in
      if ds = [] then None
      else Some ((if neg then - 1 else 1) * m * (if 0 \<le> e then 10 ^ nat e else 1 / 10 ^ nat (- e))))"

text \<open>\<open>bool(x)\<close>.\<close>

fun truthy :: "json \<Rightarrow> bool" where
  "truthy JNull = False"
| "truthy (JBool b) = b"
| "truthy (JInt n) = (n \<noteq> 0)"
| "truthy (JFloat t) = (case float_value t of None \<Rightarrow> True | Some x \<Rightarrow> 1 / 2 ^ 1075 < \<bar>x\<bar>)"
| "truthy (JStr s) = (s \<noteq> [])"
| "truthy (JList js) = (js \<noteq> [])"
| "truthy (JObj d) = (d \<noteq> [])"

text \<open>\<open>hmac.compare_digest\<close> of two texts refuses characters outside ASCII.\<close>

definition compare_digest :: "pystr \<Rightarrow> pystr \<Rightarrow> exn + bool" where
  "compare_digest a b = (if ascii_str a \<and> ascii_str b then Inr (a = b) else Inl TypeError)"

text \<open>\<open>json.dumps(payload, sort_keys=True, separators=(",", ":"))\<close>.\<close>

fun sort_json :: "json \<Rightarrow> json" where
  "sort_json (JList js) = JList (map sort_json js)"
| "sort_json (JObj d) = JObj (sort_key fst (map (\<lambda>(k, v). (k, sort_json v)) d))"
| "sort_json j = j"

end
