(* ===== verification/Media.thy ===== *)
theory Media
  imports Prelude
begin

text \<open>
  The media scanner of \<open>okam_native/session.py\<close> (\<open>_note_media\<close>, \<open>_record_unit\<close>, \<open>_preamble\<close>): it
  cuts the byte stream of the helper, which arrives in arbitrary chunks, into Annex-B units and
  remembers the newest parameter sets and keyframe, so that a new viewer can start decoding at once.
  The reference is the same cut applied to the whole stream at once.
\<close>

definition ANNEX_B_START :: bytes where [simp]: "ANNEX_B_START = [0, 0, 1]"
definition MAX_PREAMBLE_BYTES :: nat where "MAX_PREAMBLE_BYTES = 1024 * 1024"
definition MAX_SCAN_BYTES :: nat where "MAX_SCAN_BYTES = 4 * 1024 * 1024"

record media =
  scan_buffer :: bytes
  sps :: bytes
  pps :: bytes
  keyframe :: bytes

definition no_media :: media where
  "no_media = \<lparr>scan_buffer = [], sps = [], pps = [], keyframe = []\<rparr>"

definition record_unit :: "bytes \<Rightarrow> media \<Rightarrow> media" where
  "record_unit unit m =
     (if length unit \<le> length ANNEX_B_START \<or> MAX_PREAMBLE_BYTES < length unit then m
      else
        let kind = unat (unit ! length ANNEX_B_START AND 0x1F) in
        if kind = 7 then m\<lparr>sps := unit\<rparr>
        else if kind = 8 then m\<lparr>pps := unit\<rparr>
        else if kind = 5 then m\<lparr>keyframe := unit\<rparr>
        else m)"

text \<open>The loop that collects the positions of the start code, from a position on; the fuel bounds the
  number of rounds, and every round moves on by at least three bytes.\<close>

function starts_from :: "bytes \<Rightarrow> nat \<Rightarrow> nat list" where
  "starts_from scan k =
     (case find_from ANNEX_B_START scan k of
        None \<Rightarrow> []
      | Some position \<Rightarrow> position # starts_from scan (position + length ANNEX_B_START))"
  by pat_completeness auto
termination
proof (relation "measure (\<lambda>(scan, k). length scan + 1 - k)")
  fix scan :: bytes and k position
  assume f: "find_from ANNEX_B_START scan k = Some position"
  then have "k \<le> position" "position + 3 \<le> length scan"
    using find_from_Some [OF f] occurs_at_bound [of ANNEX_B_START scan position] by auto
  then show "((scan, position + length ANNEX_B_START), (scan, k))
      \<in> measure (\<lambda>(scan, k). length scan + 1 - k)"
    by simp
qed simp

declare starts_from.simps [simp del]

definition units_between :: "bytes \<Rightarrow> nat list \<Rightarrow> bytes list" where
  "units_between scan starts = map (\<lambda>(b, e). pyslice b e scan) (zip starts (tl starts))"

definition note_media :: "bytes \<Rightarrow> media \<Rightarrow> media" where
  "note_media chunk m =
     (let scan = scan_buffer m @ chunk;
          scan = (if MAX_SCAN_BYTES < length scan then drop (length scan - MAX_SCAN_BYTES) scan else scan);
          starts = starts_from scan 0 in
      if length starts < 2 then m\<lparr>scan_buffer := scan\<rparr>
      else (fold record_unit (units_between scan starts) m)\<lparr>scan_buffer := drop (last starts) scan\<rparr>)"

definition preamble :: "media \<Rightarrow> bytes" where
  "preamble m =
     (if sps m = [] \<or> pps m = [] then []
      else
        let p = sps m @ pps m @ keyframe m in
        if length p \<le> MAX_PREAMBLE_BYTES then p else [])"

section \<open>Start codes\<close>

text \<open>The start code has no border, so its occurrences never overlap and the search finds all.\<close>

lemma starts_apart:
  assumes "occurs_at [0, 0, 1] (s :: bytes) i" "occurs_at [0, 0, 1] s j" "i < j"
  shows "i + 3 \<le> j"
proof -
  have at: "s ! k = 0 \<and> s ! (k + 1) = 0 \<and> s ! (k + 2) = 1" if "occurs_at [0, 0, 1] s k" for k
  proof -
    have b: "k + 3 \<le> length s" using occurs_at_bound [OF that] by simp
    have t: "take 3 (drop k s) = [0, 0, 1]" using that by (simp add: occurs_at_def numeral_3_eq_3)
    have "take 3 (drop k s) ! n = s ! (k + n)" if "n < 3" for n
      using that b by simp
    from this [of 0] this [of 1] this [of 2] show ?thesis by (simp add: t)
  qed
  from at [OF assms(1)] at [OF assms(2)] have "j \<noteq> i + 1" "j \<noteq> i + 2" by auto
  with assms(3) show ?thesis by simp
qed

definition all_starts :: "bytes \<Rightarrow> nat list" where
  "all_starts s = filter (occurs_at ANNEX_B_START s) [0..<length s]"

lemma upt_filter_split:
  assumes "k \<le> p" "p < n" "P p" "\<And>j. k \<le> j \<Longrightarrow> j < p \<Longrightarrow> \<not> P j"
    "\<And>j. p < j \<Longrightarrow> j < q \<Longrightarrow> \<not> P j" "p < q" "q \<le> n"
  shows "filter P [k..<n] = p # filter P [q..<n]"
proof -
  have s: "[k..<n] = [k..<p] @ [p] @ [Suc p..<q] @ [q..<n]"
    using assms upt_add_eq_append [of k p "n - p"] upt_add_eq_append [of "Suc p" q "n - q"] upt_conv_Cons [of p n]
    by simp
  have "filter P [k..<p] = []" "filter P [Suc p..<q] = []"
    using assms(4,5) by (auto simp: filter_empty_conv)
  with s assms(3) show ?thesis by simp
qed

lemma starts_from_filter: "starts_from s k = filter (occurs_at ANNEX_B_START s) [k..<length s]"
proof (induction s k rule: starts_from.induct)
  case (1 s k)
  show ?case
  proof (cases "find_from ANNEX_B_START s k")
    case None
    then have "filter (occurs_at ANNEX_B_START s) [k..<length s] = []"
      using find_from_None [OF None] by (auto simp: filter_empty_conv)
    with None show ?thesis by (simp add: starts_from.simps [of s k])
  next
    case (Some p)
    note f = find_from_Some [OF Some]
    have b: "p + 3 \<le> length s" using occurs_at_bound [OF f(2)] by simp
    have "filter (occurs_at ANNEX_B_START s) [k..<length s]
        = p # filter (occurs_at ANNEX_B_START s) [p + 3..<length s]"
    proof (rule upt_filter_split)
      fix j assume "p < j" "j < p + 3"
      then show "\<not> occurs_at ANNEX_B_START s j"
        using starts_apart [of s p j] f(2) by auto
    qed (use f b in auto)
    with 1 [OF Some] Some show ?thesis by (simp add: starts_from.simps [of s k] numeral_3_eq_3)
  qed
qed

lemma starts_all: "starts_from s 0 = all_starts s"
  by (simp add: starts_from_filter all_starts_def)

lemma sorted_starts: "sorted (all_starts s)" "distinct (all_starts s)"
  by (simp_all add: all_starts_def sorted_wrt_filter)

lemma all_starts_mem: "i \<in> set (all_starts s) \<longleftrightarrow> occurs_at [0, 0, 1] s i"
  using occurs_at_bound [of "[0, 0, 1]" s i] by (auto simp: all_starts_def)

text \<open>The start codes of a longer stream: the ones already there, then later ones.\<close>

lemma occurs_at_prefix: "occurs_at n s i \<Longrightarrow> n \<noteq> [] \<Longrightarrow> occurs_at n (s @ t) i"
  using occurs_at_bound [of n s i] by (auto simp: occurs_at_def)

lemma occurs_at_short: "occurs_at n (s @ t) i \<Longrightarrow> i + length n \<le> length s \<Longrightarrow> occurs_at n s i"
  by (simp add: occurs_at_def)

lemma all_starts_append:
  obtains later where "all_starts (s @ t) = all_starts s @ later"
    "\<And>p. p \<in> set later \<Longrightarrow> length s < p + 3"
proof -
  let ?P = "occurs_at ANNEX_B_START (s @ t)"
  have split: "[0..<length (s @ t)] = [0..<length s - 2] @ [length s - 2..<length (s @ t)]"
    using upt_add_eq_append [of 0 "length s - 2" "length (s @ t) - (length s - 2)"] by simp
  have split': "[0..<length s] = [0..<length s - 2] @ [length s - 2..<length s]"
    using upt_add_eq_append [of 0 "length s - 2" "length s - (length s - 2)"] by simp
  have e: "filter (occurs_at ANNEX_B_START s) [length s - 2..<length s] = []"
    using occurs_at_bound [of ANNEX_B_START s] by (fastforce simp: filter_empty_conv)
  have "filter ?P [0..<length s - 2] = filter (occurs_at ANNEX_B_START s) [0..<length s - 2]"
    by (intro filter_cong) (auto intro: occurs_at_prefix occurs_at_short)
  then have "all_starts (s @ t) = all_starts s @ filter ?P [length s - 2..<length (s @ t)]"
    unfolding all_starts_def split split' filter_append e by simp
  then show ?thesis by (rule that) auto
qed

section \<open>The reference\<close>

definition media_of :: "bytes \<Rightarrow> media" where
  "media_of s =
     (let starts = all_starts s in
      (fold record_unit (units_between s starts) no_media)
        \<lparr>scan_buffer := if length starts < 2 then s else drop (last starts) s\<rparr>)"

lemma all_starts_drop:
  "p \<le> length s \<Longrightarrow> all_starts (drop p s) = map (\<lambda>i. i - p) (filter (\<lambda>i. p \<le> i) (all_starts s))"
proof -
  assume p: "p \<le> length s"
  have s: "[0..<length s] = [0..<p] @ [p..<length s]"
    using p upt_add_eq_append [of 0 p "length s - p"] by simp
  have "filter (\<lambda>i. p \<le> i \<and> occurs_at [0, 0, 1] s i) [0..<length s]
      = filter (occurs_at [0, 0, 1] s) [p..<length s]"
    unfolding s filter_append by (auto simp: filter_empty_conv intro: filter_cong)
  then have "filter (\<lambda>i. p \<le> i) (filter (occurs_at [0, 0, 1] s) [0..<length s])
      = filter (occurs_at [0, 0, 1] s) [p..<length s]"
    by (simp add: conj_commute)
  moreover have "map (\<lambda>i. i - p) (filter (occurs_at [0, 0, 1] s) [p..<length s])
      = filter (occurs_at [0, 0, 1] (drop p s)) (map (\<lambda>i. i - p) [p..<length s])"
    by (auto simp: filter_map comp_def occurs_at_drop intro!: arg_cong [where f = "map _"] filter_cong)
  moreover have "map (\<lambda>i. i - p) [p..<length s] = [0..<length s - p]"
    by (rule nth_equalityI) auto
  ultimately show ?thesis by (simp add: all_starts_def)
qed

lemma units_between_append:
  "units_between s (a @ p # later) = units_between s (a @ [p]) @ units_between s (p # later)"
proof (induction a)
  case (Cons x a)
  then show ?case by (cases a) (simp_all add: units_between_def)
qed (simp add: units_between_def)

lemma zip_tl_mem: "(b, e) \<in> set (zip l (tl l)) \<Longrightarrow> b \<in> set l \<and> e \<in> set l"
  by (cases l) (auto dest: set_zip_leftD set_zip_rightD)

lemma units_between_prefix:
  "(\<And>i. i \<in> set l \<Longrightarrow> i \<le> length s) \<Longrightarrow> units_between (s @ t) l = units_between s l"
  unfolding units_between_def
  by (rule map_cong [OF refl]) (auto dest!: zip_tl_mem intro!: pyslice_append_left)

lemma units_between_drop:
  "(\<And>i. i \<in> set l \<Longrightarrow> p \<le> i) \<Longrightarrow> units_between (drop p s) (map (\<lambda>i. i - p) l) = units_between s l"
proof -
  assume l: "\<And>i. i \<in> set l \<Longrightarrow> p \<le> i"
  have "pyslice (b - p) (e - p) (drop p s) = pyslice b e s" if "p \<le> b" "p \<le> e" for b e
    using that by (simp add: pyslice_def)
  then show ?thesis
    using l zip_tl_mem [of _ _ l]
    by (auto simp: units_between_def map_tl [symmetric] zip_map1 zip_map2 zip_map_map)
qed

lemma scan_irrelevant: "(fold record_unit us (m\<lparr>scan_buffer := b\<rparr>)) = (fold record_unit us m)\<lparr>scan_buffer := b\<rparr>"
proof (induction us arbitrary: m)
  case (Cons u us)
  have "record_unit u (m\<lparr>scan_buffer := b\<rparr>) = (record_unit u m)\<lparr>scan_buffer := b\<rparr>"
    by (simp add: record_unit_def Let_def)
  with Cons show ?case by simp
qed simp

lemma note_media_of:
  assumes "length (scan_buffer (media_of s)) + length c \<le> MAX_SCAN_BYTES"
  shows "note_media c (media_of s) = media_of (s @ c)"
proof (cases "length (all_starts s) < 2")
  case True
  have "units_between s (all_starts s) = []"
    using True by (cases "all_starts s") (auto simp: units_between_def)
  with True have "media_of s = no_media\<lparr>scan_buffer := s\<rparr>"
    by (simp add: media_of_def)
  moreover have "units_between (s @ c) st = []" if "length st < 2" for st
    using that by (cases st) (auto simp: units_between_def)
  ultimately show ?thesis
    using assms by (auto simp: note_media_def media_of_def Let_def starts_all scan_irrelevant)
next
  case False
  obtain a p where l: "all_starts s = a @ [p]" and a: "a \<noteq> []"
    using False by (cases "all_starts s" rule: rev_cases) auto
  have occ: "occurs_at [0, 0, 1] s i" if "i \<in> set (all_starts s)" for i
    using that by (simp add: all_starts_mem)
  then have in_s: "i \<le> length s" if "i \<in> set (all_starts s)" for i
    using occurs_at_bound [OF occ [OF that]] by simp
  then have p: "p \<le> length s" by (simp add: l)
  obtain later where later: "all_starts (s @ c) = all_starts s @ later"
    using all_starts_append by blast
  have "sorted (a @ p # later)" "distinct (a @ p # later)"
    using sorted_starts [of "s @ c"] by (simp_all add: later l)
  then have ord: "\<forall>i \<in> set a. i < p" "\<forall>i \<in> set later. p < i"
    by (fastforce simp: sorted_append order.strict_iff_order)+
  have m: "media_of s = (fold record_unit (units_between s (a @ [p])) no_media)\<lparr>scan_buffer := drop p s\<rparr>"
    using a by (simp add: media_of_def l Let_def)
  have scan: "drop p s @ c = drop p (s @ c)" using p by simp
  have fits: "length (drop p (s @ c)) \<le> MAX_SCAN_BYTES" using assms m p by simp
  have "filter (\<lambda>i. p \<le> i) (a @ p # later) = p # later"
  proof -
    have "filter ((\<le>) p) a = []" "filter ((\<le>) p) later = later"
      using ord by (auto simp: filter_empty_conv filter_id_conv)
    then show ?thesis by simp
  qed
  then have st: "starts_from (drop p (s @ c)) 0 = map (\<lambda>i. i - p) (p # later)"
    using all_starts_drop [of p "s @ c"] p unfolding starts_all later l by simp
  have u1: "units_between (s @ c) (a @ [p]) = units_between s (a @ [p])"
    using in_s by (intro units_between_prefix) (simp add: l)
  have u2: "units_between (drop p (s @ c)) (map (\<lambda>i. i - p) (p # later)) = units_between (s @ c) (p # later)"
    using ord by (intro units_between_drop) auto
  have u: "units_between (s @ c) (a @ p # later) = units_between s (a @ [p]) @ units_between (s @ c) (p # later)"
    by (subst units_between_append) (simp add: u1)
  show ?thesis
  proof (cases "later = []")
    case True
    then show ?thesis
      using fits a by (simp add: note_media_def m scan st Let_def media_of_def later l u1 del: drop_append)
  next
    case Cons: False
    then have "last later \<in> set later" by simp
    then have "p < last later" using ord(2) by blast
    moreover have e: "last (map (\<lambda>i. i - p) (p # later)) = last later - p"
      using Cons by (simp add: last_map)
    ultimately have d: "drop (last (map (\<lambda>i. i - p) (p # later))) (drop p (s @ c)) = drop (last later) (s @ c)"
      unfolding e by (simp del: drop_append)
    have "note_media c (media_of s) =
      (fold record_unit (units_between (s @ c) (p # later)) (media_of s))\<lparr>scan_buffer := drop (last later) (s @ c)\<rparr>"
      using fits Cons by (simp add: note_media_def m scan st Let_def u2 d less_Suc_eq del: list.map drop_append drop_drop)
    then show ?thesis
      using a Cons by (simp add: m media_of_def later l u scan_irrelevant)
  qed
qed


text \<open>The chunks of a run whose retained buffer never has to be cut.\<close>

primrec scan_fits :: "bytes list \<Rightarrow> media \<Rightarrow> bool" where
  "scan_fits [] m = True"
| "scan_fits (c # cs) m \<longleftrightarrow>
     length (scan_buffer m) + length c \<le> MAX_SCAN_BYTES \<and> scan_fits cs (note_media c m)"

lemma media_of_Nil: "media_of [] = no_media"
  by (simp add: media_of_def all_starts_def units_between_def no_media_def)

lemma fold_note_media:
  "scan_fits cs (media_of s) \<Longrightarrow> fold note_media cs (media_of s) = media_of (s @ concat cs)"
proof (induction cs arbitrary: s)
  case (Cons c cs)
  then have "note_media c (media_of s) = media_of (s @ c)" by (simp add: note_media_of)
  with Cons.IH [of "s @ c"] Cons.prems show ?case by simp
qed simp

lemma scan_fits_total:
  "length (scan_buffer m) + length (concat cs) \<le> MAX_SCAN_BYTES \<Longrightarrow> scan_fits cs m"
proof (induction cs arbitrary: m)
  case (Cons c cs)
  have "length (scan_buffer (note_media c m)) \<le> length (scan_buffer m) + length c"
    by (auto simp: note_media_def Let_def simp del: drop_append)
  with Cons show ?case by simp
qed simp

text \<open>C20: How the reads cut the stream makes no difference: as long as the retained buffer stays within
  its bound, the scanner remembers exactly what cutting the whole stream at its start codes gives.\<close>

theorem media_chunk_invariant:
  assumes "scan_fits cs no_media"
  shows "fold note_media cs no_media = media_of (concat cs)"
  using fold_note_media [of cs "[]"] assms by (simp add: media_of_Nil)

theorem media_chunk_invariant_witness:
  "fold note_media [[0], [0, 1, 0x67, 9], [0, 0], [1, 0x68, 0, 0, 1]] no_media =
     media_of [0, 0, 1, 0x67, 9, 0, 0, 1, 0x68, 0, 0, 1]"
proof -
  let ?cs = "[[0], [0, 1, 0x67, 9], [0, 0], [1, 0x68, 0, 0, 1]] :: bytes list"
  have "scan_fits ?cs no_media"
    by (rule scan_fits_total) (simp add: no_media_def MAX_SCAN_BYTES_def)
  then show ?thesis using media_chunk_invariant [of ?cs] by simp
qed

section \<open>What a new viewer is given\<close>

definition unit_of_kind :: "nat \<Rightarrow> bytes \<Rightarrow> bool" where
  "unit_of_kind k u \<longleftrightarrow> take 3 u = ANNEX_B_START \<and> 3 < length u \<and> length u \<le> MAX_PREAMBLE_BYTES \<and>
     unat (u ! 3 AND 0x1F) = k"

definition media_ok :: "media \<Rightarrow> bool" where
  "media_ok m \<longleftrightarrow> length (scan_buffer m) \<le> MAX_SCAN_BYTES \<and>
     (sps m = [] \<or> unit_of_kind 7 (sps m)) \<and> (pps m = [] \<or> unit_of_kind 8 (pps m)) \<and>
     (keyframe m = [] \<or> unit_of_kind 5 (keyframe m))"

lemma record_unit_ok:
  assumes "media_ok m" "take 3 u = ANNEX_B_START"
  shows "media_ok (record_unit u m)"
  using assms by (auto simp: record_unit_def media_ok_def unit_of_kind_def Let_def numeral_3_eq_3)

lemma units_start:
  assumes "u \<in> set (units_between s (all_starts s))"
  shows "take 3 u = ANNEX_B_START"
proof -
  obtain b e where be: "(b, e) \<in> set (zip (all_starts s) (tl (all_starts s)))" and u: "u = pyslice b e s"
    using assms by (auto simp: units_between_def)
  have "b < e"
  proof -
    have "sorted_wrt (<) (all_starts s)"
      using sorted_starts [of s] by (simp add: strict_sorted_iff)
    then show ?thesis using be by (auto simp: set_zip nth_tl sorted_wrt_nth_less)
  qed
  moreover have o: "occurs_at [0, 0, 1] s b" "occurs_at [0, 0, 1] s e"
    using zip_tl_mem [OF be] by (simp_all add: all_starts_mem)
  ultimately have "b + 3 \<le> e" by (rule starts_apart [rotated 2])
  then have "take 3 u = take 3 (drop b s)" by (simp add: u pyslice_def min_def)
  then show ?thesis using o(1) by (simp add: occurs_at_def numeral_3_eq_3)
qed

lemma note_media_ok: "media_ok m \<Longrightarrow> media_ok (note_media c m)"
proof -
  assume m: "media_ok m"
  have f: "media_ok (fold record_unit us m)" if "\<forall>u \<in> set us. take 3 u = ANNEX_B_START" for us
    using that m by (induction us arbitrary: m) (simp_all add: record_unit_ok)
  have "media_ok (fold record_unit (units_between s (starts_from s 0)) m)" for s
    using units_start by (intro f) (simp add: starts_all)
  then show ?thesis
    using m by (auto simp: note_media_def Let_def media_ok_def)
qed

text \<open>Whatever the helper sends, the scanner holds at most 4 MiB, and a new viewer is given either
  nothing or at most 1 MiB that starts with a sequence parameter set, a picture parameter set and,
  when one has been seen, a keyframe, each a complete unit behind its start code.\<close>

theorem preamble_decodable:
  "let m = fold note_media cs no_media in
     length (scan_buffer m) \<le> MAX_SCAN_BYTES \<and>
     (preamble m = [] \<or>
      (length (preamble m) \<le> MAX_PREAMBLE_BYTES \<and>
       (\<exists>s p k. preamble m = s @ p @ k \<and> unit_of_kind 7 s \<and> unit_of_kind 8 p \<and> (k = [] \<or> unit_of_kind 5 k))))"
proof -
  have "media_ok no_media" by (simp add: media_ok_def no_media_def)
  then have "media_ok (fold note_media cs no_media)"
    by (induction cs rule: rev_induct) (simp_all add: note_media_ok)
  then show ?thesis by (auto simp: preamble_def media_ok_def Let_def)
qed

end
