(* ===== verification/Process.thy ===== *)
theory Process
  imports Effects P2P
begin

text \<open>
  Child processes as \<open>subprocess.Popen\<close> presents them, and the code that starts and stops them:
  \<open>run_snapshot_probe\<close> and \<open>open_stream_process\<close> of \<open>okam_native/p2p.py\<close>. The operating system is a
  set of scripts, one per kind of call, that say how each call turns out; code whose script runs out
  has not come back. What a \<open>Popen\<close> object knows itself, that the process has been reaped and with
  which status, is state of the model, so that \<open>poll\<close> and \<open>wait\<close> answer from it as the class does.
  Pipes that were asked for exist, as \<open>subprocess\<close> documents, so the \<open>assert\<close>s about them hold.
\<close>

section \<open>The operating system\<close>

record os =
  popens :: "exn option list"
  acts :: "exn option list"
  polls :: "int option list"
  waits :: "(exn + int) list"
  talks :: "(exn + bytes \<times> int) list"
  reads :: "(exn + bytes) list"
  spawned :: "pystr list list"
  codes :: "(nat \<times> int) list"
  signals :: "(nat \<times> bool) list"
  inputs :: "(nat \<times> bytes) list"

text \<open>\<open>Popen(argv)\<close>; the handle of a process is the number of processes started before it.\<close>

definition popen :: "pystr list \<Rightarrow> ('z os_scheme, nat) eff" where
  "popen argv = (\<lambda>s. case popens s of
      [] \<Rightarrow> (Halt, s)
    | Some e # r \<Rightarrow> (Raise e, s\<lparr>popens := r\<rparr>)
    | None # r \<Rightarrow> (Ret (length (spawned s)), s\<lparr>popens := r, spawned := spawned s @ [argv]\<rparr>))"

text \<open>Writing to, or closing, a pipe; and sending a signal, which a reaped process is spared.\<close>

definition act :: "('z os_scheme \<Rightarrow> 'z os_scheme) \<Rightarrow> ('z os_scheme, unit) eff" where
  "act f = (\<lambda>s. case acts s of
      [] \<Rightarrow> (Halt, s)
    | Some e # r \<Rightarrow> (Raise e, s\<lparr>acts := r\<rparr>)
    | None # r \<Rightarrow> (Ret (), f (s\<lparr>acts := r\<rparr>)))"

definition write_stdin :: "nat \<Rightarrow> bytes \<Rightarrow> ('z os_scheme, unit) eff" where
  "write_stdin p bs = act (inputs_update (\<lambda>i. i @ [(p, bs)]))"

definition close_pipe :: "nat \<Rightarrow> ('z os_scheme, unit) eff" where
  "close_pipe p = act (\<lambda>s. s)"

definition poll :: "nat \<Rightarrow> ('z os_scheme, int option) eff" where
  "poll p = (\<lambda>s. case map_of (codes s) p of
      Some c \<Rightarrow> (Ret (Some c), s)
    | None \<Rightarrow> (case polls s of
        [] \<Rightarrow> (Halt, s)
      | None # r \<Rightarrow> (Ret None, s\<lparr>polls := r\<rparr>)
      | Some c # r \<Rightarrow> (Ret (Some c), s\<lparr>polls := r, codes := (p, c) # codes s\<rparr>)))"

definition send_signal :: "bool \<Rightarrow> nat \<Rightarrow> ('z os_scheme, unit) eff" where
  "send_signal forced p = bind (poll p) (\<lambda>c.
     if c = None then act (signals_update (\<lambda>g. g @ [(p, forced)])) else ret ())"

definition kill_process :: "nat \<Rightarrow> ('z os_scheme, unit) eff" where
  "kill_process p = send_signal True p"

definition terminate_process :: "nat \<Rightarrow> ('z os_scheme, unit) eff" where
  "terminate_process p = send_signal False p"

definition wait_process :: "nat \<Rightarrow> ('z os_scheme, int) eff" where
  "wait_process p = (\<lambda>s. case map_of (codes s) p of
      Some c \<Rightarrow> (Ret c, s)
    | None \<Rightarrow> (case waits s of
        [] \<Rightarrow> (Halt, s)
      | Inl e # r \<Rightarrow> (Raise e, s\<lparr>waits := r\<rparr>)
      | Inr c # r \<Rightarrow> (Ret c, s\<lparr>waits := r, codes := (p, c) # codes s\<rparr>)))"

text \<open>\<open>communicate(timeout)\<close>: all of the standard output, once the process has ended.\<close>

definition communicate :: "nat \<Rightarrow> ('z os_scheme, bytes \<times> int) eff" where
  "communicate p = (\<lambda>s. case talks s of
      [] \<Rightarrow> (Halt, s)
    | Inl e # r \<Rightarrow> (Raise e, s\<lparr>talks := r\<rparr>)
    | Inr (out, c) # r \<Rightarrow> (Ret (out, c), s\<lparr>talks := r, codes := (p, c) # codes s\<rparr>))"

definition read_stderr :: "nat \<Rightarrow> nat \<Rightarrow> ('z os_scheme, bytes) eff" where
  "read_stderr p n = (\<lambda>s. case reads s of
      [] \<Rightarrow> (Halt, s)
    | Inl e # r \<Rightarrow> (Raise e, s\<lparr>reads := r\<rparr>)
    | Inr bs # r \<Rightarrow> (Ret (take n bs), s\<lparr>reads := r\<rparr>))"

definition reaped :: "'z os_scheme \<Rightarrow> nat \<Rightarrow> bool" where
  "reaped s p \<longleftrightarrow> has_key (codes s) p"

section \<open>Stopping a process\<close>

definition process_failure :: "exn \<Rightarrow> bool" where
  "process_failure e \<longleftrightarrow> e = OSError \<or> is_subprocess_error e"

text \<open>\<open>p.terminate(); try: p.wait(grace) except TimeoutExpired: p.kill(); p.wait(5)\<close>.\<close>

definition terminate_then_kill :: "nat \<Rightarrow> ('z os_scheme, unit) eff" where
  "terminate_then_kill p =
     seq (terminate_process p)
       (catch (bind (wait_process p) (\<lambda>_. ret ())) (\<lambda>e.
          if e = TimeoutExpired then seq (kill_process p) (bind (wait_process p) (\<lambda>_. ret ()))
          else raise e))"

definition kill_and_wait :: "nat \<Rightarrow> ('z os_scheme, unit) eff" where
  "kill_and_wait p = seq (kill_process p) (bind (wait_process p) (\<lambda>_. ret ()))"

text \<open>\<open>if p is not None and p.poll() is None: ...\<close>.\<close>

definition if_running :: "nat option \<Rightarrow> (nat \<Rightarrow> ('z os_scheme, unit) eff) \<Rightarrow> ('z os_scheme, unit) eff" where
  "if_running p f = (case p of
      None \<Rightarrow> ret ()
    | Some h \<Rightarrow> bind (poll h) (\<lambda>c. if c = None then f h else ret ()))"

section \<open>The summary on the standard error\<close>

text \<open>\<open>bytes.splitlines()\<close>: lines end at \<open>\n\<close>, \<open>\r\<close> or \<open>\r\n\<close>; a final line may be unterminated.\<close>

fun lines_from :: "bytes \<Rightarrow> bytes \<Rightarrow> bytes list" where
  "lines_from line [] = (if line = [] then [] else [line])"
| "lines_from line (b # bs) =
     (if b = 13 then line # lines_from [] (if bs \<noteq> [] \<and> hd bs = 10 then tl bs else bs)
      else if b = 10 then line # lines_from [] bs
      else lines_from (line @ [b]) bs)"

definition splitlines :: "bytes \<Rightarrow> bytes list" where
  "splitlines bs = lines_from [] bs"

text \<open>The first of the (reversed) lines that is a JSON object with the key; a line that is not JSON
  text is skipped.\<close>

fun find_summary :: "string \<Rightarrow> bytes list \<Rightarrow> exn + json" where
  "find_summary key [] = Inr JNull"
| "find_summary key (line # lines) =
     (case json_loads_utf8 line of
        Inl e \<Rightarrow> (if e = UnicodeError \<or> e = JSONDecodeError then find_summary key lines else Inl e)
      | Inr (JObj d) \<Rightarrow> (if has_key d (str key) then Inr (JObj d) else find_summary key lines)
      | Inr _ \<Rightarrow> find_summary key lines)"

section \<open>The snapshot probe\<close>

record snapshot_locals = os +
  helper_slot :: "nat option"
  decoder_slot :: "nat option"

definition decoder_argv :: "pystr \<Rightarrow> pystr list" where
  "decoder_argv ffmpeg = ffmpeg # map str [''-hide_banner'', ''-loglevel'', ''error'', ''-f'', ''h264'', ''-i'',
     ''pipe:0'', ''-frames:v'', ''1'', ''-f'', ''image2pipe'', ''-c:v'', ''mjpeg'', ''-q:v'', ''3'', ''pipe:1'']"

definition snapshot_body ::
    "pystr \<Rightarrow> pystr \<Rightarrow> pystr \<Rightarrow> bytes \<Rightarrow> ('z snapshot_locals_scheme, bytes \<times> bytes) eff" where
  "snapshot_body helper library ffmpeg stdin =
     bind (popen [helper, library, str ''--stream-stdout'']) (\<lambda>h.
     seq (modify (helper_slot_update (\<lambda>_. Some h)))
     (seq (write_stdin h stdin)
     (seq (close_pipe h)
     (bind (popen (decoder_argv ffmpeg)) (\<lambda>d.
     seq (modify (decoder_slot_update (\<lambda>_. Some d)))
     (seq (close_pipe h)
     (bind (communicate d) (\<lambda>(jpeg, code).
     if code \<noteq> 0 then raise (P2PError ''native snapshot decoder failed'')
     else bind (wait_process h) (\<lambda>_.
       bind (read_stderr h (MAX_RESPONSE_BYTES + 1)) (\<lambda>err. ret (jpeg, err)))))))))))"

definition sanitised :: "string \<Rightarrow> ('s, 'a) eff \<Rightarrow> ('s, 'a) eff" where
  "sanitised msg m = catch m (\<lambda>e. if process_failure e then raise (P2PError msg) else raise e)"

definition snapshot_cleanup :: "('z snapshot_locals_scheme, unit) eff" where
  "snapshot_cleanup =
     seq (bind (gets decoder_slot) (\<lambda>d. if_running d kill_and_wait))
       (bind (gets helper_slot) (\<lambda>h. if_running h terminate_then_kill))"

text \<open>\<open>helper_process.returncode\<close>.\<close>

definition returncode :: "'z os_scheme \<Rightarrow> nat option \<Rightarrow> int" where
  "returncode s p = (case p of None \<Rightarrow> 0 | Some h \<Rightarrow> dict_get (codes s) h 0)"

definition run_snapshot_probe ::
    "pystr \<Rightarrow> pystr \<Rightarrow> pystr \<Rightarrow> pystr \<Rightarrow> pystr \<Rightarrow> pystr \<Rightarrow>
      ('z snapshot_locals_scheme, snapshot_probe_result) eff" where
  "run_snapshot_probe helper library ffmpeg uid service password =
     bind (lift_sum (fields_input [uid, service, password])) (\<lambda>stdin.
     seq (modify (\<lambda>s. s\<lparr>helper_slot := None, decoder_slot := None\<rparr>))
     (bind (try_finally
         (sanitised ''native snapshot helper failed'' (snapshot_body helper library ffmpeg stdin))
         snapshot_cleanup) (\<lambda>(jpeg, err).
     if MAX_RESPONSE_BYTES < length err
     then raise (P2PError ''native snapshot helper returned an invalid response'')
     else
       bind (lift_sum (find_summary ''h264_received'' (rev (splitlines err)))) (\<lambda>payload.
       bind (gets (\<lambda>s. returncode s (helper_slot s))) (\<lambda>code.
       bind (lift_sum (stream_result payload code)) (\<lambda>stream.
       bind (lift_sum (jpeg_dimensions jpeg)) (\<lambda>(width, height).
       ret (stream_probe_result.extend stream (snapshot_probe_result.fields jpeg width height)))))))))"

section \<open>Opening a stream process\<close>

definition open_stream_body :: "pystr \<Rightarrow> pystr \<Rightarrow> bytes \<Rightarrow> ('z snapshot_locals_scheme, nat) eff" where
  "open_stream_body helper library stdin =
     bind (popen [helper, library, str ''--stream-stdout'']) (\<lambda>h.
     seq (modify (helper_slot_update (\<lambda>_. Some h)))
     (seq (write_stdin h stdin)
     (seq (close_pipe h) (ret h))))"

definition open_stream_process ::
    "pystr \<Rightarrow> pystr \<Rightarrow> pystr \<Rightarrow> pystr \<Rightarrow> pystr \<Rightarrow> ('z snapshot_locals_scheme, nat) eff" where
  "open_stream_process helper library uid service password =
     bind (lift_sum (fields_input [uid, service, password])) (\<lambda>stdin.
     seq (modify (helper_slot_update (\<lambda>_. None)))
     (catch (open_stream_body helper library stdin) (\<lambda>e.
       if process_failure e then
         seq (bind (gets helper_slot) (\<lambda>h. if_running h kill_and_wait))
           (raise (P2PError ''native H.264 stream helper failed''))
       else raise e)))"

section \<open>What the calls leave alone\<close>

definition failures :: "'z os_scheme \<Rightarrow> exn set" where
  "failures s = {e. Some e \<in> set (popens s)} \<union> {e. Some e \<in> set (acts s)} \<union> {e. Inl e \<in> set (waits s)} \<union>
     {e. Inl e \<in> set (talks s)} \<union> {e. Inl e \<in> set (reads s)}"

definition kept :: "'z snapshot_locals_scheme \<Rightarrow> 'z snapshot_locals_scheme \<Rightarrow> bool" where
  "kept s t \<longleftrightarrow> spawned t = spawned s \<and> helper_slot t = helper_slot s \<and> decoder_slot t = decoder_slot s \<and>
     (\<forall>p. reaped s p \<longrightarrow> reaped t p) \<and> failures t \<subseteq> failures s"

interpretation kept: two_state kept
  by unfold_locales (auto simp: kept_def)

lemma has_key_ConsI: "has_key d k \<Longrightarrow> has_key ((j, v) # d) k"
  by (simp add: has_key_def)

lemma act_kept:
  assumes "\<And>s. kept s (f s)"
  shows "steps_by kept (act f)"
proof (rule steps_byI)
  fix s r t assume a: "act f s = (r, t)"
  show "kept s t"
  proof (cases "acts s")
    case (Cons x xs)
    have k: "kept s (s\<lparr>acts := xs\<rparr>)" by (auto simp: kept_def failures_def reaped_def Cons)
    with a Cons kept.R_trans [OF k assms] show ?thesis by (auto simp: act_def split: option.splits)
  qed (use a in \<open>auto simp: act_def kept.R_refl\<close>)
qed

lemma basic_kept:
  "steps_by kept (write_stdin p bs)" "steps_by kept (close_pipe p)" "steps_by kept (poll p)"
  "steps_by kept (wait_process p)" "steps_by kept (communicate p)" "steps_by kept (read_stderr p n)"
proof -
  show "steps_by kept (write_stdin p bs)" "steps_by kept (close_pipe p)"
    unfolding write_stdin_def close_pipe_def
    by (rule act_kept; auto simp: kept_def failures_def reaped_def)+
qed (rule steps_byI; auto simp: poll_def wait_process_def communicate_def read_stderr_def kept_def
    failures_def reaped_def has_key_ConsI split: option.splits list.splits sum.splits prod.splits)+

lemma signal_kept: "steps_by kept (send_signal forced p)"
  unfolding send_signal_def
  by (intro kept.step_rules basic_kept act_kept) (auto simp: kept_def failures_def reaped_def)

lemmas kept_rules = kept.step_rules basic_kept signal_kept

lemma cleanup_kept: "steps_by kept snapshot_cleanup"
  unfolding snapshot_cleanup_def if_running_def kill_and_wait_def terminate_then_kill_def
    kill_process_def terminate_process_def
  by (intro kept_rules)

text \<open>Whoever comes back from waiting for a process has reaped it.\<close>

lemma wait_reaps: "wait_process p s = (Ret c, t) \<Longrightarrow> reaped t p"
  by (auto simp: wait_process_def reaped_def has_key_def split: option.splits list.splits sum.splits
    dest: map_of_SomeD intro: image_eqI [rotated])

lemma poll_reaps: "poll p s = (Ret (Some c), t) \<Longrightarrow> reaped t p"
  by (auto simp: poll_def reaped_def has_key_def split: option.splits list.splits
    dest: map_of_SomeD intro: image_eqI [rotated])

lemma kill_and_wait_reaps: "kill_and_wait p s = (Ret (), t) \<Longrightarrow> reaped t p"
  by (auto simp: kill_and_wait_def seq_eq_Ret bind_eq_Ret dest: wait_reaps)

lemma catch_eq_Ret:
  "catch m h s = (Ret x, t) \<longleftrightarrow> m s = (Ret x, t) \<or> (\<exists>e u. m s = (Raise e, u) \<and> h e u = (Ret x, t))"
  by (auto simp: catch_def split: prod.splits outcome.splits)

lemma terminate_reaps: "terminate_then_kill p s = (Ret (), t) \<Longrightarrow> reaped t p"
  by (auto simp: terminate_then_kill_def seq_eq_Ret bind_eq_Ret catch_eq_Ret dest: wait_reaps split: if_splits)

lemma if_running_reaps:
  assumes "if_running (Some p) f s = (Ret (), t)" "\<And>s t. f p s = (Ret (), t) \<Longrightarrow> reaped t p"
  shows "reaped t p"
  using assms by (auto simp: if_running_def bind_eq_Ret dest: poll_reaps split: if_splits)

lemma cleanup_reaps:
  assumes "snapshot_cleanup s = (Ret (), t)" "helper_slot s = Some p \<or> decoder_slot s = Some p"
  shows "reaped t p"
proof -
  obtain u where d: "if_running (decoder_slot s) kill_and_wait s = (Ret (), u)"
    and h: "if_running (helper_slot u) terminate_then_kill u = (Ret (), t)"
    using assms(1) by (auto simp: snapshot_cleanup_def seq_eq_Ret bind_eq_Ret)
  have "steps_by kept (if_running x kill_and_wait)" "steps_by kept (if_running x terminate_then_kill)" for x
    unfolding if_running_def kill_and_wait_def terminate_then_kill_def kill_process_def terminate_process_def
    by (intro kept_rules)+
  from steps_byD [OF this(1) d] steps_byD [OF this(2) h]
  have k: "kept s u" "kept u t" .
  from assms(2) show ?thesis
  proof
    assume "helper_slot s = Some p"
    with k have "helper_slot u = Some p" by (simp add: kept_def)
    with h show ?thesis by (auto intro: if_running_reaps [OF _ terminate_reaps])
  next
    assume "decoder_slot s = Some p"
    with d have "reaped u p" by (auto intro: if_running_reaps [OF _ kill_and_wait_reaps])
    with k show ?thesis by (simp add: kept_def)
  qed
qed

text \<open>Every exception that the clean-up lets out is one that the operating system raised.\<close>

definition blames :: "('z snapshot_locals_scheme, 'a) eff \<Rightarrow> bool" where
  "blames m \<longleftrightarrow> (\<forall>s e t. m s = (Raise e, t) \<longrightarrow> e \<in> failures s)"

lemma blames_bind:
  assumes "blames m" "steps_by kept m" "\<And>x. blames (f x)"
  shows "blames (bind m f)"
  unfolding blames_def
proof (intro allI impI)
  fix s e t assume "bind m f s = (Raise e, t)"
  then show "e \<in> failures s"
  proof (cases rule: bind_cases)
    case (Ret x u)
    with assms show ?thesis using steps_byD [OF assms(2) Ret(1)] by (fastforce simp: blames_def kept_def)
  qed (use assms(1) in \<open>auto simp: blames_def\<close>)
qed

lemma blames_seq: "blames m \<Longrightarrow> steps_by kept m \<Longrightarrow> blames n \<Longrightarrow> blames (seq m n)"
  by (simp add: seq_def blames_bind)

lemma blames_basic: "blames (ret x)" "blames (gets g)" "blames (poll p)" "blames (wait_process p)" "blames (act f)"
  by (auto simp: blames_def poll_def wait_process_def act_def failures_def
    split: option.splits list.splits sum.splits)

lemma blames_signal: "blames (send_signal forced p)"
  unfolding send_signal_def
  by (intro blames_bind basic_kept blames_basic, simp add: blames_basic split: if_split)

lemma blames_catch:
  assumes "blames m" "steps_by kept m" "\<And>e. e \<noteq> TimeoutExpired \<Longrightarrow> h e = raise e" "blames (h TimeoutExpired)"
  shows "blames (catch m h)"
  unfolding blames_def
proof (intro allI impI)
  fix s e t assume c: "catch m h s = (Raise e, t)"
  obtain r u where m: "m s = (r, u)" by (cases "m s")
  have k: "kept s u" by (rule steps_byD [OF assms(2) m])
  show "e \<in> failures s"
  proof (cases r)
    case (Raise e')
    show ?thesis
    proof (cases "e' = TimeoutExpired")
      case True
      with c m Raise assms(4) k show ?thesis by (fastforce simp: catch_def blames_def kept_def)
    next
      case False
      with c m Raise assms(1,3) show ?thesis by (auto simp: catch_def blames_def)
    qed
  qed (use c m in \<open>auto simp: catch_def\<close>)
qed

lemma cleanup_blames: "blames snapshot_cleanup"
proof -
  have w: "blames (bind (wait_process p) (\<lambda>_. ret ()))" "steps_by kept (bind (wait_process p) (\<lambda>_. ret ()))" for p
    by (intro blames_bind basic_kept blames_basic, intro kept_rules)
  have k: "blames (kill_and_wait p)" for p
    unfolding kill_and_wait_def kill_process_def by (intro blames_seq blames_signal signal_kept w)
  have t: "blames (terminate_then_kill p)" for p
    unfolding terminate_then_kill_def terminate_process_def
    by (intro blames_seq blames_signal signal_kept blames_catch w) (use k in \<open>auto simp: kill_and_wait_def\<close>)
  have r: "blames (if_running x f)" if "\<And>p. blames (f p)" for x and f :: "nat \<Rightarrow> ('a snapshot_locals_scheme, unit) eff"
    unfolding if_running_def using that
    by (auto split: option.split intro!: blames_bind basic_kept blames_basic)
  have s: "steps_by kept (bind (gets decoder_slot) (\<lambda>d. if_running d kill_and_wait))"
    unfolding if_running_def kill_and_wait_def kill_process_def by (intro kept_rules)
  show ?thesis
    unfolding snapshot_cleanup_def by (intro blames_seq blames_bind blames_basic r k t s kept_rules)
qed


section \<open>No process outlives the probe\<close>

text \<open>
  The processes started since there were \<open>n\<close> of them are in the two slots. A step is sound for a
  stage of the body when, from every state of the stage, it ends with that true, however it ends.
\<close>

definition in_slots :: "nat \<Rightarrow> 'z snapshot_locals_scheme \<Rightarrow> bool" where
  "in_slots n s \<longleftrightarrow> (\<forall>p. n \<le> p \<and> p < length (spawned s) \<longrightarrow> helper_slot s = Some p \<or> decoder_slot s = Some p)"

definition sound :: "nat \<Rightarrow> ('z snapshot_locals_scheme \<Rightarrow> bool) \<Rightarrow> ('z snapshot_locals_scheme, 'a) eff \<Rightarrow> bool" where
  "sound n I m \<longleftrightarrow> (\<forall>s r t. I s \<longrightarrow> in_slots n s \<longrightarrow> m s = (r, t) \<longrightarrow> in_slots n t)"

lemma kept_in_slots: "kept s t \<Longrightarrow> in_slots n s \<Longrightarrow> in_slots n t"
  by (simp add: kept_def in_slots_def)

lemma sound_kept: "steps_by kept m \<Longrightarrow> sound n I m"
  by (auto simp: sound_def dest: steps_byD intro: kept_in_slots)

lemma sound_bind:
  assumes "\<And>s t. kept s t \<Longrightarrow> I s \<Longrightarrow> I t" "steps_by kept m" "\<And>x. sound n I (f x)"
  shows "sound n I (bind m f)"
  unfolding sound_def
proof (intro allI impI)
  fix s r t assume I: "I s" "in_slots n s" and b: "bind m f s = (r, t)"
  from b show "in_slots n t"
  proof (cases rule: bind_cases)
    case (Ret x u)
    have "kept s u" by (rule steps_byD [OF assms(2) Ret(1)])
    then have "I u" "in_slots n u" using assms(1) I kept_in_slots by blast+
    then show ?thesis using assms(3) Ret(2) by (auto simp: sound_def)
  qed (use I(2) kept_in_slots steps_byD [OF assms(2)] in blast)+
qed

lemma sound_seq:
  assumes "\<And>s t. kept s t \<Longrightarrow> I s \<Longrightarrow> I t" "steps_by kept m" "sound n I k"
  shows "sound n I (seq m k)"
  unfolding seq_def using assms by (rule sound_bind)

lemma sound_spawn_helper:
  assumes "\<And>h. sound n (\<lambda>s. decoder_slot s = None) (k h)"
  shows "sound n (\<lambda>s. helper_slot s = None \<and> decoder_slot s = None)
    (bind (popen a) (\<lambda>h. seq (modify (helper_slot_update (\<lambda>_. Some h))) (k h)))"
  unfolding sound_def
proof (intro allI impI)
  fix s r t
  assume s: "helper_slot s = None \<and> decoder_slot s = None" "in_slots n s"
    and b: "bind (popen a) (\<lambda>h. seq (modify (helper_slot_update (\<lambda>_. Some h))) (k h)) s = (r, t)"
  show "in_slots n t"
  proof (cases "popens s")
    case (Cons x xs)
    let ?u = "s\<lparr>popens := xs, spawned := spawned s @ [a], helper_slot := Some (length (spawned s))\<rparr>"
    have u: "in_slots n ?u" using s by (auto simp: in_slots_def less_Suc_eq)
    show ?thesis
    proof (cases x)
      case None
      with b Cons have "k (length (spawned s)) ?u = (r, t)"
        by (simp add: bind_def popen_def seq_modify)
      with u assms [unfolded sound_def, rule_format, of ?u] s(1) show ?thesis by simp
    qed (use b Cons s in \<open>auto simp: bind_def popen_def in_slots_def\<close>)
  qed (use b s in \<open>auto simp: bind_def popen_def\<close>)
qed

lemma sound_spawn_decoder:
  assumes "\<And>h. sound n (\<lambda>_. True) (k h)"
  shows "sound n (\<lambda>s. decoder_slot s = None)
    (bind (popen a) (\<lambda>h. seq (modify (decoder_slot_update (\<lambda>_. Some h))) (k h)))"
  unfolding sound_def
proof (intro allI impI)
  fix s r t
  assume s: "decoder_slot s = None" "in_slots n s"
    and b: "bind (popen a) (\<lambda>h. seq (modify (decoder_slot_update (\<lambda>_. Some h))) (k h)) s = (r, t)"
  show "in_slots n t"
  proof (cases "popens s")
    case (Cons x xs)
    let ?u = "s\<lparr>popens := xs, spawned := spawned s @ [a], decoder_slot := Some (length (spawned s))\<rparr>"
    have u: "in_slots n ?u" using s by (auto simp: in_slots_def less_Suc_eq)
    show ?thesis
    proof (cases x)
      case None
      with b Cons have "k (length (spawned s)) ?u = (r, t)"
        by (simp add: bind_def popen_def seq_modify)
      with u assms [unfolded sound_def, rule_format, of ?u] show ?thesis by simp
    qed (use b Cons s in \<open>auto simp: bind_def popen_def in_slots_def\<close>)
  qed (use b s in \<open>auto simp: bind_def popen_def\<close>)
qed

lemma body_sound:
  "sound n (\<lambda>s. helper_slot s = None \<and> decoder_slot s = None) (snapshot_body helper library ffmpeg stdin)"
proof -
  have b: "sound n (\<lambda>s. decoder_slot s = None) (seq m k)" if "steps_by kept m" "sound n (\<lambda>s. decoder_slot s = None) k"
    for m :: "('a snapshot_locals_scheme, unit) eff" and k :: "('a snapshot_locals_scheme, bytes \<times> bytes) eff"
    by (rule sound_seq) (use that in \<open>auto simp: kept_def\<close>)
  show ?thesis
    unfolding snapshot_body_def
    by (intro sound_spawn_helper b basic_kept sound_spawn_decoder sound_kept kept_rules)
qed

definition fewer :: "'z snapshot_locals_scheme \<Rightarrow> 'z snapshot_locals_scheme \<Rightarrow> bool" where
  "fewer s t \<longleftrightarrow> failures t \<subseteq> failures s"

interpretation fewer: two_state fewer
  by unfold_locales (auto simp: fewer_def)

lemma kept_fewer: "steps_by kept m \<Longrightarrow> steps_by fewer m"
  by (simp add: steps_by_def kept_def fewer_def)

lemma popen_fewer: "steps_by fewer (popen a)"
  by (rule steps_byI) (auto simp: popen_def fewer_def failures_def split: list.splits option.splits)

lemma body_fewer: "steps_by fewer (snapshot_body helper library ffmpeg stdin)"
  unfolding snapshot_body_def
  by (intro fewer.step_rules popen_fewer basic_kept [THEN kept_fewer] fewer.modify_step)
    (auto simp: fewer_def failures_def)

text \<open>The guarded part of the probe: whatever happens in it, either everything it started has been
  reaped, or the clean-up itself failed with an error of the operating system.\<close>

lemma guarded_reaps:
  assumes f: "try_finally (sanitised msg (snapshot_body helper library ffmpeg stdin)) snapshot_cleanup s = (r, t)"
    and s: "helper_slot s = None" "decoder_slot s = None" and r: "r \<noteq> Halt"
    and p: "length (spawned s) \<le> p" "p < length (spawned t)"
  shows "reaped t p \<or> (\<exists>e \<in> failures s. r = Raise e)"
proof -
  let ?n = "length (spawned s)" and ?m = "sanitised msg (snapshot_body helper library ffmpeg stdin)"
  obtain q u where m: "?m s = (q, u)" by (cases "?m s")
  obtain q' v where b: "snapshot_body helper library ffmpeg stdin s = (q', v)"
    by (cases "snapshot_body helper library ffmpeg stdin s")
  have "in_slots ?n s" by (auto simp: in_slots_def)
  with body_sound b s have "in_slots ?n v" by (fastforce simp: sound_def)
  moreover have "u = v"
    using m b by (auto simp: sanitised_def catch_def split: outcome.splits if_splits)
  ultimately have slots: "in_slots ?n u" by simp
  have fs: "failures v \<subseteq> failures s"
    using steps_byD [OF body_fewer b] by (simp add: fewer_def)
  obtain c w where c: "snapshot_cleanup u = (c, w)" by (cases "snapshot_cleanup u")
  have k: "kept u w" by (rule steps_byD [OF cleanup_kept c])
  show ?thesis
  proof (cases c)
    case (Ret x)
    with f m c r have t: "t = w" by (auto simp: try_finally_def split: outcome.splits)
    with p k have "p < length (spawned u)" by (simp add: kept_def)
    with slots p have "helper_slot u = Some p \<or> decoder_slot u = Some p" by (auto simp: in_slots_def)
    with cleanup_reaps [of u w p] c Ret t show ?thesis by simp
  next
    case (Raise e)
    with c cleanup_blames have "e \<in> failures u" by (auto simp: blames_def)
    with f m c r Raise fs \<open>u = v\<close> show ?thesis by (auto simp: try_finally_def split: outcome.splits)
  next
    case Halt
    with f m c r show ?thesis by (auto simp: try_finally_def split: outcome.splits)
  qed
qed


lemma probe_reaps:
  assumes p: "run_snapshot_probe helper library ffmpeg uid service password s = (r, t)"
    and r: "r \<noteq> Halt" and n: "length (spawned s) \<le> k" "k < length (spawned t)"
  shows "reaped t k \<or> (\<exists>e \<in> failures s. r = Raise e)"
proof (cases "fields_input [uid, service, password]")
  case (Inl e)
  with p n show ?thesis by (simp add: run_snapshot_probe_def lift_sum_def)
next
  case (Inr stdin)
  let ?s = "s\<lparr>helper_slot := None, decoder_slot := None\<rparr>"
  let ?m = "try_finally (sanitised ''native snapshot helper failed''
    (snapshot_body helper library ffmpeg stdin)) snapshot_cleanup"
  have f: "failures ?s = failures s" by (simp add: failures_def)
  obtain q u where m: "?m ?s = (q, u)" by (cases "?m ?s")
  have tail: "(\<exists>e. q = Raise e \<and> r = Raise e \<and> t = u) \<or> (\<exists>x. q = Ret x \<and> t = u)" if "q \<noteq> Halt"
  proof (cases q)
    case (Ret x)
    with p Inr m have "t = u"
      by (cases x) (auto simp: run_snapshot_probe_def lift_sum_def seq_modify bind_def
        split: if_splits sum.splits prod.splits)
    with Ret show ?thesis by blast
  next
    case (Raise e)
    with p Inr m have "r = Raise e \<and> t = u"
      by (simp add: run_snapshot_probe_def lift_sum_def seq_modify bind_Raise)
    with Raise show ?thesis by blast
  qed (use that in simp)
  have "q \<noteq> Halt"
    using p Inr m r by (auto simp: run_snapshot_probe_def lift_sum_def seq_modify bind_Halt)
  with tail have "t = u" by auto
  from guarded_reaps [OF m _ _ \<open>q \<noteq> Halt\<close>, of k] n \<open>t = u\<close>
  have "reaped u k \<or> (\<exists>e \<in> failures s. q = Raise e)" by (simp add: f)
  with tail \<open>q \<noteq> Halt\<close> \<open>t = u\<close> show ?thesis by auto
qed

text \<open>C23: No process outlives the snapshot probe: whenever it comes back, with a picture or with an
  error, the helper and the decoder it started have both been reaped, unless the clean-up itself
  was refused by the operating system, and then that error is the one reported.\<close>

theorem snapshot_probe_reaps:
  assumes "run_snapshot_probe helper library ffmpeg uid service password s = (r, t)" "r \<noteq> Halt"
    "length (spawned s) \<le> k" "k < length (spawned t)"
  shows "reaped t k \<or> (\<exists>e \<in> failures s. r = Raise e)"
  using assms by (rule probe_reaps)

text \<open>The decoder cannot be started, and the helper has to be killed.\<close>

definition stubborn_helper :: snapshot_locals where
  "stubborn_helper = \<lparr>popens = [None, Some OSError], acts = [None, None, None, None],
     polls = [None, None, None], waits = [Inl TimeoutExpired, Inr (- 9)], talks = [], reads = [],
     spawned = [], codes = [], signals = [], inputs = [], helper_slot = None, decoder_slot = None\<rparr>"

definition probe_abc :: "snapshot_locals \<Rightarrow> snapshot_probe_result outcome \<times> snapshot_locals" where
  "probe_abc = run_snapshot_probe (str ''helper'') (str ''lib'') (str ''ffmpeg'') (str ''a'') (str ''b'') (str ''c'')"

lemma stubborn_run:
  "fst (probe_abc stubborn_helper) = Raise (P2PError ''native snapshot helper failed'')"
  "spawned (snd (probe_abc stubborn_helper)) = [map str [''helper'', ''lib'', ''--stream-stdout'']]"
  "signals (snd (probe_abc stubborn_helper)) = [(0, False), (0, True)]"
  by (simp_all add: probe_abc_def run_snapshot_probe_def p2p_field_def encode_utf8_def scalar_str_def
    is_surrogate_def utf8_bytes_def str_def stubborn_helper_def try_finally_def sanitised_def
    snapshot_body_def popen_def write_stdin_def close_pipe_def act_def snapshot_cleanup_def if_running_def
    poll_def terminate_then_kill_def terminate_process_def kill_process_def send_signal_def
    wait_process_def process_failure_def eff_defs)

theorem snapshot_probe_reaps_witness:
  "reaped (snd (probe_abc stubborn_helper)) 0"
proof -
  obtain r t where rt: "probe_abc stubborn_helper = (r, t)" by (cases "probe_abc stubborn_helper")
  have "reaped t 0 \<or> (\<exists>e \<in> failures stubborn_helper. r = Raise e)"
  proof (rule snapshot_probe_reaps)
    show "run_snapshot_probe (str ''helper'') (str ''lib'') (str ''ffmpeg'') (str ''a'') (str ''b'') (str ''c'')
        stubborn_helper = (r, t)"
      using rt by (simp add: probe_abc_def)
  qed (use stubborn_run rt in \<open>simp_all add: stubborn_helper_def\<close>)
  moreover have "failures stubborn_helper = {OSError, TimeoutExpired}"
    by (auto simp: failures_def stubborn_helper_def)
  ultimately show ?thesis using stubborn_run(1) rt by auto
qed

end
