(* ===== verification/Stream_Session.thy ===== *)
theory Stream_Session
  imports Media Process
begin

text \<open>
  The reference-counted stream session (\<open>okam_native/session.py\<close>): viewers with bounded queues share
  one helper process; a pump thread per process feeds them and ends them when the process is gone;
  the last viewer to leave arms an idle timer. The critical sections under the session's lock, and
  the queue operations outside it, are the atomic steps; the step relation lets every thread
  (viewers, pumps, stderr readers, timers, stoppers) interleave at that granularity. Processes,
  subscriptions and timers are numbered in the order in which they are created.
\<close>

section \<open>Bounded queues\<close>

definition QUEUE_SIZE :: nat where "QUEUE_SIZE = 32"

definition put_nowait :: "nat \<Rightarrow> 'a \<Rightarrow> 'a list \<Rightarrow> 'a list option" where
  "put_nowait capacity x q = (if length q < capacity then Some (q @ [x]) else None)"

definition get_nowait :: "'a list \<Rightarrow> ('a \<times> 'a list) option" where
  "get_nowait q = (case q of [] \<Rightarrow> None | x # r \<Rightarrow> Some (x, r))"

text \<open>Put an item, making room by dropping the oldest one; what still fails is given up.\<close>

definition offer :: "('a \<Rightarrow> 'q \<Rightarrow> 'q option) \<Rightarrow> ('q \<Rightarrow> ('a \<times> 'q) option) \<Rightarrow> 'a \<Rightarrow> 'q \<Rightarrow> 'q" where
  "offer put get x q = (case put x q of
      Some q' \<Rightarrow> q'
    | None \<Rightarrow> (case get q of
        None \<Rightarrow> q
      | Some (_, r) \<Rightarrow> (case put x r of Some q' \<Rightarrow> q' | None \<Rightarrow> r)))"

locale bounded_queue =
  fixes put :: "'a \<Rightarrow> 'q \<Rightarrow> 'q option"
    and get :: "'q \<Rightarrow> ('a \<times> 'q) option"
    and contents :: "'q \<Rightarrow> 'a list"
    and capacity :: nat
  assumes put_some: "put x q = Some q' \<Longrightarrow> contents q' = contents q @ [x] \<and> length (contents q) < capacity"
    and put_none: "put x q = None \<Longrightarrow> capacity \<le> length (contents q)"
    and get_some: "get q = Some (x, q') \<Longrightarrow> contents q = x # contents q'"
    and get_none: "get q = None \<Longrightarrow> contents q = []"
    and room: "0 < capacity"
begin

lemma offer_contents:
  assumes "length (contents q) \<le> capacity"
  shows "contents (offer put get x q) =
    (if length (contents q) < capacity then contents q else tl (contents q)) @ [x]"
proof (cases "put x q")
  case None
  then have full: "length (contents q) = capacity" using put_none [OF None] assms by linarith
  then obtain y r where g: "get q = Some (y, r)" using get_none room by (cases "get q") auto
  from get_some [OF g] have c: "contents q = y # contents r" .
  then obtain q' where p: "put x r = Some q'" using put_none [of x r] full by (cases "put x r") auto
  show ?thesis using put_some [OF p] None g p c full by (simp add: offer_def)
next
  case (Some q')
  then show ?thesis using put_some [OF Some] by (simp add: offer_def)
qed

lemma offer_bounded: "length (contents q) \<le> capacity \<Longrightarrow> length (contents (offer put get x q)) \<le> capacity"
  using room by (cases "contents q") (auto simp: offer_contents)

lemma offer_arrives: "length (contents q) \<le> capacity \<Longrightarrow> last (contents (offer put get x q)) = x"
  by (simp add: offer_contents)

end

interpretation viewer_queue: bounded_queue "put_nowait QUEUE_SIZE" get_nowait "\<lambda>q. q" QUEUE_SIZE
  by unfold_locales (auto simp: put_nowait_def get_nowait_def QUEUE_SIZE_def split: if_splits list.splits)

section \<open>State\<close>

datatype item = Chunk bytes | END

text \<open>Where a pump thread is: reading, handing an item to the viewers it captured under the lock,
  waiting for the process after the end of its output, done, or dead of an exception.\<close>

datatype pump_place = Reading | Sending item "nat list" | Waiting | Finished | Crashed

record session =
  process :: "nat option"
  viewers :: "nat list"
  idle_timer :: "nat option"
  stderr_text :: bytes
  clean_disconnect :: "bool option"
  last_error :: "string option"
  media_ready :: bool
  media :: media
  shut :: bool

record world = session +
  queues :: "nat \<Rightarrow> item list"
  subscriptions :: nat
  closed_subscriptions :: "nat set"
  timers :: nat
  armed :: "nat set"
  fired :: "nat set"
  exits :: "int option list"
  pumps :: "pump_place list"
  stopping :: "nat set"
  ended :: "nat set"

definition new_world :: world where
  "new_world = \<lparr>process = None, viewers = [], idle_timer = None, stderr_text = [],
     clean_disconnect = None, last_error = None, media_ready = False, media = no_media, shut = False,
     queues = (\<lambda>_. []), subscriptions = 0, closed_subscriptions = {}, timers = 0, armed = {}, fired = {},
     exits = [], pumps = [], stopping = {}, ended = {}\<rparr>"

text \<open>\<open>ended\<close> records, for the statements only, which subscriptions were ever given their end marker.\<close>

definition put_item :: "item \<Rightarrow> nat \<Rightarrow> world \<Rightarrow> world" where
  "put_item x i w = w\<lparr>queues := (queues w)(i := offer (put_nowait QUEUE_SIZE) get_nowait x (queues w i)),
     ended := (if x = END then insert i (ended w) else ended w)\<rparr>"

section \<open>Operations\<close>

definition cancel_timer :: "world \<Rightarrow> world" where
  "cancel_timer w = (case idle_timer w of
      None \<Rightarrow> w
    | Some t \<Rightarrow> w\<lparr>armed := armed w - {t}, idle_timer := None\<rparr>)"

definition has_exited :: "world \<Rightarrow> nat \<Rightarrow> bool" where
  "has_exited w p \<longleftrightarrow> exits w ! p \<noteq> None"

text \<open>
  \<open>_start_locked\<close>. What the starter does is its argument: it raises, or gives a process whose pipes
  exist or not; a process without pipes is killed and awaited before the error.
\<close>

definition start_locked :: "exn + bool \<Rightarrow> (world, unit) eff" where
  "start_locked starter =
     seq (modify (\<lambda>w. w\<lparr>stderr_text := [], clean_disconnect := None, last_error := None,
        media_ready := False, media := no_media\<rparr>))
     (bind (lift_sum starter) (\<lambda>pipes.
        if \<not> pipes then raise (P2PError ''native stream helper pipes are unavailable'')
        else modify (\<lambda>w. w\<lparr>process := Some (length (exits w)), exits := exits w @ [None],
          pumps := pumps w @ [Reading]\<rparr>)))"

definition add_viewer :: "(world, nat) eff" where
  "add_viewer = (\<lambda>w.
     let i = subscriptions w; p = preamble (media w) in
     (Ret i, w\<lparr>subscriptions := Suc i,
        queues := (queues w)(i := (if p \<noteq> [] then [Chunk p] else [])),
        viewers := viewers w @ [i]\<rparr>))"

definition acquire :: "exn + bool \<Rightarrow> (world, nat) eff" where
  "acquire starter =
     bind (gets shut) (\<lambda>c.
     if c then raise (P2PError ''native stream session is closed'')
     else
       seq (modify cancel_timer)
       (seq (bind (gets (\<lambda>w. case process w of None \<Rightarrow> True | Some p \<Rightarrow> has_exited w p)) (\<lambda>dead.
              when_do dead (start_locked starter)))
        add_viewer))"

definition release :: "nat \<Rightarrow> world \<Rightarrow> world" where
  "release i w =
     (let w1 = w\<lparr>viewers := removeAll i (viewers w)\<rparr> in
      if viewers w1 = [] \<and> process w1 \<noteq> None \<and> \<not> shut w1 then
        (let w2 = cancel_timer w1; t = timers w2 in
         w2\<lparr>idle_timer := Some t, timers := Suc t, armed := insert t (armed w2)\<rparr>)
      else w1)"

definition close_subscription :: "nat \<Rightarrow> world \<Rightarrow> world" where
  "close_subscription i w =
     (if i \<in> closed_subscriptions w then w
      else release i (put_item END i (w\<lparr>closed_subscriptions := insert i (closed_subscriptions w)\<rparr>)))"

text \<open>One turn of the subscription's iterator: nothing to do after the close; otherwise a blocking
  \<open>get\<close>, which ends the iteration on the end marker.\<close>

definition next_chunk :: "nat \<Rightarrow> (world, bytes option) eff" where
  "next_chunk i = (\<lambda>w.
     if i \<in> closed_subscriptions w then (Ret None, w)
     else case queues w i of
       [] \<Rightarrow> (Halt, w)
     | x # q \<Rightarrow> (Ret (case x of END \<Rightarrow> None | Chunk c \<Rightarrow> Some c), w\<lparr>queues := (queues w)(i := q)\<rparr>))"

record session_status =
  is_running :: bool
  viewer_count :: nat
  was_clean :: "bool option"
  reported_error :: "string option"
  is_media_ready :: bool

definition status :: "world \<Rightarrow> session_status" where
  "status w = \<lparr>is_running = (case process w of None \<Rightarrow> False | Some p \<Rightarrow> \<not> has_exited w p),
     viewer_count = length (viewers w), was_clean = clean_disconnect w, reported_error = last_error w,
     is_media_ready = media_ready w\<rparr>"

text \<open>\<open>close\<close> and the idle callback leave a process to terminate behind; \<open>_terminate\<close> runs outside the
  lock.\<close>

definition stop_later :: "nat option \<Rightarrow> world \<Rightarrow> world" where
  "stop_later p w = (case p of None \<Rightarrow> w | Some h \<Rightarrow> w\<lparr>stopping := insert h (stopping w)\<rparr>)"

definition end_session :: "world \<Rightarrow> world" where
  "end_session w = (let w1 = cancel_timer (w\<lparr>shut := True\<rparr>) in stop_later (process w1) w1)"

definition stop_if_idle :: "nat \<Rightarrow> world \<Rightarrow> world" where
  "stop_if_idle t w =
     (let w1 = w\<lparr>idle_timer := None, fired := fired w - {t}\<rparr> in
      if viewers w1 \<noteq> [] \<or> shut w1 then w1 else stop_later (process w1) w1)"

definition terminate :: "nat \<Rightarrow> ('z os_scheme, unit) eff" where
  "terminate p = if_running (Some p) terminate_then_kill"

section \<open>The threads of a process\<close>

definition set_pump :: "nat \<Rightarrow> pump_place \<Rightarrow> world \<Rightarrow> world" where
  "set_pump p x w = w\<lparr>pumps := (pumps w)[p := x]\<rparr>"

definition pump_chunk :: "nat \<Rightarrow> bytes \<Rightarrow> world \<Rightarrow> world" where
  "pump_chunk p chunk w =
     (let w1 = w\<lparr>media_ready := True, media := note_media chunk (media w)\<rparr> in
      set_pump p (Sending (Chunk chunk) (viewers w1)) w1)"

definition drain_stderr :: "bytes \<Rightarrow> world \<Rightarrow> world" where
  "drain_stderr chunk w =
     (let remaining = MAX_RESPONSE_BYTES - length (stderr_text w) in
      if 0 < remaining then w\<lparr>stderr_text := stderr_text w @ take remaining chunk\<rparr> else w)"

definition parse_summary :: "int \<Rightarrow> (world, unit) eff" where
  "parse_summary code =
     bind (gets stderr_text) (\<lambda>text.
     bind (lift_sum (find_summary ''disconnected'' (rev (splitlines text)))) (\<lambda>payload.
       seq (case payload of
              JObj d \<Rightarrow> (case json_get d ''disconnected'' of
                  JBool b \<Rightarrow> modify (clean_disconnect_update (\<lambda>_. Some b))
                | _ \<Rightarrow> ret ())
            | _ \<Rightarrow> ret ())
         (when_do (code \<noteq> 0) (modify (last_error_update (\<lambda>_. Some ''native_stream_ended''))))))"

text \<open>The end of \<open>_pump\<close>: the section under the lock, which an unreadable summary leaves by an exception
  before any viewer has been told.\<close>

definition pump_finish :: "nat \<Rightarrow> int \<Rightarrow> world \<Rightarrow> world" where
  "pump_finish p code w =
     (let captured = viewers w;
          w1 = w\<lparr>viewers := [], process := (if process w = Some p then None else process w)\<rparr> in
      case parse_summary code w1 of
        (Ret _, w2) \<Rightarrow> set_pump p (Sending END captured) w2
      | (_, w2) \<Rightarrow> set_pump p Crashed w2)"

section \<open>Interleaving\<close>

inductive pump_step :: "nat \<Rightarrow> world \<Rightarrow> world \<Rightarrow> bool" where
  read_chunk: "p < length (pumps w) \<Longrightarrow> pumps w ! p = Reading \<Longrightarrow> chunk \<noteq> [] \<Longrightarrow>
    pump_step p w (pump_chunk p chunk w)"
| send: "p < length (pumps w) \<Longrightarrow> pumps w ! p = Sending x (i # ids) \<Longrightarrow>
    pump_step p w (set_pump p (Sending x ids) (put_item x i w))"
| sent: "p < length (pumps w) \<Longrightarrow> pumps w ! p = Sending (Chunk c) [] \<Longrightarrow>
    pump_step p w (set_pump p Reading w)"
| delivered: "p < length (pumps w) \<Longrightarrow> pumps w ! p = Sending END [] \<Longrightarrow>
    pump_step p w (set_pump p Finished w)"
| end_of_output: "p < length (pumps w) \<Longrightarrow> pumps w ! p = Reading \<Longrightarrow>
    pump_step p w (set_pump p Waiting w)"
| process_exit: "p < length (exits w) \<Longrightarrow> exits w ! p = None \<Longrightarrow>
    pump_step p w (w\<lparr>exits := (exits w)[p := Some code]\<rparr>)"
| finish: "p < length (pumps w) \<Longrightarrow> pumps w ! p = Waiting \<Longrightarrow> exits w ! p = Some code \<Longrightarrow>
    pump_step p w (pump_finish p code w)"

inductive step :: "world \<Rightarrow> world \<Rightarrow> bool" where
  pump: "pump_step p w w' \<Longrightarrow> step w w'"
| viewer_joins: "acquire starter w = (r, w') \<Longrightarrow> step w w'"
| viewer_leaves: "i < subscriptions w \<Longrightarrow> step w (close_subscription i w)"
| viewer_takes: "i < subscriptions w \<Longrightarrow> next_chunk i w = (r, w') \<Longrightarrow> step w w'"
| stderr_read: "step w (drain_stderr chunk w)"
| timer_fires: "t \<in> armed w \<Longrightarrow> step w (w\<lparr>armed := armed w - {t}, fired := insert t (fired w)\<rparr>)"
| timer_runs: "t \<in> fired w \<Longrightarrow> step w (stop_if_idle t w)"
| session_closes: "step w (end_session w)"

definition reachable :: "world \<Rightarrow> bool" where
  "reachable w \<longleftrightarrow> step\<^sup>*\<^sup>* new_world w"

section \<open>Invariant\<close>

definition unfinished :: "pump_place \<Rightarrow> bool" where
  "unfinished x \<longleftrightarrow> (case x of Reading \<Rightarrow> True | Waiting \<Rightarrow> True | Sending (Chunk c) ids \<Rightarrow> True | _ \<Rightarrow> False)"

definition to_be_ended :: "nat \<Rightarrow> world \<Rightarrow> bool" where
  "to_be_ended i w \<longleftrightarrow> (\<exists>ids. Sending END ids \<in> set (pumps w) \<and> i \<in> set ids)"

definition session_inv :: "world \<Rightarrow> bool" where
  "session_inv w \<longleftrightarrow>
     (\<forall>i. length (queues w i) \<le> QUEUE_SIZE) \<and> length (stderr_text w) \<le> MAX_RESPONSE_BYTES \<and> media_ok (media w) \<and>
     distinct (viewers w) \<and> (\<forall>i \<in> set (viewers w). i < subscriptions w) \<and>
     (viewers w \<noteq> [] \<longrightarrow> idle_timer w = None \<and> process w \<noteq> None) \<and> length (pumps w) = length (exits w) \<and>
     (\<forall>p. process w = Some p \<longrightarrow> p < length (exits w) \<and> unfinished (pumps w ! p))"

lemma session_invI:
  assumes "\<And>i. length (queues w i) \<le> QUEUE_SIZE" "length (stderr_text w) \<le> MAX_RESPONSE_BYTES" "media_ok (media w)"
    "distinct (viewers w)" "\<And>i. i \<in> set (viewers w) \<Longrightarrow> i < subscriptions w"
    "viewers w \<noteq> [] \<Longrightarrow> idle_timer w = None \<and> process w \<noteq> None" "length (pumps w) = length (exits w)"
    "\<And>p. process w = Some p \<Longrightarrow> p < length (exits w) \<and> unfinished (pumps w ! p)"
  shows "session_inv w"
  using assms by (simp add: session_inv_def)

lemma session_invD:
  assumes "session_inv w"
  shows "length (queues w i) \<le> QUEUE_SIZE" "length (stderr_text w) \<le> MAX_RESPONSE_BYTES" "media_ok (media w)"
    "distinct (viewers w)" "i \<in> set (viewers w) \<Longrightarrow> i < subscriptions w"
    "viewers w \<noteq> [] \<Longrightarrow> idle_timer w = None" "viewers w \<noteq> [] \<Longrightarrow> process w \<noteq> None"
    "length (pumps w) = length (exits w)"
    "process w = Some p \<Longrightarrow> p < length (exits w)" "process w = Some p \<Longrightarrow> unfinished (pumps w ! p)"
  using assms by (simp_all add: session_inv_def)

lemma put_item_inv: "session_inv w \<Longrightarrow> session_inv (put_item x i w)"
  using viewer_queue.offer_bounded [of "queues w i" x] by (auto simp: session_inv_def put_item_def)

lemma cancel_timer_fields [simp]:
  "queues (cancel_timer w) = queues w" "stderr_text (cancel_timer w) = stderr_text w" "media (cancel_timer w) = media w"
  "viewers (cancel_timer w) = viewers w" "subscriptions (cancel_timer w) = subscriptions w"
  "process (cancel_timer w) = process w" "exits (cancel_timer w) = exits w" "pumps (cancel_timer w) = pumps w"
  "shut (cancel_timer w) = shut w" "ended (cancel_timer w) = ended w" "idle_timer (cancel_timer w) = None"
  "closed_subscriptions (cancel_timer w) = closed_subscriptions w" "timers (cancel_timer w) = timers w"
  by (auto simp: cancel_timer_def split: option.split)

lemma cancel_timer_inv: "session_inv w \<Longrightarrow> session_inv (cancel_timer w)"
  by (simp add: session_inv_def)

lemma media_ok_no_media: "media_ok no_media"
  by (simp add: media_ok_def no_media_def)

lemma start_locked_inv:
  assumes "start_locked starter w = (r, w')" "session_inv w"
  shows "session_inv w'" and "r = Ret () \<Longrightarrow> process w' \<noteq> None" "idle_timer w' = idle_timer w"
proof -
  have u: "unfinished Reading" by (simp add: unfinished_def)
  show "session_inv w'"
    using assms u session_invD [OF assms(2)]
    by (intro session_invI) (auto simp: start_locked_def eff_defs nth_append media_ok_no_media
      split: sum.splits if_splits)
  show "r = Ret () \<Longrightarrow> process w' \<noteq> None" "idle_timer w' = idle_timer w"
    using assms(1) by (auto simp: start_locked_def eff_defs split: sum.splits if_splits)
qed

lemma preamble_chunks: "length (if preamble m \<noteq> [] then [Chunk (preamble m)] else []) \<le> QUEUE_SIZE"
  by (simp add: QUEUE_SIZE_def)

lemma add_viewer_inv:
  assumes "session_inv w" "idle_timer w = None" "process w \<noteq> None"
  shows "session_inv (snd (add_viewer w))"
  using assms session_invD [OF assms(1)] preamble_chunks [of "media w"]
  by (intro session_invI) (auto simp: add_viewer_def Let_def less_Suc_eq dest: session_invD(5))

lemma acquire_inv:
  assumes "acquire starter w = (r, w')" "session_inv w"
  shows "session_inv w'"
proof (cases "shut w")
  case False
  let ?dead = "case process w of None \<Rightarrow> True | Some p \<Rightarrow> has_exited (cancel_timer w) p"
  have c: "session_inv (cancel_timer w)" "idle_timer (cancel_timer w) = None"
    using assms(2) by (simp_all add: cancel_timer_inv)
  have a: "seq (when_do ?dead (start_locked starter)) add_viewer (cancel_timer w) = (r, w')"
    using assms(1) False by (simp add: acquire_def bind_gets seq_modify) (simp add: seq_def bind_assoc bind_gets)
  obtain q u where q: "when_do ?dead (start_locked starter) (cancel_timer w) = (q, u)"
    by (cases "when_do ?dead (start_locked starter) (cancel_timer w)")
  have u: "session_inv u" "idle_timer u = None" "q = Ret () \<Longrightarrow> process u \<noteq> None"
  proof -
    show "session_inv u"
      using q c start_locked_inv(1) by (auto simp: when_do_def split: if_splits)
    show "idle_timer u = None"
      using q c start_locked_inv(3) [OF _ c(1)] by (auto simp: when_do_def split: if_splits)
    show "q = Ret () \<Longrightarrow> process u \<noteq> None"
      using q start_locked_inv(2) [OF _ c(1)] by (auto simp: when_do_def split: if_splits option.splits)
  qed
  show ?thesis
  proof (cases q)
    case (Ret x)
    with a q have "w' = snd (add_viewer u)" by (simp add: seq_def bind_def)
    with add_viewer_inv u Ret show ?thesis by simp
  qed (use a q u(1) in \<open>auto simp: seq_def bind_def\<close>)
qed (use assms in \<open>simp add: acquire_def bind_gets\<close>)

lemma release_inv: "session_inv w \<Longrightarrow> session_inv (release i w)"
  by (rule session_invI) (auto simp: release_def Let_def distinct_removeAll dest: session_invD)

lemma close_subscription_inv: "session_inv w \<Longrightarrow> session_inv (close_subscription i w)"
proof -
  assume "session_inv w"
  then have "session_inv (w\<lparr>closed_subscriptions := insert i (closed_subscriptions w)\<rparr>)"
    by (simp add: session_inv_def)
  then show ?thesis
    using \<open>session_inv w\<close> by (simp add: close_subscription_def release_inv put_item_inv)
qed

lemma next_chunk_inv:
  assumes "next_chunk i w = (r, w')" "session_inv w"
  shows "session_inv w'"
proof (cases "queues w i")
  case (Cons x q)
  have "length q \<le> QUEUE_SIZE" using session_invD(1) [OF assms(2), of i] Cons by simp
  with assms Cons show ?thesis by (auto simp: next_chunk_def session_inv_def split: if_splits)
qed (use assms in \<open>auto simp: next_chunk_def split: if_splits\<close>)

lemma nth_update_any: "(xs[p := x]) ! q = (if p = q \<and> p < length xs then x else xs ! q)"
  by (cases "p < length xs") (auto simp: nth_list_update list_update_beyond)

lemma set_pump_inv:
  assumes "session_inv w" "process w = Some p \<Longrightarrow> unfinished x"
  shows "session_inv (set_pump p x w)"
  using assms session_invD [OF assms(1)]
  by (intro session_invI) (auto simp: set_pump_def nth_update_any)

lemma stop_later_inv: "session_inv w \<Longrightarrow> session_inv (stop_later p w)"
  by (simp add: stop_later_def session_inv_def split: option.split)

definition summary_only :: "world \<Rightarrow> world \<Rightarrow> bool" where
  "summary_only w w' \<longleftrightarrow> (\<exists>c e. w' = w\<lparr>clean_disconnect := c, last_error := e\<rparr>)"

interpretation telling: two_state summary_only
proof
  show "summary_only w w" for w
    unfolding summary_only_def
    by (rule exI [where x = "clean_disconnect w"], rule exI [where x = "last_error w"]) simp
  show "summary_only u v \<Longrightarrow> summary_only v w \<Longrightarrow> summary_only u w" for u v w
    by (fastforce simp: summary_only_def)
qed

lemma parse_summary_frame:
  assumes "parse_summary code w = (r, w')"
  shows "summary_only w w'"
proof (rule steps_byD [where m = "parse_summary code", OF _ assms])
  have "summary_only w (w\<lparr>clean_disconnect := c\<rparr>)" "summary_only w (w\<lparr>last_error := c'\<rparr>)" for w c c'
    unfolding summary_only_def
    by (rule exI [where x = c], rule exI [where x = "last_error w"], simp)
      (rule exI [where x = "clean_disconnect w"], rule exI [where x = c'], simp)
  then have "steps_by summary_only (modify (clean_disconnect_update (\<lambda>_. c)))"
    "steps_by summary_only (modify (last_error_update (\<lambda>_. c')))" for c c'
    by (auto intro: telling.modify_step)
  then show "steps_by summary_only (parse_summary code)"
    unfolding parse_summary_def
    by (intro telling.step_rules) (auto split: json.splits intro: telling.step_rules)
qed

lemma pump_finish_inv:
  assumes "session_inv w"
  shows "session_inv (pump_finish p code w)"
proof -
  let ?w1 = "w\<lparr>viewers := [], process := (if process w = Some p then None else process w)\<rparr>"
  have w1: "session_inv ?w1" "process ?w1 \<noteq> Some p" using assms by (auto simp: session_inv_def)
  obtain r w2 where r: "parse_summary code ?w1 = (r, w2)" by (cases "parse_summary code ?w1")
  from parse_summary_frame [OF r] obtain c e where w2: "w2 = ?w1\<lparr>clean_disconnect := c, last_error := e\<rparr>"
    by (auto simp: summary_only_def)
  have "session_inv w2" "process w2 \<noteq> Some p" using w1 w2 by (simp_all add: session_inv_def)
  then have "session_inv (set_pump p x w2)" for x by (intro set_pump_inv) auto
  with r show ?thesis by (simp add: pump_finish_def Let_def split: outcome.split)
qed

inductive_cases pump_step_cases: "pump_step p w w'"
inductive_cases step_cases: "step w w'"

lemma pump_step_inv: "pump_step p w w' \<Longrightarrow> session_inv w \<Longrightarrow> session_inv w'"
proof (induction rule: pump_step.induct)
  case (read_chunk p w chunk)
  then have "session_inv (w\<lparr>media_ready := True, media := note_media chunk (media w)\<rparr>)"
    by (simp add: session_inv_def note_media_ok)
  then show ?case unfolding pump_chunk_def Let_def by (rule set_pump_inv) (simp add: unfinished_def)
next
  case (send p w x i ids)
  then have "process w = Some p \<Longrightarrow> unfinished (Sending x ids)"
    using session_invD(10) [OF send.prems, of p] by (cases x) (auto simp: unfinished_def)
  then show ?case using send.prems by (intro set_pump_inv put_item_inv) (simp_all add: put_item_def)
next
  case (delivered p w)
  then show ?case using session_invD(10) [OF delivered.prems, of p] by (intro set_pump_inv) (auto simp: unfinished_def)
next
  case (process_exit p w code)
  then show ?case by (simp add: session_inv_def)
qed (auto intro: set_pump_inv pump_finish_inv simp: unfinished_def)

lemma step_inv: "step w w' \<Longrightarrow> session_inv w \<Longrightarrow> session_inv w'"
proof (induction rule: step.induct)
  case (stderr_read w chunk)
  then show ?case by (auto simp: drain_stderr_def Let_def session_inv_def)
next
  case (timer_runs t w)
  then have "session_inv (w\<lparr>idle_timer := None, fired := fired w - {t}\<rparr>)" by (simp add: session_inv_def)
  then show ?case by (simp add: stop_if_idle_def Let_def stop_later_inv)
next
  case (session_closes w)
  then have "session_inv (cancel_timer (w\<lparr>shut := True\<rparr>))" by (intro cancel_timer_inv) (simp add: session_inv_def)
  then show ?case by (simp add: end_session_def Let_def stop_later_inv)
next
  case (timer_fires t w)
  then show ?case by (simp add: session_inv_def)
qed (blast intro: pump_step_inv acquire_inv close_subscription_inv next_chunk_inv)+

lemma reachable_inv: "reachable w \<Longrightarrow> session_inv w"
  unfolding reachable_def
proof (induction rule: rtranclp_induct)
  case base
  then show ?case by (simp add: session_inv_def new_world_def QUEUE_SIZE_def media_ok_no_media)
qed (rule step_inv)


definition one_viewer :: world where
  "one_viewer = snd (acquire (Inr True) new_world)"

lemma reachable_step: "reachable w \<Longrightarrow> step w w' \<Longrightarrow> reachable w'"
  by (auto simp: reachable_def)

lemma one_viewer_reachable: "reachable one_viewer"
proof -
  have "reachable new_world" by (simp add: reachable_def)
  then show ?thesis
    by (rule reachable_step) (auto simp: one_viewer_def intro: viewer_joins [OF surjective_pairing])
qed


section \<open>No viewer waits for ever\<close>

definition told :: "world \<Rightarrow> bool" where
  "told w \<longleftrightarrow> Crashed \<in> set (pumps w) \<or>
     (\<forall>i < subscriptions w. i \<in> set (viewers w) \<or> i \<in> ended w \<or> to_be_ended i w)"

lemma told_transfer:
  assumes "told w" "Crashed \<in> set (pumps w) \<Longrightarrow> Crashed \<in> set (pumps w')"
    "\<And>j. to_be_ended j w \<Longrightarrow> to_be_ended j w' \<or> j \<in> ended w'" "ended w \<subseteq> ended w'"
    "\<And>j. j \<in> set (viewers w) \<Longrightarrow> j \<in> set (viewers w') \<or> to_be_ended j w' \<or> j \<in> ended w'"
    "\<And>j. subscriptions w \<le> j \<Longrightarrow> j < subscriptions w' \<Longrightarrow> j \<in> set (viewers w')"
  shows "told w'"
proof (cases "Crashed \<in> set (pumps w')")
  case False
  then have old: "j \<in> set (viewers w) \<or> j \<in> ended w \<or> to_be_ended j w" if "j < subscriptions w" for j
    using assms(1,2) that by (auto simp: told_def)
  have "j \<in> set (viewers w') \<or> j \<in> ended w' \<or> to_be_ended j w'" if "j < subscriptions w'" for j
  proof (cases "j < subscriptions w")
    case True
    from old [OF this] assms(3,4,5) show ?thesis by blast
  qed (use assms(6) that in auto)
  then show ?thesis by (simp add: told_def)
qed (simp add: told_def)

lemma kept_element: "x \<in> set xs \<Longrightarrow> xs ! p \<noteq> x \<Longrightarrow> x \<in> set (xs[p := y])"
  by (metis in_set_conv_nth length_list_update nth_list_update_neq)

lemma quiet_pump_told:
  assumes "told w" "\<And>ids. pumps w ! p = Sending END ids \<Longrightarrow> ids = []" "pumps w ! p \<noteq> Crashed"
  shows "told (set_pump p x w)"
proof -
  have "to_be_ended i (set_pump p x w)" if e: "to_be_ended i w" for i
  proof -
    obtain ids where ids: "Sending END ids \<in> set (pumps w)" "i \<in> set ids"
      using e by (auto simp: to_be_ended_def)
    with assms(2) have "pumps w ! p \<noteq> Sending END ids" by auto
    with ids show ?thesis by (auto simp: to_be_ended_def set_pump_def intro: kept_element)
  qed
  moreover have "Crashed \<in> set (pumps (set_pump p x w))" if "Crashed \<in> set (pumps w)"
    using that assms(3) by (simp add: set_pump_def kept_element)
  ultimately show ?thesis using assms(1) by (auto simp: told_def) (auto simp: set_pump_def)
qed

lemma send_told:
  assumes "told w" "pumps w ! p = Sending x (i # ids)" "p < length (pumps w)"
  shows "told (set_pump p (Sending x ids) (put_item x i w))"
proof -
  let ?w' = "set_pump p (Sending x ids) (put_item x i w)"
  have pumps: "pumps ?w' = (pumps w)[p := Sending x ids]" by (simp add: set_pump_def put_item_def)
  have "to_be_ended j ?w' \<or> j \<in> ended ?w'" if e: "to_be_ended j w" for j
  proof -
    obtain js where js: "Sending END js \<in> set (pumps w)" "j \<in> set js"
      using e by (auto simp: to_be_ended_def)
    show ?thesis
    proof (cases "pumps w ! p = Sending END js")
      case True
      with assms(2) js have "x = END" "j = i \<or> j \<in> set ids" by auto
      moreover have "Sending x ids \<in> set (pumps ?w')"
        using assms(3) by (simp add: pumps set_update_memI)
      moreover have "x = END \<Longrightarrow> i \<in> ended ?w'" by (simp add: set_pump_def put_item_def)
      ultimately show ?thesis by (auto simp: to_be_ended_def)
    next
      case False
      with js show ?thesis by (auto simp: to_be_ended_def pumps intro: kept_element)
    qed
  qed
  moreover have "Crashed \<in> set (pumps ?w')" if "Crashed \<in> set (pumps w)"
    using that assms(2) by (simp add: pumps kept_element)
  moreover have "subscriptions ?w' = subscriptions w" "viewers ?w' = viewers w" "ended w \<subseteq> ended ?w'"
    by (auto simp: set_pump_def put_item_def)
  ultimately show ?thesis using assms(1) by (auto simp: told_def)
qed

lemma finish_told:
  assumes "told w" "pumps w ! p = Waiting" "p < length (pumps w)"
  shows "told (pump_finish p code w)"
proof -
  let ?w1 = "w\<lparr>viewers := [], process := (if process w = Some p then None else process w)\<rparr>"
  obtain r w2 where r: "parse_summary code ?w1 = (r, w2)" by (cases "parse_summary code ?w1")
  from parse_summary_frame [OF r] obtain c e where w2: "w2 = ?w1\<lparr>clean_disconnect := c, last_error := e\<rparr>"
    by (auto simp: summary_only_def)
  show ?thesis
  proof (cases "\<exists>x. r = Ret x")
    case True
    then have f: "pump_finish p code w = set_pump p (Sending END (viewers w)) w2"
      using r by (auto simp: pump_finish_def Let_def)
    have e: "Sending END (viewers w) \<in> set (pumps (pump_finish p code w))"
      using assms(3) by (simp add: f set_pump_def w2 set_update_memI)
    show ?thesis
    proof (rule told_transfer [OF assms(1)])
      show "to_be_ended j (pump_finish p code w) \<or> j \<in> ended (pump_finish p code w)" if "to_be_ended j w" for j
        using that assms(2) by (auto simp: to_be_ended_def f set_pump_def w2 intro!: kept_element)
      show "Crashed \<in> set (pumps (pump_finish p code w))" if "Crashed \<in> set (pumps w)"
        using that assms(2) by (simp add: f set_pump_def w2 kept_element)
    qed (use e in \<open>auto simp: to_be_ended_def\<close>, simp_all add: f set_pump_def w2)
  next
    case False
    then have "pump_finish p code w = set_pump p Crashed w2"
      using r by (cases r) (auto simp: pump_finish_def Let_def)
    then show ?thesis using assms(3) by (simp add: told_def set_pump_def w2 set_update_memI)
  qed
qed

lemma told_same:
  assumes "told w" "pumps w' = pumps w" "subscriptions w' = subscriptions w"
    "set (viewers w) \<subseteq> set (viewers w') \<union> ended w'" "ended w \<subseteq> ended w'"
  shows "told w'"
  using assms unfolding told_def to_be_ended_def by fastforce

lemma pump_step_told: "pump_step p w w' \<Longrightarrow> told w \<Longrightarrow> told w'"
proof (induction rule: pump_step.induct)
  case (read_chunk p w chunk)
  have "told (w\<lparr>media_ready := True, media := note_media chunk (media w)\<rparr>)"
    by (rule told_same [OF read_chunk.prems]) auto
  then show ?case unfolding pump_chunk_def Let_def by (rule quiet_pump_told) (use read_chunk in auto)
next
  case (process_exit p w code)
  show ?case by (rule told_same [OF process_exit.prems]) auto
qed (auto intro: quiet_pump_told send_told finish_told)

lemma start_locked_told:
  assumes "start_locked starter w = (r, w')" "told w"
  shows "told w'"
  using assms by (auto simp: start_locked_def eff_defs told_def to_be_ended_def split: sum.splits if_splits)

lemmas told_rules = two_state.step_rules [OF two_state_inv_rel [of told]]

lemma acquire_told:
  assumes "acquire starter w = (r, w')" "told w"
  shows "told w'"
proof -
  have c: "steps_by (inv_rel told) (modify cancel_timer)"
    by (rule two_state.modify_step [OF two_state_inv_rel]) (auto simp: inv_rel_def intro: told_same)
  have s: "steps_by (inv_rel told) (start_locked starter)"
    by (rule steps_byI) (auto simp: inv_rel_def dest: start_locked_told)
  have a: "steps_by (inv_rel told) add_viewer"
    by (rule steps_byI) (auto simp: inv_rel_def add_viewer_def Let_def to_be_ended_def
      elim!: told_transfer)
  have "steps_by (inv_rel told) (acquire starter)"
    unfolding acquire_def by (intro told_rules c s a)
  from steps_by_invD [OF this assms(2,1)] show ?thesis .
qed

lemma release_fields [simp]:
  "pumps (release i w) = pumps w" "subscriptions (release i w) = subscriptions w" "ended (release i w) = ended w"
  "viewers (release i w) = removeAll i (viewers w)"
  by (simp_all add: release_def Let_def)

lemma close_subscription_told: "told w \<Longrightarrow> told (close_subscription i w)"
proof -
  assume "told w"
  then show ?thesis by (rule told_same) (auto simp: close_subscription_def put_item_def)
qed

lemma step_told: "step w w' \<Longrightarrow> told w \<Longrightarrow> told w'"
proof (induction rule: step.induct)
  case (viewer_takes i w r w')
  show ?case
    by (rule told_same [OF viewer_takes.prems])
      (use viewer_takes.hyps in \<open>auto simp: next_chunk_def split: if_splits list.splits\<close>)
next
  case (timer_runs t w)
  show ?case
    by (rule told_same [OF timer_runs.prems]) (auto simp: stop_if_idle_def Let_def stop_later_def split: option.split)
next
  case (session_closes w)
  show ?case
    by (rule told_same [OF session_closes.prems]) (auto simp: end_session_def Let_def stop_later_def split: option.split)
next
  case (stderr_read w chunk)
  show ?case by (rule told_same [OF stderr_read.prems]) (auto simp: drain_stderr_def Let_def)
next
  case (timer_fires t w)
  show ?case by (rule told_same [OF timer_fires.prems]) auto
qed (blast intro: pump_step_told acquire_told close_subscription_told)+

lemma reachable_told: "reachable w \<Longrightarrow> told w"
  unfolding reachable_def
proof (induction rule: rtranclp_induct)
  case base
  then show ?case by (simp add: told_def new_world_def)
qed (rule step_told)


text \<open>The steps of one process and its pump alone.\<close>

definition pump_run :: "nat \<Rightarrow> world \<Rightarrow> world \<Rightarrow> bool" where
  "pump_run p = (pump_step p)\<^sup>*\<^sup>*"

lemma pump_run_refl [intro]: "pump_run p w w"
  and pump_run_step: "pump_step p w v \<Longrightarrow> pump_run p v u \<Longrightarrow> pump_run p w u"
  and pump_run_trans: "pump_run p w v \<Longrightarrow> pump_run p v u \<Longrightarrow> pump_run p w u"
  by (auto simp: pump_run_def intro: converse_rtranclp_into_rtranclp)

definition session_kept :: "world \<Rightarrow> world \<Rightarrow> bool" where
  "session_kept w v \<longleftrightarrow> viewers v = viewers w \<and> stderr_text v = stderr_text w \<and> exits v = exits w \<and>
     length (pumps v) = length (pumps w) \<and> ended w \<subseteq> ended v"

lemma sends_out:
  assumes "p < length (pumps w)" "pumps w ! p = Sending x ids"
  shows "\<exists>v. pump_run p w v \<and> pumps v ! p = Sending x [] \<and> session_kept w v \<and> (x = END \<longrightarrow> set ids \<subseteq> ended v)"
  using assms
proof (induction ids arbitrary: w)
  case Nil
  then show ?case by (intro exI [of _ w]) (auto simp: session_kept_def)
next
  case (Cons i ids)
  let ?v = "set_pump p (Sending x ids) (put_item x i w)"
  have v: "pump_step p w ?v" by (rule send [OF Cons.prems])
  have "p < length (pumps ?v)" "pumps ?v ! p = Sending x ids"
    using Cons.prems by (simp_all add: set_pump_def put_item_def)
  from Cons.IH [OF this] obtain u where u: "pump_run p ?v u" "pumps u ! p = Sending x []"
    "session_kept ?v u" "x = END \<longrightarrow> set ids \<subseteq> ended u" by blast
  have "pump_run p w u" using v u(1) by (rule pump_run_step)
  moreover have "session_kept w u" "x = END \<longrightarrow> i \<in> ended u"
    using u(3) by (auto simp: session_kept_def set_pump_def put_item_def)
  ultimately show ?case using u(2,4) by (intro exI [of _ u]) auto
qed

lemma set_pump_same: "session_kept w (set_pump p x w)"
  by (simp add: session_kept_def set_pump_def)

lemma set_pump_nth: "p < length (pumps w) \<Longrightarrow> pumps (set_pump p x w) ! p = x"
  by (simp add: set_pump_def)

lemma session_kept_trans: "session_kept w v \<Longrightarrow> session_kept v u \<Longrightarrow> session_kept w u"
  by (auto simp: session_kept_def)

lemma runs_to_waiting:
  assumes "p < length (pumps w)" "unfinished (pumps w ! p)"
  shows "\<exists>v. pump_run p w v \<and> pumps v ! p = Waiting \<and> session_kept w v"
proof -
  have eof: "\<exists>v. pump_run p u v \<and> pumps v ! p = Waiting \<and> session_kept u v"
    if "p < length (pumps u)" "pumps u ! p = Reading" for u
    using end_of_output [OF that] that
    by (intro exI [of _ "set_pump p Waiting u"]) (auto intro: pump_run_step simp: set_pump_nth set_pump_same)
  show ?thesis
  proof (cases "pumps w ! p")
    case Reading
    then show ?thesis by (rule eof [OF assms(1)])
  next
    case (Sending x ids)
    with assms(2) obtain c where x: "x = Chunk c" by (cases x) (auto simp: unfinished_def)
    from sends_out [OF assms(1) Sending] obtain v where v: "pump_run p w v" "pumps v ! p = Sending x []"
      "session_kept w v" by blast
    have l: "p < length (pumps v)" using v(3) assms(1) by (simp add: session_kept_def)
    let ?u = "set_pump p Reading v"
    have s: "pump_step p v ?u" using sent [OF l] v(2) x by blast
    from eof [of ?u] l obtain u where "pump_run p ?u u" "pumps u ! p = Waiting" "session_kept ?u u"
      by (auto simp: set_pump_nth) (auto simp: set_pump_def)
    with v s show ?thesis
      by (blast intro: pump_run_step pump_run_trans session_kept_trans set_pump_same)
  next
    case Waiting
    then show ?thesis by (auto simp: session_kept_def)
  qed (use assms(2) in \<open>simp_all add: unfinished_def\<close>)
qed

lemma parse_returns:
  assumes "find_summary ''disconnected'' (rev (splitlines (stderr_text w))) = Inr j"
  shows "fst (parse_summary code w) = Ret ()"
  using assms by (auto simp: parse_summary_def bind_gets lift_sum_def when_do_def seq_def bind_def
    split: json.split outcome.split prod.split)

lemma finish_ends:
  assumes "p < length (pumps w)" "pumps w ! p = Waiting" "p < length (exits w)"
    "find_summary ''disconnected'' (rev (splitlines (stderr_text w))) = Inr j" "i \<in> set (viewers w)"
  shows "\<exists>v. pump_run p w v \<and> i \<in> ended v"
proof -
  obtain u code where u: "pump_run p w u" "exits u ! p = Some code" "pumps u = pumps w"
    "stderr_text u = stderr_text w" "viewers u = viewers w"
  proof (cases "exits w ! p")
    case None
    let ?u = "w\<lparr>exits := (exits w)[p := Some 0]\<rparr>"
    have "pump_run p w ?u" using process_exit [OF assms(3) None] by (auto intro: pump_run_step)
    then show ?thesis using that [of ?u 0] assms(3) by simp
  next
    case (Some code)
    then show ?thesis using that [of w code] by auto
  qed
  let ?u1 = "u\<lparr>viewers := [], process := (if process u = Some p then None else process u)\<rparr>"
  obtain r u2 where r: "parse_summary code ?u1 = (r, u2)" by (cases "parse_summary code ?u1")
  have "r = Ret ()" using parse_returns [of ?u1 j code] assms(4) u(4) r by simp
  with r have f: "pump_finish p code u = set_pump p (Sending END (viewers w)) u2"
    by (simp add: pump_finish_def Let_def u(5))
  have "pumps u2 = pumps w" using parse_summary_frame [OF r] u(3) by (auto simp: summary_only_def)
  then have l: "p < length (pumps (pump_finish p code u))"
    "pumps (pump_finish p code u) ! p = Sending END (viewers w)"
    using assms(1) by (simp_all add: f set_pump_def)
  have "pump_step p u (pump_finish p code u)" using assms(1,2) u(2,3) by (intro finish) auto
  moreover from sends_out [OF l] obtain v where "pump_run p (pump_finish p code u) v" "i \<in> ended v"
    using assms(5) by auto
  ultimately show ?thesis using u(1) by (blast intro: pump_run_step pump_run_trans)
qed

lemma viewer_end_reachable:
  assumes "reachable w" "i < subscriptions w" "Crashed \<notin> set (pumps w)"
    "find_summary ''disconnected'' (rev (splitlines (stderr_text w))) = Inr j"
  shows "\<exists>p v. pump_run p w v \<and> i \<in> ended v"
proof -
  note inv = reachable_inv [OF assms(1)]
  from reachable_told [OF assms(1)] assms(2,3)
  consider "i \<in> ended w" | "to_be_ended i w" | "i \<in> set (viewers w)" by (auto simp: told_def)
  then show ?thesis
  proof cases
    case 2
    then obtain ids p where "p < length (pumps w)" "pumps w ! p = Sending END ids" "i \<in> set ids"
      by (auto simp: to_be_ended_def in_set_conv_nth)
    with sends_out [of p w END ids] show ?thesis by blast
  next
    case 3
    then obtain p where p: "process w = Some p" using session_invD(7) [OF inv] by (cases "viewers w") auto
    note q = session_invD(8,9,10) [OF inv] p
    from runs_to_waiting [of p w] q obtain v where v: "pump_run p w v" "pumps v ! p = Waiting" "session_kept w v"
      by auto
    from finish_ends [of p v j i] v q 3 assms(4) obtain u where "pump_run p v u" "i \<in> ended u"
      by (auto simp: session_kept_def)
    with v(1) show ?thesis by (blast intro: pump_run_trans)
  qed auto
qed


lemma one_viewer_fields:
  "subscriptions one_viewer = 1" "pumps one_viewer = [Reading]" "stderr_text one_viewer = []"
  by (simp_all add: one_viewer_def acquire_def start_locked_def add_viewer_def new_world_def Let_def
    cancel_timer_def eff_defs)


section \<open>Joining\<close>

lemma acquire_alive:
  assumes "\<not> shut w" "process w = Some p" "\<not> has_exited w p"
  shows "acquire starter w = add_viewer (cancel_timer w)"
proof -
  have "has_exited (cancel_timer w) p = has_exited w p" by (simp add: has_exited_def)
  then show ?thesis
    using assms by (simp add: acquire_def bind_gets seq_modify) (simp add: seq_def bind_assoc bind_gets when_do_def)
qed

text \<open>A viewer that joins while the helper is alive shares it: no process is started, whatever the
  starter would do, the pending idle timer is cancelled, nobody else's queue changes, and the new
  queue starts with the preamble of the media seen so far.\<close>

theorem acquire_shares_process:
  assumes "\<not> shut w" "process w = Some p" "\<not> has_exited w p"
  obtains w' where "acquire starter w = (Ret (subscriptions w), w')" "process w' = Some p"
    "exits w' = exits w" "pumps w' = pumps w" "viewers w' = viewers w @ [subscriptions w]"
    "idle_timer w' = None"
    "queues w' = (queues w)(subscriptions w := (if preamble (media w) = [] then [] else [Chunk (preamble (media w))]))"
proof -
  show ?thesis
    by (rule that [of "snd (add_viewer (cancel_timer w))"])
      (simp_all add: acquire_alive [OF assms] add_viewer_def Let_def assms)
qed

theorem acquire_shares_process_witness:
  "\<exists>w'. acquire (Inl OSError) one_viewer = (Ret 1, w') \<and> viewers w' = [0, 1] \<and> exits w' = [None]"
proof -
  have f: "\<not> shut one_viewer" "process one_viewer = Some 0" "\<not> has_exited one_viewer 0" "viewers one_viewer = [0]"
    "exits one_viewer = [None]"
    by (simp_all add: one_viewer_def acquire_def start_locked_def add_viewer_def new_world_def Let_def
      cancel_timer_def eff_defs has_exited_def)
  show ?thesis
    by (rule acquire_shares_process [OF f(1,2,3), of "Inl OSError"]) (simp add: f one_viewer_fields)
qed

section \<open>Snapshots of a session\<close>

text \<open>
  \<open>snapshot\<close> is a viewer with a decoder of its own. Its state is the session and the operating
  system; the thread that feeds the decoder takes chunks as any viewer does (\<open>viewer_takes\<close>).
\<close>

definition decode_picture :: "pystr \<Rightarrow> (world \<times> 'z snapshot_locals_scheme, bytes \<times> nat \<times> nat) eff" where
  "decode_picture ffmpeg =
     bind (on_snd (popen (decoder_argv ffmpeg))) (\<lambda>d.
     seq (on_snd (modify (decoder_slot_update (\<lambda>_. Some d))))
     (bind (on_snd (communicate d)) (\<lambda>(jpeg, code).
     if code \<noteq> 0 then raise (P2PError ''native on-demand snapshot decoder failed'')
     else bind (lift_sum (jpeg_dimensions jpeg)) (\<lambda>(width, height). ret (jpeg, width, height)))))"

definition leave_snapshot :: "nat \<Rightarrow> (world \<times> 'z snapshot_locals_scheme, unit) eff" where
  "leave_snapshot i =
     seq (on_fst (modify (close_subscription i)))
       (on_snd (bind (gets decoder_slot) (\<lambda>d. if_running d kill_and_wait)))"

definition snapshot :: "exn + bool \<Rightarrow> pystr \<Rightarrow> (world \<times> 'z snapshot_locals_scheme, bytes \<times> nat \<times> nat) eff" where
  "snapshot starter ffmpeg =
     bind (on_fst (acquire starter)) (\<lambda>i.
     seq (on_snd (modify (decoder_slot_update (\<lambda>_. None))))
     (try_finally (sanitised ''native on-demand snapshot failed'' (decode_picture ffmpeg)) (leave_snapshot i)))"

definition world_kept :: "world \<times> 'z snapshot_locals_scheme \<Rightarrow> world \<times> 'z snapshot_locals_scheme \<Rightarrow> bool" where
  "world_kept s t \<longleftrightarrow> fst t = fst s"

interpretation world_kept: two_state world_kept
  by unfold_locales (auto simp: world_kept_def)

lemma on_snd_keeps: "steps_by world_kept (on_snd m)"
  by (rule steps_byI) (auto simp: on_snd_def world_kept_def split: prod.splits)

lemma decode_keeps: "steps_by world_kept (sanitised msg (decode_picture ffmpeg))"
  unfolding sanitised_def decode_picture_def by (intro world_kept.step_rules on_snd_keeps)

lemma leave_world:
  assumes "leave_snapshot i s = (r, t)"
  shows "fst t = close_subscription i (fst s)"
proof -
  obtain w u where s: "s = (w, u)" by (cases s)
  have "on_snd (bind (gets decoder_slot) (\<lambda>d. if_running d kill_and_wait)) (close_subscription i w, u) = (r, t)"
    using assms unfolding leave_snapshot_def s seq_def by (simp add: on_fst_def bind_def [of "\<lambda>(a, b). _ a b"])
  from steps_byD [OF on_snd_keeps this] show ?thesis by (simp add: world_kept_def s)
qed

lemma snapshot_world:
  assumes "snapshot starter ffmpeg (w, u) = (r, t)" "r \<noteq> Halt" "acquire starter w = (Ret i, w')"
  shows "fst t = close_subscription i w'"
proof -
  let ?u = "u\<lparr>decoder_slot := None\<rparr>"
  let ?m = "sanitised ''native on-demand snapshot failed'' (decode_picture ffmpeg)"
  have f: "try_finally ?m (leave_snapshot i) (w', ?u) = (r, t)"
    using assms(1,3) by (simp add: snapshot_def on_fst_def on_snd_def bind_def seq_def)
  obtain q v where m: "?m (w', ?u) = (q, v)" by (cases "?m (w', ?u)")
  have v: "fst v = w'" using steps_byD [OF decode_keeps m] by (simp add: world_kept_def)
  obtain c x where c: "leave_snapshot i v = (c, x)" by (cases "leave_snapshot i v")
  have "q \<noteq> Halt" using f m assms(2) by (auto simp: try_finally_def)
  with f m c have "t = x" by (cases q; cases c) (auto simp: try_finally_def)
  with leave_world [OF c] v show ?thesis by simp
qed

lemma acquire_keeps_closed:
  assumes "acquire starter w = (Ret i, w')"
  shows "closed_subscriptions w' = closed_subscriptions w" "i = subscriptions w"
  using assms by (auto simp: acquire_def start_locked_def add_viewer_def Let_def eff_defs
    split: if_splits sum.splits option.splits)

lemma snapshot_leaves:
  assumes "snapshot starter ffmpeg (w, u) = (r, t)" "r \<noteq> Halt" "acquire starter w = (Ret i, w')"
    "i \<notin> closed_subscriptions w"
  shows "i \<in> closed_subscriptions (fst t) \<and> i \<notin> set (viewers (fst t)) \<and> i \<in> ended (fst t)"
proof -
  have c: "i \<notin> closed_subscriptions w'" using acquire_keeps_closed(1) [OF assms(3)] assms(4) by simp
  have "closed_subscriptions (release i v) = closed_subscriptions v" for v
    by (simp add: release_def Let_def)
  with c show ?thesis
    by (simp add: snapshot_world [OF assms(1-3)] close_subscription_def put_item_def)
qed

text \<open>C24: A snapshot never stays on as a viewer: however it comes back, with a picture or with any
  error of the decoder, its subscription is closed and no longer registered.\<close>

theorem snapshot_leaves_session:
  assumes "snapshot starter ffmpeg (w, u) = (r, t)" "r \<noteq> Halt" "acquire starter w = (Ret i, w')"
    "i \<notin> closed_subscriptions w"
  shows "i \<in> closed_subscriptions (fst t) \<and> i \<notin> set (viewers (fst t)) \<and> i \<in> ended (fst t)"
  using assms by (rule snapshot_leaves)

theorem snapshot_leaves_session_witness:
  "\<exists>r t. snapshot (Inr True) (str ''ffmpeg'') (new_world, stubborn_helper\<lparr>popens := [Some OSError]\<rparr>) = (r, t) \<and>
     r = Raise (P2PError ''native on-demand snapshot failed'') \<and> viewers (fst t) = [] \<and> 0 \<in> closed_subscriptions (fst t)"
proof -
  let ?u = "stubborn_helper\<lparr>popens := [Some OSError]\<rparr>"
  obtain r t where s: "snapshot (Inr True) (str ''ffmpeg'') (new_world, ?u) = (r, t)"
    by (cases "snapshot (Inr True) (str ''ffmpeg'') (new_world, ?u)")
  have a: "acquire (Inr True) new_world = (Ret 0, one_viewer)"
    by (simp add: one_viewer_def acquire_def start_locked_def add_viewer_def new_world_def Let_def
      cancel_timer_def eff_defs)
  have r: "r = Raise (P2PError ''native on-demand snapshot failed'')"
    using s by (simp add: snapshot_def a on_fst_def on_snd_def eff_defs try_finally_def sanitised_def
      decode_picture_def popen_def process_failure_def leave_snapshot_def if_running_def stubborn_helper_def)
  have "0 \<notin> closed_subscriptions new_world" by (simp add: new_world_def)
  with snapshot_leaves_session [OF s _ a] r have "0 \<in> closed_subscriptions (fst t)" by simp
  moreover have "viewers (fst t) = []"
    using snapshot_world [OF s _ a] r
    by (simp add: close_subscription_def put_item_def) (simp add: one_viewer_def acquire_def start_locked_def
      add_viewer_def new_world_def Let_def cancel_timer_def eff_defs)
  ultimately show ?thesis using s r by blast
qed

section \<open>Two races\<close>

text \<open>
  A helper dies; before its pump has cleaned up, a new viewer joins and a new helper is started; then
  the old pump's clean-up takes the new viewer off the list and ends it although its helper runs.
\<close>

definition race1 :: world where
  "race1 = (set_pump 0 Waiting one_viewer)\<lparr>exits := [Some 1]\<rparr>"
definition race2 :: world where "race2 = snd (acquire (Inr True) race1)"
definition race3 :: world where "race3 = pump_finish 0 1 race2"
definition race4 :: world where
  "race4 = set_pump 0 (Sending END [1]) (put_item END 0 race3)"
definition race5 :: world where
  "race5 = set_pump 0 (Sending END []) (put_item END 1 race4)"

lemmas race_defs = race5_def race4_def race3_def race2_def race1_def one_viewer_def acquire_def start_locked_def
  add_viewer_def new_world_def Let_def cancel_timer_def eff_defs has_exited_def pump_finish_def
  parse_summary_def splitlines_def set_pump_def put_item_def

lemma race_run: "reachable race5"
proof -
  have r1: "reachable race1"
  proof -
    have a: "pump_step 0 one_viewer (set_pump 0 Waiting one_viewer)"
      by (rule end_of_output) (simp_all add: one_viewer_fields)
    have "pump_step 0 (set_pump 0 Waiting one_viewer)
        ((set_pump 0 Waiting one_viewer)\<lparr>exits := (exits (set_pump 0 Waiting one_viewer))[0 := Some 1]\<rparr>)"
      by (rule process_exit) (simp_all add: race_defs)
    moreover have "(exits (set_pump 0 Waiting one_viewer))[0 := Some 1] = [Some 1]" by (simp add: race_defs)
    ultimately show ?thesis
      using a one_viewer_reachable by (auto simp: race1_def intro: reachable_step step.pump)
  qed
  have r2: "reachable race2"
    using r1 by (rule reachable_step) (auto simp: race2_def intro: viewer_joins [OF surjective_pairing])
  have f2: "pumps race2 = [Waiting, Reading]" "exits race2 = [Some 1, None]" by (simp_all add: race_defs)
  have "pump_step 0 race2 race3" unfolding race3_def by (rule finish) (simp_all add: f2)
  with r2 have r3: "reachable race3" by (blast intro: reachable_step step.pump)
  have f3: "pumps race3 = [Sending END [0, 1], Reading]" by (simp add: race_defs)
  have "pump_step 0 race3 race4" unfolding race4_def by (rule send) (simp_all add: f3)
  with r3 have r4: "reachable race4" by (blast intro: reachable_step step.pump)
  have f4: "pumps race4 = [Sending END [1], Reading]" by (simp add: race4_def set_pump_def put_item_def f3)
  have "pump_step 0 race4 race5" unfolding race5_def by (rule send) (simp_all add: f4)
  with r4 show ?thesis by (blast intro: reachable_step step.pump)
qed

theorem stale_pump_ends_new_viewer:
  "\<exists>w p i. reachable w \<and> process w = Some p \<and> \<not> has_exited w p \<and> pumps w ! p = Reading \<and>
     i \<notin> closed_subscriptions w \<and> queues w i = [END] \<and> viewers w = []"
proof -
  have "process race5 = Some 1" "\<not> has_exited race5 1" "pumps race5 ! 1 = Reading"
    "1 \<notin> closed_subscriptions race5" "viewers race5 = []" "queues race5 1 = [END]"
    by (simp_all add: race_defs no_media_def preamble_def offer_def put_nowait_def QUEUE_SIZE_def)
  with race_run show ?thesis by blast
qed

text \<open>
  The idle callback decides under the lock, and terminates outside it: a viewer that joins in between
  shares a process that is about to be stopped.
\<close>

definition idle1 :: world where "idle1 = close_subscription 0 one_viewer"
definition idle2 :: world where "idle2 = idle1\<lparr>armed := armed idle1 - {0}, fired := insert 0 (fired idle1)\<rparr>"
definition idle3 :: world where "idle3 = stop_if_idle 0 idle2"
definition idle4 :: world where "idle4 = snd (acquire (Inr True) idle3)"

lemmas idle_defs = idle4_def idle3_def idle2_def idle1_def close_subscription_def release_def
  stop_if_idle_def stop_later_def

lemma idle_run: "reachable idle4"
proof -
  have "step one_viewer idle1" unfolding idle1_def by (rule viewer_leaves) (simp add: one_viewer_fields)
  moreover have "step idle1 idle2"
    unfolding idle2_def by (rule timer_fires) (simp add: idle_defs race_defs)
  moreover have "step idle2 idle3" unfolding idle3_def by (rule timer_runs) (simp add: idle2_def)
  moreover have "step idle3 idle4" unfolding idle4_def by (rule viewer_joins [OF surjective_pairing])
  ultimately show ?thesis using one_viewer_reachable by (blast intro: reachable_step)
qed

theorem idle_stop_overtakes_viewer:
  "\<exists>w p. reachable w \<and> \<not> shut w \<and> viewers w \<noteq> [] \<and> process w = Some p \<and> \<not> has_exited w p \<and> p \<in> stopping w"
proof -
  have "\<not> shut idle4" "viewers idle4 \<noteq> []" "process idle4 = Some 0" "\<not> has_exited idle4 0" "0 \<in> stopping idle4"
    by (simp_all add: idle_defs race_defs)
  with idle_run show ?thesis by blast
qed

end
