(* ===== verification/Bridge.thy ===== *)
theory Bridge
  imports Http Stream_Session
begin

text \<open>
  The HTTP bridge (\<open>okam_native/bridge.py\<close>): authentication, the three request handlers with their
  routing, and the two streaming handlers. A handler runs over the stream session and a site: the
  child processes, the idle timeout, the outcome of each write to the client and of each read from
  the muxer, the steps that other threads take while the handler waits, and what has been sent. The
  providers' answers, what starting a helper gives, and the request are arguments. An exception
  that leaves a handler is left to the server, which drops the connection.
\<close>

section \<open>Requests, replies and the site\<close>

record bridge =
  camera_id :: pystr
  camera_name :: pystr
  api_token :: pystr
  stream_token :: pystr
  ffmpeg_path :: pystr

record request =
  target :: pystr
  authorization :: "pystr option"
  host_header :: "pystr option"
  content_length :: "pystr option"
  request_body :: bytes

datatype part = Head int "(string \<times> pystr) list" | Body bytes

record site = snapshot_locals +
  idle_seconds :: rat
  meanwhile :: "(world \<Rightarrow> world) list"
  client_errors :: "exn option list"
  muxer_reads :: "(exn + bytes) list"
  sent :: "part list"

text \<open>One write to the client; beyond the script every write succeeds.\<close>

definition send_part :: "part \<Rightarrow> (world \<times> 'z site_scheme, unit) eff" where
  "send_part x = on_snd (\<lambda>s. case client_errors s of
      Some e # r \<Rightarrow> (Raise e, s\<lparr>client_errors := r\<rparr>)
    | None # r \<Rightarrow> (Ret (), s\<lparr>client_errors := r, sent := sent s @ [x]\<rparr>)
    | [] \<Rightarrow> (Ret (), s\<lparr>sent := sent s @ [x]\<rparr>))"

definition json_body :: "json \<Rightarrow> bytes" where
  "json_body payload = map of_nat (json_dumps (sort_json payload))"

definition json_head :: "int \<Rightarrow> json \<Rightarrow> part" where
  "json_head code payload = Head code [(''Content-Type'', str ''application/json''),
     (''Cache-Control'', str ''no-store''), (''Content-Length'', show_nat (length (json_body payload)))]"

definition send_json :: "int \<Rightarrow> json \<Rightarrow> (world \<times> 'z site_scheme, unit) eff" where
  "send_json code payload =
     seq (send_part (json_head code payload)) (send_part (Body (json_body payload)))"

definition error_json :: "string \<Rightarrow> json" where
  "error_json name = JObj [(str ''error'', JStr (str name))]"

section \<open>The bridge object\<close>

definition authenticated :: "bridge \<Rightarrow> pystr option \<Rightarrow> exn + bool" where
  "authenticated b auth = (case auth of
      None \<Rightarrow> Inr False
    | Some a \<Rightarrow> compare_digest a (str ''Bearer '' @ api_token b))"

definition stream_authenticated :: "bridge \<Rightarrow> pystr option \<Rightarrow> exn + bool" where
  "stream_authenticated b token = (case token of
      None \<Rightarrow> Inr False
    | Some t \<Rightarrow> compare_digest t (stream_token b))"

definition host_char :: "nat \<Rightarrow> bool" where
  "host_char c \<longleftrightarrow> ascii_alpha c \<or> ascii_digit c \<or> c = 46 \<or> c = 45"

definition address_char :: "nat \<Rightarrow> bool" where
  "address_char c \<longleftrightarrow> ascii_digit c \<or> (65 \<le> c \<and> c < 71) \<or> (97 \<le> c \<and> c < 103) \<or> c = 58"

definition port_suffix :: "pystr \<Rightarrow> bool" where
  "port_suffix s \<longleftrightarrow> s = [] \<or>
     (hd s = 58 \<and> 1 \<le> length (tl s) \<and> length (tl s) \<le> 5 \<and> list_all ascii_digit (tl s))"

text \<open>\<open>HOST_PATTERN.fullmatch\<close>: the two kinds of host start differently, and neither can run into the
  port, so each has one way to match.\<close>

definition host_matches :: "pystr \<Rightarrow> bool" where
  "host_matches h \<longleftrightarrow>
     (if h \<noteq> [] \<and> hd h = 91 then
        (let inner = takeWhile address_char (tl h); rest = dropWhile address_char (tl h) in
         inner \<noteq> [] \<and> rest \<noteq> [] \<and> hd rest = 93 \<and> port_suffix (tl rest))
      else takeWhile host_char h \<noteq> [] \<and> port_suffix (dropWhile host_char h))"

definition safe_host :: "pystr option \<Rightarrow> pystr" where
  "safe_host h = (case h of
      Some t \<Rightarrow> if host_matches t then t else str ''127.0.0.1:8099''
    | None \<Rightarrow> str ''127.0.0.1:8099'')"

definition stream_url :: "bridge \<Rightarrow> pystr option \<Rightarrow> exn + pystr" where
  "stream_url b host =
     sbind (quote (camera_id b)) (\<lambda>camera.
     sbind (quote (stream_token b)) (\<lambda>token.
       Inr (str ''http://'' @ safe_host host @ str ''/api/cameras/'' @ camera @
         str ''/stream.ts?token='' @ token)))"

text \<open>\<open>int(x)\<close> of a float rounds towards zero.\<close>

definition int_of_float :: "rat \<Rightarrow> int" where
  "int_of_float x = (if 0 \<le> x then floor x else ceiling x)"

definition optional_text :: "string option \<Rightarrow> json" where
  "optional_text t = (case t of None \<Rightarrow> JNull | Some s \<Rightarrow> JStr (str s))"

definition bridge_status :: "bridge \<Rightarrow> session_status \<Rightarrow> rat \<Rightarrow> json" where
  "bridge_status b st idle = JObj
     [(str ''camera_id'', JStr (camera_id b)), (str ''name'', JStr (camera_name b)),
      (str ''online'', JBool True),
      (str ''state'', JStr (str (if is_running st then if is_media_ready st then ''streaming'' else ''waking''
                                else ''idle''))),
      (str ''viewers'', JInt (int (viewer_count st))), (str ''media_ready'', JBool (is_media_ready st)),
      (str ''idle_timeout_seconds'', JInt (int_of_float idle)),
      (str ''battery_percent'', JNull), (str ''signal_dbm'', JNull), (str ''last_event'', JNull),
      (str ''pir_motion'', JNull), (str ''charging'', JNull),
      (str ''clean_disconnect'', case was_clean st of None \<Rightarrow> JNull | Some c \<Rightarrow> JBool c),
      (str ''last_error'', optional_text (reported_error st))]"

section \<open>Readiness\<close>

definition flag :: "(pystr \<times> json) list \<Rightarrow> string \<Rightarrow> bool" where
  "flag d name = truthy (json_get d name)"

definition ready :: "(pystr \<times> json) list \<Rightarrow> bool" where
  "ready d \<longleftrightarrow> flag d ''loader_ready'' \<and>
     (flag d ''configuration_required'' \<or> flag d ''camera_ready'' \<or>
      (flag d ''account_ready'' \<and>
       (\<not> flag d ''connect_test_enabled'' \<or> flag d ''p2p_ready'') \<and>
       (\<not> flag d ''auth_test_enabled'' \<or> flag d ''camera_authenticated'') \<and>
       (\<not> flag d ''stream_test_enabled'' \<or> flag d ''h264_ready'') \<and>
       (\<not> flag d ''snapshot_test_enabled'' \<or> flag d ''snapshot_ready'')))"

section \<open>Media handlers\<close>

definition is_p2p_error :: "exn \<Rightarrow> bool" where
  "is_p2p_error e = (case e of P2PError _ \<Rightarrow> True | _ \<Rightarrow> False)"

text \<open>\<open>try: m except P2PError\<close>: \<open>None\<close> when it was one.\<close>

definition attempt :: "('s, 'a) eff \<Rightarrow> ('s, 'a option) eff" where
  "attempt m = catch (bind m (\<lambda>x. ret (Some x))) (\<lambda>e. if is_p2p_error e then ret None else raise e)"

definition get_snapshot :: "exn + bool \<Rightarrow> bridge \<Rightarrow> (world \<times> 'z site_scheme, unit) eff" where
  "get_snapshot starter b =
     bind (attempt (snapshot starter (ffmpeg_path b))) (\<lambda>picture. case picture of
       None \<Rightarrow> send_json 503 (error_json ''snapshot_unavailable'')
     | Some (jpeg, _, _) \<Rightarrow>
         seq (send_part (Head 200 [(''Content-Type'', str ''image/jpeg''), (''Cache-Control'', str ''no-store''),
                (''Content-Length'', show_nat (length jpeg))]))
             (send_part (Body jpeg)))"

definition stream_head :: "string \<Rightarrow> part" where
  "stream_head kind = Head 200 [(''Content-Type'', str kind), (''Cache-Control'', str ''no-store''),
     (''Connection'', str ''close'')]"

text \<open>The other threads get on while the handler waits; the observation ends with their script.\<close>

definition others_step :: "(world \<times> 'z site_scheme, unit) eff" where
  "others_step = (\<lambda>(w, s). case meanwhile s of
      [] \<Rightarrow> (Halt, (w, s))
    | f # r \<Rightarrow> (Ret (), (f w, s\<lparr>meanwhile := r\<rparr>)))"

definition rounds_left :: "(world \<times> 'z site_scheme, nat) eff" where
  "rounds_left = on_snd (gets (\<lambda>s. Suc (length (meanwhile s))))"

text \<open>One turn of \<open>for chunk in subscription\<close>, which hands the chunk on; the blocking \<open>get\<close> of an empty
  queue waits.\<close>

definition chunk_round ::
    "nat \<Rightarrow> (bytes \<Rightarrow> (world \<times> 'z site_scheme, unit) eff) \<Rightarrow> unit \<Rightarrow> (world \<times> 'z site_scheme, unit + unit) eff" where
  "chunk_round i deliver = (\<lambda>_.
     seq others_step
     (bind (on_fst (gets (\<lambda>w. i \<notin> closed_subscriptions w \<and> queues w i = []))) (\<lambda>empty.
      if empty then ret (Inl ())
      else bind (on_fst (next_chunk i)) (\<lambda>chunk. case chunk of
          None \<Rightarrow> ret (Inr ())
        | Some c \<Rightarrow> seq (deliver c) (ret (Inl ()))))))"

definition each_chunk :: "nat \<Rightarrow> (bytes \<Rightarrow> (world \<times> 'z site_scheme, unit) eff) \<Rightarrow> (world \<times> 'z site_scheme, unit) eff" where
  "each_chunk i deliver = bind rounds_left (\<lambda>fuel. loop fuel (chunk_round i deliver) ())"

definition ignore_os_error :: "('s, unit) eff \<Rightarrow> ('s, unit) eff" where
  "ignore_os_error m = catch m (\<lambda>e. if e = OSError then ret () else raise e)"

definition leave_viewer :: "nat \<Rightarrow> (world \<times> 'z site_scheme, unit) eff" where
  "leave_viewer i = on_fst (modify (close_subscription i))"

definition raw_stream :: "exn + bool \<Rightarrow> (world \<times> 'z site_scheme, unit) eff" where
  "raw_stream starter =
     bind (attempt (on_fst (acquire starter))) (\<lambda>subscription. case subscription of
       None \<Rightarrow> send_json 503 (error_json ''stream_unavailable'')
     | Some i \<Rightarrow>
         seq (send_part (stream_head ''video/h264''))
           (try_finally
             (ignore_os_error (each_chunk i (\<lambda>c. send_part (Body c))))
             (leave_viewer i)))"

definition muxer_argv :: "pystr \<Rightarrow> pystr list" where
  "muxer_argv ffmpeg = ffmpeg # map str [''-hide_banner'', ''-loglevel'', ''error'', ''-fflags'', ''+genpts'',
     ''-use_wallclock_as_timestamps'', ''1'', ''-f'', ''h264'', ''-i'', ''pipe:0'', ''-c:v'', ''copy'',
     ''-f'', ''mpegts'', ''-muxdelay'', ''0'', ''-muxpreload'', ''0'', ''pipe:1'']"

definition read_muxer :: "(world \<times> 'z site_scheme, bytes) eff" where
  "read_muxer = on_snd (\<lambda>s. case muxer_reads s of
      [] \<Rightarrow> (Halt, s)
    | Inl e # r \<Rightarrow> (Raise e, s\<lparr>muxer_reads := r\<rparr>)
    | Inr piece # r \<Rightarrow> (Ret piece, s\<lparr>muxer_reads := r\<rparr>))"

text \<open>The thread that feeds the muxer, a run of its own: its steps on the session are the
  \<open>viewer_takes\<close> steps among those of the others.\<close>

definition feed :: "nat \<Rightarrow> nat \<Rightarrow> (world \<times> 'z site_scheme, unit) eff" where
  "feed i m =
     try_finally
       (catch (each_chunk i (\<lambda>c. on_snd (write_stdin m c)))
         (\<lambda>e. if e = OSError \<or> e = ValueError then ret () else raise e))
       (ignore_os_error (on_snd (close_pipe m)))"

definition mux_round :: "unit \<Rightarrow> (world \<times> 'z site_scheme, unit + unit) eff" where
  "mux_round = (\<lambda>_.
     seq others_step
     (bind read_muxer (\<lambda>piece.
      if piece = [] then ret (Inr ()) else seq (send_part (Body piece)) (ret (Inl ())))))"

definition stop_muxer :: "nat \<Rightarrow> nat \<Rightarrow> (world \<times> 'z site_scheme, unit) eff" where
  "stop_muxer i m = seq (leave_viewer i) (on_snd (if_running (Some m) terminate_then_kill))"

definition muxed_stream :: "exn + bool \<Rightarrow> bridge \<Rightarrow> (world \<times> 'z site_scheme, unit) eff" where
  "muxed_stream starter b =
     bind (attempt (on_fst (acquire starter))) (\<lambda>subscription. case subscription of
       None \<Rightarrow> send_json 503 (error_json ''stream_unavailable'')
     | Some i \<Rightarrow>
         bind (catch (bind (on_snd (popen (muxer_argv (ffmpeg_path b)))) (\<lambda>m. ret (Some m)))
                (\<lambda>e. if process_failure e then seq (leave_viewer i) (ret None) else raise e)) (\<lambda>muxer.
         case muxer of
           None \<Rightarrow> send_json 503 (error_json ''stream_unavailable'')
         | Some m \<Rightarrow>
             seq (send_part (stream_head ''video/mp2t''))
               (try_finally
                 (ignore_os_error (bind rounds_left (\<lambda>fuel. loop fuel mux_round ())))
                 (stop_muxer i m))))"

section \<open>Handlers\<close>

definition camera_prefix :: "bridge \<Rightarrow> exn + pystr" where
  "camera_prefix b = sbind (quote (camera_id b)) (\<lambda>c. Inr (str ''/api/cameras/'' @ c))"

definition send_url :: "bridge \<Rightarrow> request \<Rightarrow> (world \<times> 'z site_scheme, unit) eff" where
  "send_url b req = bind (lift_sum (stream_url b (host_header req))) (\<lambda>u.
     send_json 200 (JObj [(str ''stream_url'', JStr u)]))"

definition send_status :: "bridge \<Rightarrow> (world \<times> 'z site_scheme, unit) eff" where
  "send_status b = bind (on_fst (gets status)) (\<lambda>st. bind (on_snd (gets idle_seconds)) (\<lambda>idle.
     send_json 200 (bridge_status b st idle)))"

definition get_resource ::
    "exn + bool \<Rightarrow> bridge \<Rightarrow> request \<Rightarrow> pystr \<Rightarrow> pystr \<Rightarrow> (world \<times> 'z site_scheme, unit) eff" where
  "get_resource starter b req prefix path =
     (if path = str ''/api/devices'' then
        send_json 200 (JList [JObj [(str ''camera_id'', JStr (camera_id b)), (str ''name'', JStr (camera_name b))]])
      else if path = prefix @ str ''/status'' then send_status b
      else if path = prefix @ str ''/snapshot.jpg'' then get_snapshot starter b
      else if path = prefix @ str ''/stream/source'' then send_url b req
      else send_json 404 (error_json ''not_found''))"

definition unauthorized :: "(world \<times> 'z site_scheme, unit) eff" where
  "unauthorized = send_json 401 (error_json ''unauthorized'')"

definition do_GET ::
    "(pystr \<Rightarrow> bool) \<Rightarrow> (pystr \<times> json) list \<Rightarrow> bridge option \<Rightarrow> exn + bool \<Rightarrow> request \<Rightarrow>
      (world \<times> 'z site_scheme, unit) eff" where
  "do_GET host_refused payload provider starter req =
     bind (lift_sum (urlsplit host_refused (target req))) (\<lambda>(path, query).
     if path = str ''/health'' then
       send_json 200 (JObj [(str ''service'', JStr (str ''okam-native'')), (str ''status'', JStr (str ''ok''))])
     else if path = str ''/ready'' then send_json (if ready payload then 200 else 503) (JObj payload)
     else case provider of
       None \<Rightarrow> send_json 503 (error_json ''bridge_not_ready'')
     | Some b \<Rightarrow>
         bind (lift_sum (camera_prefix b)) (\<lambda>prefix.
         if path = prefix @ str ''/stream.h264'' \<or> path = prefix @ str ''/stream.ts'' then
           bind (lift_sum (stream_authenticated b (query_value ''token'' query))) (\<lambda>ok.
             if \<not> ok then unauthorized
             else if path = prefix @ str ''/stream.ts'' then muxed_stream starter b
             else raw_stream starter)
         else
           bind (lift_sum (authenticated b (authorization req))) (\<lambda>ok.
             if \<not> ok then unauthorized else get_resource starter b req prefix path)))"

text \<open>\<open>_authorized_bridge\<close>: the bridge, or \<open>None\<close> after a refusal has been sent.\<close>

definition authorized_bridge :: "bridge option \<Rightarrow> request \<Rightarrow> (world \<times> 'z site_scheme, bridge option) eff" where
  "authorized_bridge provider req = (case provider of
      None \<Rightarrow> seq (send_json 503 (error_json ''bridge_not_ready'')) (ret None)
    | Some b \<Rightarrow> bind (lift_sum (authenticated b (authorization req))) (\<lambda>ok.
        if ok then ret (Some b) else seq unauthorized (ret None)))"

definition MAX_REQUEST_BYTES :: nat where [simp]: "MAX_REQUEST_BYTES = 4096"

definition body_length :: "request \<Rightarrow> int" where
  "body_length req = (case content_length req of
      None \<Rightarrow> 0
    | Some t \<Rightarrow> (case header_int t of None \<Rightarrow> - 1 | Some n \<Rightarrow> n))"

definition invalid_request :: "(world \<times> 'z site_scheme, (pystr \<times> json) list option) eff" where
  "invalid_request = seq (send_json 400 (error_json ''invalid_request'')) (ret None)"

definition request_json :: "request \<Rightarrow> (world \<times> 'z site_scheme, (pystr \<times> json) list option) eff" where
  "request_json req =
     (let len = body_length req in
      if \<not> (0 < len \<and> len \<le> int MAX_REQUEST_BYTES) then invalid_request
      else case json_loads_utf8 (take (nat len) (request_body req)) of
        Inl e \<Rightarrow> if e = UnicodeError \<or> e = JSONDecodeError then invalid_request else raise e
      | Inr (JObj d) \<Rightarrow> ret (Some d)
      | Inr _ \<Rightarrow> invalid_request)"

definition set_idle :: "int \<Rightarrow> (world \<times> 'z site_scheme, unit) eff" where
  "set_idle n = on_snd (modify (idle_seconds_update (\<lambda>_. of_int n)))"

definition do_PATCH :: "(pystr \<Rightarrow> bool) \<Rightarrow> bridge option \<Rightarrow> request \<Rightarrow> (world \<times> 'z site_scheme, unit) eff" where
  "do_PATCH host_refused provider req =
     bind (authorized_bridge provider req) (\<lambda>found. case found of
       None \<Rightarrow> ret ()
     | Some b \<Rightarrow>
         bind (lift_sum (camera_prefix b)) (\<lambda>prefix.
         bind (lift_sum (urlsplit host_refused (target req))) (\<lambda>(path, _).
         if path \<noteq> prefix @ str ''/config'' then send_json 404 (error_json ''not_found'')
         else bind (request_json req) (\<lambda>body. case body of
             None \<Rightarrow> ret ()
           | Some d \<Rightarrow>
               (let idle = json_get d ''idle_timeout_seconds'' in
                if \<not> is_int idle \<or> \<not> (10 \<le> as_int idle \<and> as_int idle \<le> 600)
                then send_json 400 (error_json ''invalid_idle_timeout'')
                else seq (set_idle (as_int idle))
                  (send_json 200 (JObj [(str ''idle_timeout_seconds'', idle)])))))))"

definition do_POST :: "(pystr \<Rightarrow> bool) \<Rightarrow> bridge option \<Rightarrow> request \<Rightarrow> (world \<times> 'z site_scheme, unit) eff" where
  "do_POST host_refused provider req =
     bind (authorized_bridge provider req) (\<lambda>found. case found of
       None \<Rightarrow> ret ()
     | Some b \<Rightarrow>
         bind (lift_sum (camera_prefix b)) (\<lambda>prefix.
         bind (lift_sum (urlsplit host_refused (target req))) (\<lambda>(path, _).
         if path = prefix @ str ''/stream/start'' then
           bind (request_json req) (\<lambda>body. case body of None \<Rightarrow> ret () | Some _ \<Rightarrow> send_url b req)
         else if path = prefix @ str ''/stream/stop'' then
           bind (request_json req) (\<lambda>body. case body of
             None \<Rightarrow> ret () | Some _ \<Rightarrow> send_json 200 (JObj [(str ''stopped'', JBool True)]))
         else send_json 404 (error_json ''not_found''))))"

datatype verb = GET | PATCH | POST

text \<open>\<open>BaseHTTPRequestHandler\<close> calls the method named after the verb.\<close>

definition handle ::
    "verb \<Rightarrow> (pystr \<Rightarrow> bool) \<Rightarrow> (pystr \<times> json) list \<Rightarrow> bridge option \<Rightarrow> exn + bool \<Rightarrow> request \<Rightarrow>
      (world \<times> 'z site_scheme, unit) eff" where
  "handle m host_refused payload provider starter req = (case m of
      GET \<Rightarrow> do_GET host_refused payload provider starter req
    | PATCH \<Rightarrow> do_PATCH host_refused provider req
    | POST \<Rightarrow> do_POST host_refused provider req)"

section \<open>What a refusal does\<close>

text \<open>Sending some of the given parts is all that happened.\<close>

definition only_sends :: "part list \<Rightarrow> world \<times> 'z site_scheme \<Rightarrow> world \<times> 'z site_scheme \<Rightarrow> bool" where
  "only_sends parts a b \<longleftrightarrow> fst b = fst a \<and>
     (\<exists>k errors. snd b = snd a\<lparr>client_errors := errors, sent := sent (snd a) @ take k parts\<rparr>)"

lemma only_sends_nothing: "only_sends parts a a"
  unfolding only_sends_def by (auto intro!: exI [of _ 0] exI [of _ "client_errors (snd a)"])

lemma send_part_cases:
  "send_part x (w, s) = (Ret (), (w, s\<lparr>client_errors := tl (client_errors s), sent := sent s @ [x]\<rparr>)) \<or>
   (\<exists>e. Some e \<in> set (client_errors s) \<and>
     send_part x (w, s) = (Raise e, (w, s\<lparr>client_errors := tl (client_errors s)\<rparr>)))"
  by (cases "client_errors s") (auto simp: send_part_def on_snd_def split: option.split)

lemma send_json_only:
  assumes "send_json code payload a = (r, b)"
  shows "only_sends [json_head code payload, Body (json_body payload)] a b"
    "r = Ret () \<or> (\<exists>e. r = Raise e \<and> Some e \<in> set (client_errors (snd a)))"
proof -
  obtain w s where a: "a = (w, s)" by (cases a)
  let ?h = "json_head code payload" and ?b = "Body (json_body payload)"
  let ?s1 = "s\<lparr>client_errors := tl (client_errors s), sent := sent s @ [?h]\<rparr>"
  have one: "only_sends [?h, ?b] a (w, s\<lparr>client_errors := tl (client_errors s)\<rparr>)"
    unfolding a only_sends_def by (auto intro!: exI [of _ 0] exI [of _ "tl (client_errors s)"])
  have two: "only_sends [?h, ?b] a (w, ?s1\<lparr>client_errors := es\<rparr>)" for es
    unfolding a only_sends_def by (auto intro!: exI [of _ 1] exI [of _ es])
  have three: "only_sends [?h, ?b] a (w, ?s1\<lparr>client_errors := es, sent := sent s @ [?h, ?b]\<rparr>)" for es
    unfolding a only_sends_def by (auto intro!: exI [of _ 2] exI [of _ es])
  have "only_sends [?h, ?b] a b \<and> (r = Ret () \<or> (\<exists>e. r = Raise e \<and> Some e \<in> set (client_errors (snd a))))"
    using send_part_cases [of ?h w s]
  proof
    assume f: "send_part ?h (w, s) = (Ret (), (w, ?s1))"
    from send_part_cases [of ?b w ?s1] show ?thesis
    proof
      assume "send_part ?b (w, ?s1) = (Ret (), (w, ?s1\<lparr>client_errors := tl (client_errors ?s1), sent := sent ?s1 @ [?b]\<rparr>))"
      with assms f three show ?thesis by (auto simp: send_json_def seq_def bind_def a)
    next
      assume "\<exists>e. Some e \<in> set (client_errors ?s1) \<and>
        send_part ?b (w, ?s1) = (Raise e, (w, ?s1\<lparr>client_errors := tl (client_errors ?s1)\<rparr>))"
      with assms f two show ?thesis
        by (auto simp: send_json_def seq_def bind_def a dest: list.set_sel(2) [rotated])
          (metis list.sel(2) list.set_sel(2))
    qed
  next
    assume "\<exists>e. Some e \<in> set (client_errors s) \<and>
      send_part ?h (w, s) = (Raise e, (w, s\<lparr>client_errors := tl (client_errors s)\<rparr>))"
    with assms one show ?thesis by (auto simp: send_json_def seq_def bind_def a)
  qed
  then show "only_sends [?h, ?b] a b" "r = Ret () \<or> (\<exists>e. r = Raise e \<and> Some e \<in> set (client_errors (snd a)))"
    by auto
qed

lemma refused: "compare_digest a t = Inr True \<longleftrightarrow> a = t \<and> ascii_str t"
  by (auto simp: compare_digest_def)

lemma not_authenticated:
  assumes "authorization req \<noteq> Some (str ''Bearer '' @ api_token b)"
  shows "authenticated b (authorization req) = Inr False \<or> (\<exists>e. authenticated b (authorization req) = Inl e)"
  using assms by (auto simp: authenticated_def compare_digest_def split: option.split)

definition refusal :: "part list" where
  "refusal = [json_head 401 (error_json ''unauthorized''), Body (json_body (error_json ''unauthorized''))]"

lemma unauthorized_only: "unauthorized a = (r, b) \<Longrightarrow> only_sends refusal a b"
  unfolding unauthorized_def refusal_def by (rule send_json_only)

lemma lift_False:
  assumes "bind (lift_sum x) k a = (r, b)" "x = Inr False \<or> (\<exists>e. x = Inl e)"
    "\<And>r b. k False a = (r, b) \<Longrightarrow> only_sends parts a b"
  shows "only_sends parts a b"
  using assms(2)
proof
  assume "x = Inr False"
  with assms(1) have "k False a = (r, b)" by (simp add: lift_sum_def)
  then show ?thesis by (rule assms(3))
qed (use assms(1) in \<open>auto simp: lift_sum_def only_sends_nothing\<close>)

lemma authorized_none:
  assumes "authorization req \<noteq> Some (str ''Bearer '' @ api_token b)"
    "bind (authorized_bridge (Some b) req) k a = (r, a')" "k None = ret ()"
  shows "only_sends refusal a a'"
proof -
  have "bind (lift_sum (authenticated b (authorization req))) (\<lambda>ok.
      bind (if ok then ret (Some b) else seq unauthorized (ret None)) k) a = (r, a')"
    using assms(2) by (simp add: authorized_bridge_def bind_assoc)
  then show ?thesis
  proof (rule lift_False [OF _ not_authenticated [OF assms(1)]])
    fix r' c assume "bind (if False then ret (Some b) else seq unauthorized (ret None)) k a = (r', c)"
    then show "only_sends refusal a c"
      using assms(3) unauthorized_only [of a] by (auto simp: seq_def bind_def split: prod.splits outcome.splits)
  qed
qed

lemma unauthorised_sends:
  assumes "authorization req \<noteq> Some (str ''Bearer '' @ api_token b)"
    and "\<And>path query. m = GET \<Longrightarrow> urlsplit refused (target req) = Inr (path, query) \<Longrightarrow>
      path \<noteq> str ''/health'' \<and> path \<noteq> str ''/ready'' \<and> query_value ''token'' query \<noteq> Some (stream_token b)"
    and "handle m refused payload (Some b) starter req a = (r, a')"
  shows "only_sends refusal a a'"
proof (cases m)
  case GET
  show ?thesis
  proof (cases "urlsplit refused (target req)")
    case (Inl e)
    with assms(3) GET show ?thesis by (simp add: handle_def do_GET_def lift_sum_def only_sends_nothing)
  next
    case (Inr pq)
    obtain path query where pq: "pq = (path, query)" by (cases pq)
    note p = assms(2) [OF GET Inr [unfolded pq]]
    show ?thesis
    proof (cases "camera_prefix b")
      case (Inl e)
      with assms(3) GET Inr pq p show ?thesis by (simp add: handle_def do_GET_def lift_sum_def only_sends_nothing)
    next
      case prefix: (Inr prefix)
      have st: "stream_authenticated b (query_value ''token'' query) = Inr False \<or>
          (\<exists>e. stream_authenticated b (query_value ''token'' query) = Inl e)"
        using p by (auto simp: stream_authenticated_def compare_digest_def split: option.split)
      show ?thesis
      proof (cases "path = prefix @ str ''/stream.h264'' \<or> path = prefix @ str ''/stream.ts''")
        case True
        with assms(3) GET Inr pq p prefix have "bind (lift_sum (stream_authenticated b (query_value ''token'' query)))
            (\<lambda>ok. if \<not> ok then unauthorized else if path = prefix @ str ''/stream.ts'' then muxed_stream starter b
              else raw_stream starter) a = (r, a')"
          by (simp add: handle_def do_GET_def lift_sum_def)
        then show ?thesis by (rule lift_False [OF _ st]) (simp add: unauthorized_only)
      next
        case False
        with assms(3) GET Inr pq p prefix have "bind (lift_sum (authenticated b (authorization req)))
            (\<lambda>ok. if \<not> ok then unauthorized else get_resource starter b req prefix path) a = (r, a')"
          by (simp add: handle_def do_GET_def lift_sum_def)
        then show ?thesis by (rule lift_False [OF _ not_authenticated [OF assms(1)]]) (simp add: unauthorized_only)
      qed
    qed
  qed
next
  case PATCH
  show ?thesis
    using authorized_none [OF assms(1) assms(3) [unfolded handle_def PATCH verb.case do_PATCH_def]] by simp
next
  case POST
  show ?thesis
    using authorized_none [OF assms(1) assms(3) [unfolded handle_def POST verb.case do_POST_def]] by simp
qed

text \<open>C3: Without the token nothing is served: a request that carries neither the API token nor, in its
  query, the stream token gets at most a 401 reply. Whatever the verb and the target, the health and
  readiness probes excepted, the session, the processes and the idle timeout stay as they are.\<close>

theorem unauthorised_served_nothing:
  assumes "authorization req \<noteq> Some (str ''Bearer '' @ api_token b)"
    and "\<And>path query. m = GET \<Longrightarrow> urlsplit refused (target req) = Inr (path, query) \<Longrightarrow>
      path \<noteq> str ''/health'' \<and> path \<noteq> str ''/ready'' \<and> query_value ''token'' query \<noteq> Some (stream_token b)"
    and "handle m refused payload (Some b) starter req a = (r, a')"
  shows "only_sends refusal a a'"
  using assms by (rule unauthorised_sends)

definition home_bridge :: bridge where
  "home_bridge = \<lparr>camera_id = str ''cam 1'', camera_name = str ''Door'', api_token = str ''secret'',
     stream_token = str ''tv-42'', ffmpeg_path = str ''ffmpeg''\<rparr>"

definition quiet_site :: site where
  "quiet_site = snapshot_locals.extend (stubborn_helper\<lparr>popens := []\<rparr>)
     (site.fields 120 [] [] [] [])"

definition plain_request :: "string \<Rightarrow> request" where
  "plain_request path = \<lparr>target = str path, authorization = Some (str ''Bearer guess''), host_header = None,
     content_length = None, request_body = []\<rparr>"


lemma devices_target: "urlsplit refused (target (plain_request ''/api/devices'')) = Inr (str ''/api/devices'', [])"
  by (simp add: plain_request_def urlsplit_def drop_scheme_def before_def from_first_def str_def Let_def)

theorem unauthorised_served_nothing_witness:
  "\<exists>r w s. handle GET (\<lambda>_. False) [] (Some home_bridge) (Inr True) (plain_request ''/api/devices'')
     (new_world, quiet_site) = (r, (w, s)) \<and> w = new_world \<and> set (sent s) \<subseteq> set refusal"
proof -
  let ?m = "handle GET (\<lambda>_. False) [] (Some home_bridge) (Inr True) (plain_request ''/api/devices'')"
  obtain r w s where h: "?m (new_world, quiet_site) = (r, (w, s))" by (metis prod_cases3)
  have "only_sends refusal (new_world, quiet_site) (w, s)"
  proof (rule unauthorised_served_nothing [OF _ _ h])
    show "authorization (plain_request ''/api/devices'') \<noteq> Some (str ''Bearer '' @ api_token home_bridge)"
      by (simp add: plain_request_def home_bridge_def str_def)
    fix path query
    assume "urlsplit (\<lambda>_. False) (target (plain_request ''/api/devices'')) = Inr (path, query)"
    then have "path = str ''/api/devices''" "query = []" by (simp_all add: devices_target)
    then show "path \<noteq> str ''/health'' \<and> path \<noteq> str ''/ready'' \<and> query_value ''token'' query \<noteq> Some (stream_token home_bridge)"
      by (simp add: str_def query_value_def split_text_def query_pair_def before_def from_first_def)
  qed
  then have "w = new_world" "set (sent s) \<subseteq> set refusal"
    by (auto simp: only_sends_def quiet_site_def snapshot_locals.extend_def site.fields_def dest: in_set_takeD)
  with h show ?thesis by blast
qed

section \<open>The idle timeout\<close>

definition idle_kept :: "world \<times> 'z site_scheme \<Rightarrow> world \<times> 'z site_scheme \<Rightarrow> bool" where
  "idle_kept = same_on (\<lambda>d. idle_seconds (snd d))"

interpretation idle: two_state idle_kept
  unfolding idle_kept_def by (rule two_state_same_on)

lemma idle_world: "steps_by idle_kept (on_fst m)"
  by (auto simp: steps_by_def idle_kept_def same_on_def on_fst_def split: prod.splits)

lemma idle_site: "steps_by (same_on idle_seconds) m \<Longrightarrow> steps_by idle_kept (on_snd m)"
  by (rule steps_byI) (auto simp: idle_kept_def same_on_def on_snd_def dest: steps_byD split: prod.splits)

interpretation idle_os: two_state "same_on idle_seconds"
  by (rule two_state_same_on)

lemma idle_acts:
  "steps_by (same_on idle_seconds) (popen argv)"
  "steps_by (same_on idle_seconds) (poll p)"
  "steps_by (same_on idle_seconds) (wait_process p)"
  "steps_by (same_on idle_seconds) (communicate p)"
  "(\<And>s. idle_seconds (f s) = idle_seconds s) \<Longrightarrow> steps_by (same_on idle_seconds) (act f)"
  "(\<And>s. idle_seconds (f s) = idle_seconds s) \<Longrightarrow> steps_by (same_on idle_seconds) (modify f)"
  by (auto simp: steps_by_def same_on_def popen_def poll_def wait_process_def communicate_def act_def
    split: list.splits option.splits sum.splits prod.splits)

lemma idle_signal: "steps_by (same_on idle_seconds) (send_signal forced p)"
  unfolding send_signal_def by (intro idle_os.step_rules idle_acts) simp

lemma idle_stop: "steps_by (same_on idle_seconds) (terminate_then_kill p)"
  "steps_by (same_on idle_seconds) (kill_and_wait p)"
  unfolding terminate_then_kill_def kill_and_wait_def terminate_process_def kill_process_def
  by (intro idle_os.step_rules idle_acts idle_signal)+

lemma idle_if_running: "(\<And>p. steps_by (same_on idle_seconds) (f p)) \<Longrightarrow> steps_by (same_on idle_seconds) (if_running h f)"
  unfolding if_running_def by (intro idle_os.step_rules idle_acts)

lemma idle_part: "steps_by idle_kept (send_part x)"
  unfolding send_part_def by (rule idle_site) (auto simp: steps_by_def same_on_def split: list.splits option.splits)

lemma idle_json: "steps_by idle_kept (send_json code payload)"
  unfolding send_json_def by (intro idle.step_rules idle_part)

lemma idle_attempt: "steps_by idle_kept m \<Longrightarrow> steps_by idle_kept (attempt m)"
  unfolding attempt_def by (intro idle.step_rules)

lemma idle_others: "steps_by idle_kept others_step"
  by (auto simp: steps_by_def idle_kept_def same_on_def others_step_def split: prod.splits list.splits)

lemma idle_gets: "steps_by idle_kept (on_snd (gets f))"
  by (intro idle_site idle_os.step_rules)

lemma idle_muxer: "steps_by idle_kept read_muxer"
  unfolding read_muxer_def by (rule idle_site) (auto simp: steps_by_def same_on_def split: list.splits sum.splits)

lemma idle_snapshot: "steps_by idle_kept (snapshot starter ffmpeg)"
  unfolding snapshot_def decode_picture_def leave_snapshot_def sanitised_def
  by (intro idle.step_rules idle_world idle_site idle_os.step_rules idle_if_running idle_stop idle_acts) simp_all

lemma idle_get_snapshot: "steps_by idle_kept (get_snapshot starter b)"
  unfolding get_snapshot_def by (intro idle.step_rules idle_attempt idle_snapshot idle_json idle_part)

lemmas idle_parts = idle_part idle_json idle_attempt idle_world idle_others idle_gets idle_muxer

lemma idle_raw: "steps_by idle_kept (raw_stream starter)"
  unfolding raw_stream_def ignore_os_error_def each_chunk_def chunk_round_def rounds_left_def leave_viewer_def
  by (intro idle.step_rules idle_parts)

lemma idle_muxed: "steps_by idle_kept (muxed_stream starter b)"
  unfolding muxed_stream_def ignore_os_error_def mux_round_def rounds_left_def leave_viewer_def stop_muxer_def
  by (intro idle.step_rules idle_parts idle_site idle_acts idle_if_running idle_stop)

lemma idle_GET: "steps_by idle_kept (do_GET refused payload provider starter req)"
  unfolding do_GET_def get_resource_def unauthorized_def send_status_def send_url_def
  by (intro idle.step_rules idle_parts idle_raw idle_muxed idle_get_snapshot)

lemma idle_bridge: "steps_by idle_kept (authorized_bridge provider req)"
  unfolding authorized_bridge_def unauthorized_def by (intro idle.step_rules idle_parts)

lemma idle_request: "steps_by idle_kept (request_json req)"
  unfolding request_json_def invalid_request_def
  by (auto intro!: idle.step_rules idle_parts simp: Let_def split: sum.split json.split)

lemma idle_POST: "steps_by idle_kept (do_POST refused provider req)"
  unfolding do_POST_def send_url_def by (intro idle.step_rules idle_parts idle_bridge idle_request)


text \<open>Kept, or set within the limits.\<close>

definition idle_set :: "world \<times> 'z site_scheme \<Rightarrow> world \<times> 'z site_scheme \<Rightarrow> bool" where
  "idle_set a a' \<longleftrightarrow> idle_kept a a' \<or> (\<exists>n. 10 \<le> n \<and> n \<le> 600 \<and> idle_seconds (snd a') = of_int n)"

interpretation setting: two_state idle_set
  by unfold_locales (auto simp: idle_set_def idle_kept_def same_on_def)

lemma setting_kept: "steps_by idle_kept m \<Longrightarrow> steps_by idle_set m"
  by (simp add: steps_by_def idle_set_def)

lemma setting_set: "10 \<le> n \<Longrightarrow> n \<le> 600 \<Longrightarrow> steps_by idle_set (set_idle n)"
  by (auto simp: steps_by_def idle_set_def set_idle_def on_snd_def split: prod.splits)

lemma setting_PATCH: "steps_by idle_set (do_PATCH refused provider req)"
  unfolding do_PATCH_def
  by (intro setting.step_rules setting_kept [OF idle_bridge] setting_kept [OF idle_request]
    setting_kept [OF idle_json] setting_set) auto

lemma idle_no_bridge: "steps_by idle_kept (do_PATCH refused None req)"
  unfolding do_PATCH_def authorized_bridge_def option.case seq_def bind_assoc bind_ret
  by (intro idle.step_rules idle_json)

lemma unauthorised_patch:
  assumes "do_PATCH refused (Some b) req a = (r, a')" "authorization req \<noteq> Some (str ''Bearer '' @ api_token b)"
  shows "idle_kept a a'"
proof -
  have "only_sends refusal a a'"
    by (rule unauthorised_sends [OF assms(2), of PATCH refused "[]" "Inl OSError" a r a'])
      (use assms(1) in \<open>simp_all add: handle_def\<close>)
  then show ?thesis by (auto simp: only_sends_def idle_kept_def same_on_def)
qed

lemma idle_after:
  assumes "handle m refused payload provider starter req a = (r, a')"
  shows "idle_seconds (snd a') = idle_seconds (snd a) \<or>
    (m = PATCH \<and> (\<exists>b n. provider = Some b \<and> authorization req = Some (str ''Bearer '' @ api_token b) \<and>
       10 \<le> n \<and> n \<le> 600 \<and> idle_seconds (snd a') = of_int n))"
proof (cases m)
  case GET
  with assms steps_byD [OF idle_GET] show ?thesis by (simp add: handle_def idle_kept_def same_on_def)
next
  case POST
  with assms steps_byD [OF idle_POST] show ?thesis by (simp add: handle_def idle_kept_def same_on_def)
next
  case PATCH
  with assms have d: "do_PATCH refused provider req a = (r, a')" by (simp add: handle_def)
  show ?thesis
  proof (cases provider)
    case None
    with d have "do_PATCH refused None req a = (r, a')" by simp
    from steps_byD [OF idle_no_bridge this] show ?thesis by (simp add: idle_kept_def same_on_def)
  next
    case (Some b)
    show ?thesis
    proof (cases "authorization req = Some (str ''Bearer '' @ api_token b)")
      case True
      with steps_byD [OF setting_PATCH d] PATCH Some show ?thesis
        by (auto simp: idle_set_def idle_kept_def same_on_def)
    next
      case False
      from d Some have "do_PATCH refused (Some b) req a = (r, a')" by simp
      from unauthorised_patch [OF this False] show ?thesis by (simp add: idle_kept_def same_on_def)
    qed
  qed
qed

text \<open>C37: The idle timeout is only ever changed by an authorised PATCH, and only to a whole number of
  seconds from 10 to 600; every other request, whatever happens to it, leaves it alone.\<close>

theorem idle_timeout_guarded:
  assumes "handle m refused payload provider starter req a = (r, a')"
  shows "idle_seconds (snd a') = idle_seconds (snd a) \<or>
    (m = PATCH \<and> (\<exists>b n. provider = Some b \<and> authorization req = Some (str ''Bearer '' @ api_token b) \<and>
       10 \<le> n \<and> n \<le> 600 \<and> idle_seconds (snd a') = of_int n))"
  using assms by (rule idle_after)


text \<open>An authorised request with a well-formed body in range is obeyed.\<close>

lemma patch_obeyed:
  assumes "authorization req = Some (str ''Bearer '' @ api_token b)" "ascii_str (api_token b)"
    "camera_prefix b = Inr prefix" "urlsplit refused (target req) = Inr (prefix @ str ''/config'', query)"
    "content_length req = Some t" "header_int t = Some (int n)" "0 < n" "n \<le> 4096"
    "json_loads_utf8 (take n (request_body req)) = Inr (JObj d)"
    "json_get d ''idle_timeout_seconds'' = JInt k" "10 \<le> k" "k \<le> 600"
  shows "\<exists>r a'. do_PATCH refused (Some b) req (a :: world \<times> 'z site_scheme) = (r, a') \<and> idle_seconds (snd a') = of_int k"
proof -
  have "authenticated b (authorization req) = Inr True"
    using assms(1,2) by (simp add: authenticated_def compare_digest_def ascii_str_def str_def)
  moreover have "request_json req u = (Ret (Some d), u)" for u :: "world \<times> 'z site_scheme"
    using assms(5-9) by (simp add: request_json_def body_length_def)
  ultimately have run: "do_PATCH refused (Some b) req a =
      seq (set_idle k) (send_json 200 (JObj [(str ''idle_timeout_seconds'', JInt k)])) a"
    using assms(3,4,10-12) by (simp add: do_PATCH_def authorized_bridge_def lift_sum_def Let_def bind_def)
  obtain w s where a: "a = (w, s)" by (cases a)
  obtain r a' where j: "send_json 200 (JObj [(str ''idle_timeout_seconds'', JInt k)]) (w, s\<lparr>idle_seconds := of_int k\<rparr>) = (r, a')"
    by (cases "send_json 200 (JObj [(str ''idle_timeout_seconds'', JInt k)]) (w, s\<lparr>idle_seconds := of_int k\<rparr>)")
  with steps_byD [OF idle_json j] have "idle_seconds (snd a') = of_int k" by (simp add: idle_kept_def same_on_def)
  with j a run show ?thesis by (simp add: seq_def bind_def set_idle_def on_snd_def)
qed

definition patch_body :: json where
  "patch_body = JObj [(str ''idle_timeout_seconds'', JInt 90)]"

definition patch_request :: request where
  "patch_request = \<lparr>target = str ''/api/cameras/cam%201/config'', authorization = Some (str ''Bearer secret''),
     host_header = None, content_length = Some (str ''27''), request_body = map of_nat (json_dumps patch_body)\<rparr>"

lemma home_prefix: "camera_prefix home_bridge = Inr (str ''/api/cameras/cam%201'')"
  by (simp add: camera_prefix_def quote_def home_bridge_def utf8_of_ascii ascii_str_def str_def quote_octet_def
    quote_byte_def upper_hex_def ascii_alpha_def ascii_digit_def Let_def)

lemma config_target: "urlsplit refused (target patch_request) = Inr (str ''/api/cameras/cam%201'' @ str ''/config'', [])"
  by (simp add: patch_request_def urlsplit_def drop_scheme_def before_def from_first_def str_def Let_def)

lemma patch_length: "length (json_dumps patch_body) = 27" "header_int (str ''27'') = Some 27"
  by (simp_all add: patch_body_def json_string_def json_char_def str_def show_int_def show_nat.simps
    header_int_def header_space_def ascii_digit_def dec_value_def Let_def)

lemma patch_parts:
  "authorization patch_request = Some (str ''Bearer '' @ api_token home_bridge)" "ascii_str (api_token home_bridge)"
  "content_length patch_request = Some (str ''27'')"
  by (simp_all add: patch_request_def home_bridge_def str_def ascii_str_def)

theorem idle_timeout_guarded_witness:
  "\<exists>r a'. handle PATCH (\<lambda>_. False) [] (Some home_bridge) (Inr True) patch_request (new_world, quiet_site) = (r, a') \<and>
     idle_seconds (snd a') = 90 \<and> authorization patch_request = Some (str ''Bearer '' @ api_token home_bridge)"
proof -
  have "printable patch_body"
    by (simp add: patch_body_def scalar_str_def is_surrogate_def str_def show_nat.simps)
  then have body: "json_loads_utf8 (take 27 (request_body patch_request)) = Inr patch_body"
    using patch_length(1) by (simp add: patch_request_def json_loads_encoded)
  obtain r a' where p: "do_PATCH (\<lambda>_. False) (Some home_bridge) patch_request (new_world, quiet_site) = (r, a')"
    "idle_seconds (snd a') = of_int 90"
    using patch_obeyed [OF patch_parts(1,2) home_prefix config_target [of "\<lambda>_. False"] patch_parts(3),
        where n = 27 and d = "[(str ''idle_timeout_seconds'', JInt 90)]" and k = 90 and a = "(new_world, quiet_site)"]
      patch_length(2) body by (auto simp: patch_body_def)
  then have h: "handle PATCH (\<lambda>_. False) [] (Some home_bridge) (Inr True) patch_request (new_world, quiet_site) = (r, a')"
    by (simp add: handle_def)
  have "idle_seconds (snd (new_world, quiet_site)) = 120"
    by (simp add: quiet_site_def snapshot_locals.extend_def site.fields_def)
  with idle_timeout_guarded [OF h] p(2) h patch_parts(1) show ?thesis by auto
qed

section \<open>Bodies that are too large never reach the parser\<close>

text \<open>Reading a JSON body never fails on its content: whatever the client sends, as many bytes as it
  announces, the body is parsed or refused, and the only exception is one of writing the refusal. In
  particular an integer literal too long for \<open>int\<close> cannot arise, because it does not fit into the
  4096 bytes a body may have.\<close>

theorem request_body_never_raises:
  assumes "request_json req a = (Raise e, a')"
  shows "Some e \<in> set (client_errors (snd a))"
proof -
  have i: "invalid_request a = (Raise e, a') \<Longrightarrow> Some e \<in> set (client_errors (snd a))"
    using send_json_only(2) [of 400 "error_json ''invalid_request''" a]
    by (auto simp: invalid_request_def seq_def bind_def split: prod.splits outcome.splits)
  let ?n = "body_length req"
  show ?thesis
  proof (cases "0 < ?n \<and> ?n \<le> 4096")
    case True
    then have "min (length (request_body req)) (nat ?n) \<le> 4300" by linarith
    then have "json_loads_utf8 (take (nat ?n) (request_body req)) \<noteq> Inl ValueError"
      by (intro json_loads_short) simp
    with True assms i show ?thesis
      using json_loads_utf8_error [of "take (nat ?n) (request_body req)"]
      by (auto simp: request_json_def Let_def split: sum.splits json.splits if_splits)
  qed (use assms i in \<open>auto simp: request_json_def Let_def split: if_splits\<close>)
qed

definition gone_client :: "site \<Rightarrow> site" where
  "gone_client s = s\<lparr>client_errors := [Some OSError]\<rparr>"

theorem request_body_never_raises_witness:
  "\<exists>a'. request_json (plain_request ''/x'') (new_world, gone_client quiet_site) = (Raise OSError, a') \<and>
     Some OSError \<in> set (client_errors (gone_client quiet_site))"
proof -
  have "\<exists>a'. request_json (plain_request ''/x'') (new_world, gone_client quiet_site) = (Raise OSError, a')"
    by (simp add: request_json_def body_length_def plain_request_def invalid_request_def send_json_def seq_def
      bind_def send_part_def on_snd_def gone_client_def)
  with request_body_never_raises show ?thesis by fastforce
qed

section \<open>Streams clean up behind themselves\<close>

lemma finally_ran:
  assumes "try_finally m f s = (r, t)" "r \<noteq> Halt"
  obtains q u x where "m s = (q, u)" "f u = (x, t)" "\<forall>y. r = Ret y \<longrightarrow> (\<exists>z. x = Ret z)"
  using assms by (auto simp: try_finally_def split: prod.splits outcome.splits)

lemma leave_viewer_run: "leave_viewer i a = (Ret (), (close_subscription i (fst a), snd a))"
  by (cases a) (simp add: leave_viewer_def on_fst_def)

lemma closed_close: "i \<in> closed_subscriptions (close_subscription i w)"
  by (simp add: close_subscription_def release_def put_item_def Let_def cancel_timer_def split: option.split)

definition client_listens :: "'z site_scheme \<Rightarrow> bool" where
  "client_listens s \<longleftrightarrow> client_errors s = [] \<or> hd (client_errors s) = None"

lemma head_sent:
  assumes "client_listens s"
  shows "send_part p (w, s) = (Ret (), (w, s\<lparr>client_errors := tl (client_errors s), sent := sent s @ [p]\<rparr>))"
  using assms by (cases "client_errors s") (auto simp: client_listens_def send_part_def on_snd_def split: option.split)

lemma attempt_acquired: "acquire starter w = (Ret i, w1) \<Longrightarrow> attempt (on_fst (acquire starter)) (w, s) = (Ret (Some i), (w1, s))"
  by (simp add: attempt_def catch_def bind_def on_fst_def)

lemma raw_leaves:
  assumes "raw_stream starter (w, s) = (r, a)" "r \<noteq> Halt" "acquire starter w = (Ret i, w1)"
    "client_listens s"
  shows "i \<in> closed_subscriptions (fst a)"
proof -
  let ?s = "s\<lparr>client_errors := tl (client_errors s), sent := sent s @ [stream_head ''video/h264'']\<rparr>"
  let ?m = "ignore_os_error (each_chunk i (\<lambda>c. send_part (Body c)))"
  have "try_finally ?m (leave_viewer i) (w1, ?s) = (r, a)"
    using assms(1) head_sent [OF assms(4), of "stream_head ''video/h264''" w1]
    by (simp add: raw_stream_def bind_def [of "attempt _"] attempt_acquired [OF assms(3)] seq_def bind_def [of "send_part _"])
  then show ?thesis
    using assms(2) by (rule finally_ran) (auto simp: leave_viewer_run closed_close)
qed

lemma muxed_leaves:
  assumes "muxed_stream starter b (w, s) = (r, a)" "r \<noteq> Halt" "acquire starter w = (Ret i, w1)"
    "client_listens s" "\<And>e. Some e \<in> set (popens s) \<Longrightarrow> process_failure e"
  shows "i \<in> closed_subscriptions (fst a) \<and>
    (r = Ret () \<longrightarrow> spawned (snd a) = spawned s \<or> reaped (snd a) (length (spawned s)))"
proof -
  note start = bind_def [of "attempt _"] attempt_acquired [OF assms(3)]
  let ?argv = "muxer_argv (ffmpeg_path b)"
  show ?thesis
  proof (cases "popens s")
    case Nil
    with assms(1,2) show ?thesis
      by (auto simp: muxed_stream_def start on_snd_def popen_def bind_def catch_def)
  next
    case (Cons x xs)
    show ?thesis
    proof (cases x)
      case (Some e)
      with Cons assms(5) have "process_failure e" by simp
      with Cons Some assms(1) have "send_json 503 (error_json ''stream_unavailable'')
          (close_subscription i w1, s\<lparr>popens := xs\<rparr>) = (r, a)"
        by (simp add: muxed_stream_def start on_snd_def popen_def bind_def catch_def seq_def leave_viewer_run)
      from send_json_only(1) [OF this] show ?thesis by (auto simp: only_sends_def closed_close)
    next
      case None
      let ?begun = "s\<lparr>popens := xs, spawned := spawned s @ [?argv]\<rparr>"
      let ?s = "?begun\<lparr>client_errors := tl (client_errors ?begun), sent := sent ?begun @ [stream_head ''video/mp2t'']\<rparr>"
      let ?m = "ignore_os_error (bind rounds_left (\<lambda>fuel. loop fuel mux_round ()))"
      let ?p = "length (spawned s)"
      have h: "client_listens ?begun" using assms(4) by (simp add: client_listens_def)
      have p: "on_snd (popen ?argv) (w1, s) = (Ret ?p, (w1, ?begun))"
        by (simp add: on_snd_def popen_def Cons None)
      have "try_finally ?m (stop_muxer i ?p) (w1, ?s) = (r, a)"
        using assms(1) p head_sent [OF h, of "stream_head ''video/mp2t''" w1]
        by (simp add: muxed_stream_def start bind_def catch_def seq_def)
      then show ?thesis
        using assms(2)
      proof (rule finally_ran)
        fix q u x
        assume q: "stop_muxer i ?p u = (x, a)" and x: "\<forall>y. r = Ret y \<longrightarrow> (\<exists>z. x = Ret z)"
        have on: "on_snd (if_running (Some ?p) terminate_then_kill) (close_subscription i (fst u), snd u) = (x, a)"
          using q by (simp add: stop_muxer_def seq_def bind_def leave_viewer_run)
        then obtain v where v: "if_running (Some ?p) terminate_then_kill (snd u) = (x, v)" "a = (close_subscription i (fst u), v)"
          by (auto simp: on_snd_eq)
        moreover have "reaped v ?p" if r: "r = Ret ()"
        proof -
          from x r v(1) have "if_running (Some ?p) terminate_then_kill (snd u) = (Ret (), v)" by auto
          then show ?thesis by (rule if_running_reaps [OF _ terminate_reaps])
        qed
        ultimately show ?thesis by (simp add: closed_close)
      qed
    qed
  qed
qed

text \<open>C8: A stream that has begun always cleans up: once the head of the reply is out, however the stream
  ends, through the client, the muxer or the helper, its subscription is closed; and when the handler
  returns normally the muxer it started has been reaped.\<close>

theorem muxed_stream_cleans_up:
  assumes "muxed_stream starter b (w, s) = (r, a)" "r \<noteq> Halt" "acquire starter w = (Ret i, w1)"
    "client_listens s" "\<And>e. Some e \<in> set (popens s) \<Longrightarrow> process_failure e"
  shows "i \<in> closed_subscriptions (fst a) \<and>
    (r = Ret () \<longrightarrow> spawned (snd a) = spawned s \<or> reaped (snd a) (length (spawned s)))"
  using assms by (rule muxed_leaves)

definition streaming_site :: site where
  "streaming_site = quiet_site\<lparr>popens := [None], polls := [None, None], acts := [None], waits := [Inr 0],
     meanwhile := [\<lambda>w. w, \<lambda>w. w], muxer_reads := [Inr [0x47, 0x40], Inr []]\<rparr>"

lemma first_viewer: "acquire (Inr True) new_world = (Ret 0, one_viewer)"
  by (simp add: one_viewer_def acquire_def start_locked_def add_viewer_def new_world_def Let_def
    cancel_timer_def eff_defs)

lemmas site_sel = quiet_site_def streaming_site_def stubborn_helper_def gone_client_def snapshot_locals.extend_def site.fields_def

lemma streaming_run:
  "\<exists>a. muxed_stream (Inr True) home_bridge (new_world, streaming_site) = (Ret (), a) \<and>
     spawned (snd a) = [muxer_argv (ffmpeg_path home_bridge)] \<and> Body [0x47, 0x40] \<in> set (sent (snd a))"
  by (simp add: muxed_stream_def bind_def [of "attempt _"] attempt_acquired [OF first_viewer] site_sel popen_def
    on_snd_def catch_def bind_def seq_def send_part_def try_finally_def ignore_os_error_def rounds_left_def
    mux_round_def others_step_def read_muxer_def stop_muxer_def leave_viewer_run if_running_def poll_def
    terminate_then_kill_def terminate_process_def send_signal_def act_def wait_process_def)

theorem muxed_stream_cleans_up_witness:
  "\<exists>a. muxed_stream (Inr True) home_bridge (new_world, streaming_site) = (Ret (), a) \<and>
     0 \<in> closed_subscriptions (fst a) \<and> reaped (snd a) 0"
proof -
  obtain a where a: "muxed_stream (Inr True) home_bridge (new_world, streaming_site) = (Ret (), a)"
    "spawned (snd a) = [muxer_argv (ffmpeg_path home_bridge)]" using streaming_run by blast
  have "client_listens streaming_site" "\<And>e. Some e \<in> set (popens streaming_site) \<Longrightarrow> process_failure e"
    and n: "spawned streaming_site = []"
    by (simp_all add: client_listens_def site_sel)
  from muxed_stream_cleans_up [OF a(1) _ first_viewer this(1,2)] a n show ?thesis by auto
qed

section \<open>A client that leaves too early\<close>

text \<open>
  The head of the reply is written before the \<open>try\<close>. A client that is gone by then leaves its
  subscription registered: no idle timer is ever armed for it, so the camera is kept awake, and the
  muxer that was just started keeps running.
\<close>

theorem abandoned_viewer:
  "\<exists>a. muxed_stream (Inr True) home_bridge (new_world, gone_client streaming_site) = (Raise OSError, a) \<and>
     viewers (fst a) = [0] \<and> 0 \<notin> closed_subscriptions (fst a) \<and> idle_timer (fst a) = None \<and>
     spawned (snd a) = [muxer_argv (ffmpeg_path home_bridge)] \<and> \<not> reaped (snd a) 0"
proof -
  have "viewers one_viewer = [0]" "closed_subscriptions one_viewer = {}" "idle_timer one_viewer = None"
    by (simp_all add: one_viewer_def acquire_def start_locked_def add_viewer_def new_world_def Let_def
      cancel_timer_def eff_defs)
  then show ?thesis
    by (simp add: muxed_stream_def bind_def [of "attempt _"] attempt_acquired [OF first_viewer] site_sel popen_def
      on_snd_def catch_def bind_def seq_def send_part_def reaped_def has_key_def)
qed

section \<open>The stream URL\<close>

text \<open>What percent-encoding leaves: letters, digits, and \<open>- . _ ~ %\<close>.\<close>

definition quoted_char :: "nat \<Rightarrow> bool" where
  "quoted_char c \<longleftrightarrow> ascii_alpha c \<or> ascii_digit c \<or> c \<in> {37, 45, 46, 95, 126}"

lemma upper_hex_char: "n < 16 \<Longrightarrow> quoted_char (upper_hex n)"
  by (auto simp: upper_hex_def quoted_char_def ascii_digit_def ascii_alpha_def)

lemma nibbles: "unat (b :: byte) div 16 < 16" "unat b mod 16 < 16"
  using unat_byte_less [of b] by linarith+

lemma quote_octet_chars: "list_all quoted_char (quote_octet b)"
proof -
  have "quoted_char (upper_hex (unat b div 16))" "quoted_char (upper_hex (unat b mod 16))"
    by (auto intro: upper_hex_char nibbles)
  then show ?thesis
    by (auto simp: quote_octet_def quote_byte_def Let_def) (auto simp: quoted_char_def ascii_digit_def)
qed

lemma quote_chars: "quote s = Inr q \<Longrightarrow> list_all quoted_char q"
  using quote_octet_chars by (fastforce simp: quote_def sbind_eq_Inr list_all_iff)

lemma hex_value_upper: "n < 16 \<Longrightarrow> hex_value (upper_hex n) = Some n"
proof -
  have "list_all (\<lambda>n. hex_value (upper_hex n) = Some n) [0..<16]" by code_simp
  then show "n < 16 \<Longrightarrow> hex_value (upper_hex n) = Some n" by (simp add: list_all_iff)
qed

lemma unquote_escape:
  "x < 16 \<Longrightarrow> y < 16 \<Longrightarrow>
   unquote_from run (37 # upper_hex x # upper_hex y # t) = unquote_from (run @ [of_nat (x * 16 + y)]) t"
  by (simp add: hex_value_upper)

lemma unquote_plain: "c < 128 \<Longrightarrow> c \<noteq> 37 \<Longrightarrow> unquote_from run (c # t) = unquote_from (run @ [of_nat c]) t"
  by (subst unquote_from.simps) (simp split: list.split option.split del: unquote_from.simps)

lemma unquote_octet: "unquote_from run (quote_octet b @ t) = unquote_from (run @ [b]) t"
proof -
  note n = nibbles [of b]
  have e: "unat b div 16 * 16 + unat b mod 16 = unat b" by simp
  have w: "of_nat (unat b div 16 * 16 + unat b mod 16) = b" unfolding e by simp
  have s: "unquote_from run (37 # 50 # 48 # t) = unquote_from (run @ [b]) t" if b: "unat b = 32"
  proof -
    have "of_nat 32 = b" using b by (metis of_nat_unat ucast_id)
    with unquote_escape [of 2 0 run t] show ?thesis by (simp add: upper_hex_def del: unquote_from.simps)
  qed
  consider "unat b = 32" | "unat b \<noteq> 32" "ascii_alpha (unat b) \<or> ascii_digit (unat b) \<or> unat b \<in> {95, 46, 45, 126}"
    | "unat b \<noteq> 32" "\<not> (ascii_alpha (unat b) \<or> ascii_digit (unat b) \<or> unat b \<in> {95, 46, 45, 126})" by blast
  then show ?thesis
  proof cases
    case 1
    with s show ?thesis by (simp add: quote_octet_def del: unquote_from.simps)
  next
    case 2
    then have "unat b < 128" "unat b \<noteq> 37" by (auto simp: ascii_alpha_def ascii_digit_def)
    with 2 unquote_plain [of "unat b" run t] show ?thesis
      by (simp add: quote_octet_def quote_byte_def Let_def del: unquote_from.simps)
  next
    case 3
    have "quote_octet b = [37, upper_hex (unat b div 16), upper_hex (unat b mod 16)]"
      unfolding quote_octet_def quote_byte_def Let_def using 3 by simp
    with unquote_escape [OF n, of run t] w show ?thesis by (simp del: unquote_from.simps)
  qed
qed

lemma unquote_octets: "unquote_from run (concat (map quote_octet bs)) = decode_replace (run @ bs)"
  by (induction bs arbitrary: run) (simp_all add: unquote_octet del: unquote_from.simps(2))

lemma decode_replace_valid: "scalar_str s \<Longrightarrow> decode_replace (concat (map utf8_bytes s)) = s"
proof (induction s)
  case (Cons c s)
  then have "utf8_next (utf8_bytes c @ concat (map utf8_bytes s)) = Some (c, concat (map utf8_bytes s))"
    by (simp add: scalar_str_def utf8_next_bytes)
  with Cons show ?case by (simp add: decode_replace.simps [of "_ @ _"] scalar_str_def)
qed (simp add: decode_replace.simps)

lemma unquote_quote: "quote s = Inr q \<Longrightarrow> unquote q = s"
  by (auto simp: quote_def unquote_def sbind_eq_Inr unquote_octets encode_utf8_def decode_replace_valid
    split: if_splits)

lemma before_stop: "list_all (\<lambda>c. c \<notin> set stops) xs \<Longrightarrow> c \<in> set stops \<Longrightarrow> before stops (xs @ c # ys) = xs"
  "list_all (\<lambda>c. c \<notin> set stops) xs \<Longrightarrow> before stops xs = xs"
  by (auto simp: before_def list_all_iff takeWhile_append1 takeWhile_append2)

lemma from_stop: "list_all (\<lambda>c. c \<notin> set stops) xs \<Longrightarrow> c \<in> set stops \<Longrightarrow> from_first stops (xs @ c # ys) = c # ys"
  "list_all (\<lambda>c. c \<notin> set stops) xs \<Longrightarrow> from_first stops xs = []"
  by (auto simp: from_first_def list_all_iff)

text \<open>The characters of an accepted host.\<close>

definition authority_char :: "nat \<Rightarrow> bool" where
  "authority_char c \<longleftrightarrow> ascii_alpha c \<or> ascii_digit c \<or> c \<in> {45, 46, 58, 91, 93}"

lemma port_chars: "port_suffix s \<Longrightarrow> list_all (\<lambda>c. ascii_digit c \<or> c = 58) s"
  by (cases s) (auto simp: port_suffix_def list_all_iff)

lemma host_chars:
  assumes "host_matches h"
  shows "list_all authority_char h \<and> (91 \<in> set h \<longleftrightarrow> 93 \<in> set h)"
proof (cases "h \<noteq> [] \<and> hd h = 91")
  case True
  let ?i = "takeWhile address_char (tl h)" and ?r = "dropWhile address_char (tl h)"
  have m: "?r \<noteq> []" "hd ?r = 93" "port_suffix (tl ?r)"
    using assms True by (simp_all add: host_matches_def Let_def)
  have h: "h = 91 # ?i @ 93 # tl ?r"
    using True m(1,2) by (metis list.collapse takeWhile_dropWhile_id)
  have "list_all address_char ?i" by (simp add: list_all_iff) (meson set_takeWhileD)
  then have "list_all authority_char ?i"
    by (auto simp: list_all_iff address_char_def authority_char_def ascii_alpha_def)
  moreover have "list_all authority_char (tl ?r)"
    using port_chars [OF m(3)] by (auto simp: list_all_iff authority_char_def)
  ultimately have "list_all authority_char (91 # ?i @ 93 # tl ?r)"
    by (simp add: authority_char_def)
  then show ?thesis using h by (metis Un_iff list.set_intros(1) list.set_intros(2) set_append)
next
  case False
  let ?i = "takeWhile host_char h" and ?r = "dropWhile host_char h"
  have m: "port_suffix ?r" using assms False by (auto simp: host_matches_def)
  have i: "list_all (\<lambda>c. ascii_alpha c \<or> ascii_digit c \<or> c \<in> {45, 46, 58}) ?i"
    by (auto simp: list_all_iff host_char_def dest!: set_takeWhileD)
  have "list_all (\<lambda>c. ascii_alpha c \<or> ascii_digit c \<or> c \<in> {45, 46, 58}) (?i @ ?r)"
    unfolding list_all_append using i port_chars [OF m] by (auto elim: list.pred_mono_strong)
  then have "list_all (\<lambda>c. ascii_alpha c \<or> ascii_digit c \<or> c \<in> {45, 46, 58}) h"
    unfolding takeWhile_dropWhile_id .
  moreover have "\<not> (ascii_alpha c \<or> ascii_digit c \<or> c \<in> {45, 46, 58})" if "c \<in> {91, 93}" for c :: nat
    using that by (auto simp: ascii_alpha_def ascii_digit_def)
  ultimately show ?thesis by (auto simp: list_all_iff authority_char_def)
qed

lemma default_host: "host_matches (str ''127.0.0.1:8099'')"
  by (simp add: host_matches_def port_suffix_def str_def host_char_def ascii_alpha_def ascii_digit_def)

lemma safe_host_chars: "list_all authority_char (safe_host h) \<and> (91 \<in> set (safe_host h) \<longleftrightarrow> 93 \<in> set (safe_host h))"
  using host_chars default_host by (auto simp: safe_host_def split: option.split)


lemma quoted_apart: "quoted_char c \<Longrightarrow> c \<notin> {9, 10, 13, 35, 38, 43, 47, 58, 61, 63, 91, 93} \<and> 32 < c"
  by (auto simp: quoted_char_def ascii_alpha_def ascii_digit_def)

lemma authority_apart: "authority_char c \<Longrightarrow> c \<notin> {9, 10, 13, 35, 47, 63} \<and> 32 < c \<and> c < 128"
  by (auto simp: authority_char_def ascii_alpha_def ascii_digit_def)

text \<open>Splitting a URL whose parts contain none of the separators.\<close>

lemma split_url:
  assumes "list_all authority_char h" "91 \<in> set h \<longleftrightarrow> 93 \<in> set h" "91 \<in> set h \<longrightarrow> \<not> refused h"
    and path: "path = 47 # p" "list_all (\<lambda>c. quoted_char c \<or> c = 47) p"
    and query: "list_all (\<lambda>c. quoted_char c \<or> c = 61) q"
  shows "urlsplit refused (str ''http://'' @ h @ path @ 63 # q) = Inr (path, q)"
proof -
  let ?u = "str ''http://'' @ h @ path @ 63 # q"
  have h: "str ''http://'' = [104, 116, 116, 112, 58, 47, 47]" by (simp add: str_def)
  have plain: "list_all (\<lambda>c. c \<notin> {9, 10, 13}) ?u"
    using assms(1) path query by (auto simp: list_all_iff h dest!: bspec quoted_apart authority_apart)
  then have f: "filter (\<lambda>c. c \<notin> {9, 10, 13}) (dropWhile (\<lambda>c. c \<le> 32) ?u) = ?u"
    by (simp add: h list_all_iff filter_id_conv)
  have rest: "drop_scheme ?u = [47, 47] @ h @ path @ 63 # q"
    by (simp add: h drop_scheme_def before_def Let_def scheme_char_def ascii_alpha_def)
  have hs: "list_all (\<lambda>c. c \<notin> set [47, 63, 35]) h"
    using assms(1) by (rule list.pred_mono_strong) (auto dest: authority_apart)
  have b1: "before [47, 63, 35] (h @ path @ 63 # q) = h" "from_first [47, 63, 35] (h @ path @ 63 # q) = path @ 63 # q"
    unfolding path(1) append_Cons using before_stop(1) [OF hs] from_stop(1) [OF hs] by simp_all
  have b2: "before [35] (path @ 63 # q) = path @ 63 # q"
    using path query by (intro before_stop(2)) (auto simp: list_all_iff dest!: bspec quoted_apart)
  have p: "list_all (\<lambda>c. c \<notin> set [63]) path"
    using path by (auto simp: list_all_iff dest!: bspec quoted_apart)
  have b3: "before [63] (path @ 63 # q) = path" "from_first [63] (path @ 63 # q) = 63 # q"
    using before_stop(1) [OF p] from_stop(1) [OF p] by simp_all
  have "ascii_str h" using assms(1) by (auto simp: ascii_str_def list_all_iff dest!: bspec authority_apart)
  then show ?thesis
    using assms(2,3) by (simp only: urlsplit_def f rest Let_def) (simp add: b1 b2 b3)
qed

lemma split_plain: "38 \<notin> set q \<Longrightarrow> split_text 38 q = [q]"
proof -
  have "split_from 38 i q = [i @ q]" if "38 \<notin> set q" for i
    using that by (induction q arbitrary: i) auto
  then show "38 \<notin> set q \<Longrightarrow> split_text 38 q = [q]" by (simp add: split_text_def)
qed

lemma token_in_query:
  assumes "quote t = Inr q" "t \<noteq> []"
  shows "query_value ''token'' (str ''token='' @ q) = Some t"
proof -
  have c: "list_all quoted_char q" by (rule quote_chars [OF assms(1)])
  have eq: "str ''token='' @ q = str ''token'' @ 61 # q" by (simp add: str_def)
  have "38 \<notin> set (str ''token'' @ 61 # q)"
    using c by (auto simp: str_def list_all_iff dest!: bspec quoted_apart)
  then have s: "split_text 38 (str ''token='' @ q) = [str ''token'' @ 61 # q]" by (simp add: split_plain eq)
  have n: "list_all (\<lambda>c. c \<notin> set [61]) (str ''token'')" by (simp add: str_def)
  have plus: "map (\<lambda>c. if c = 43 then 32 else c) q = q"
    using c by (intro map_idI) (auto simp: list_all_iff dest!: bspec quoted_apart)
  have name: "unquote (map (\<lambda>c. if c = 43 then 32 else c) (str ''token'')) = str ''token''"
    using unquote_quote [of "str ''token''" "str ''token''"]
    by (simp add: str_def quote_def utf8_of_ascii ascii_str_def quote_octet_def quote_byte_def ascii_alpha_def)
  have "q \<noteq> []"
    using assms unquote_quote [OF assms(1)] by (auto simp: unquote_def decode_replace.simps)
  then show ?thesis
    using before_stop(1) [OF n, of 61 q] from_stop(1) [OF n, of 61 q]
    by (simp add: query_value_def s query_pair_def Let_def name plus unquote_quote [OF assms(1)])
qed





text \<open>A credential with a character outside ASCII is not refused: the comparison raises, no reply is sent.\<close>

theorem odd_credential_raises:
  assumes "authorization req = Some a" "\<not> ascii_str a"
  shows "handle PATCH refused payload (Some b) starter req d = (Raise TypeError, d)"
  using assms by (simp add: handle_def do_PATCH_def authorized_bridge_def authenticated_def compare_digest_def
    lift_sum_def)


section \<open>The feeding thread\<close>

text \<open>Code whose exceptions are all of a given kind.\<close>

definition raises_only :: "exn set \<Rightarrow> ('s \<Rightarrow> bool) \<Rightarrow> ('s, 'a) eff \<Rightarrow> bool" where
  "raises_only E P m \<longleftrightarrow> (\<forall>s e t. P s \<longrightarrow> m s = (Raise e, t) \<longrightarrow> e \<in> E)"

lemma raises_bind:
  assumes "raises_only E P m" "steps_by (inv_rel P) m" "\<And>x. raises_only E P (f x)"
  shows "raises_only E P (bind m f)"
  unfolding raises_only_def
proof (intro allI impI)
  fix s e t assume P: "P s" and b: "bind m f s = (Raise e, t)"
  from b show "e \<in> E"
  proof (cases rule: bind_cases)
    case (Ret x u)
    with assms(3) steps_by_invD [OF assms(2) P Ret(1)] show ?thesis by (auto simp: raises_only_def)
  qed (use assms(1) P in \<open>auto simp: raises_only_def\<close>)
qed

lemma raises_loop:
  assumes "\<And>l. raises_only E P (body l)" "\<And>l. steps_by (inv_rel P) (body l)"
  shows "raises_only E P (loop n body l)"
proof (induction n arbitrary: l)
  case (Suc n)
  show ?case
    unfolding loop.simps
    using Suc by (intro raises_bind [OF assms(1) assms(2)]) (auto simp: raises_only_def split: sum.split)
qed (simp add: raises_only_def)

definition pipes_fail_as :: "exn set \<Rightarrow> world \<times> 'z site_scheme \<Rightarrow> bool" where
  "pipes_fail_as E d \<longleftrightarrow> {e. Some e \<in> set (acts (snd d))} \<subseteq> E"

lemma act_pipes: "steps_by (inv_rel (pipes_fail_as E)) (on_snd (write_stdin m c))"
  "raises_only E (pipes_fail_as E) (on_snd (write_stdin m c))"
  "steps_by (inv_rel (pipes_fail_as E)) (on_snd (close_pipe m))"
  "raises_only E (pipes_fail_as E) (on_snd (close_pipe m))"
  by (auto simp: steps_by_def raises_only_def inv_rel_def pipes_fail_as_def on_snd_def write_stdin_def close_pipe_def
    act_def split: prod.splits list.splits option.splits)

lemma quiet_parts:
  "steps_by (inv_rel (pipes_fail_as E)) others_step" "raises_only E (pipes_fail_as E) others_step"
  "steps_by (inv_rel (pipes_fail_as E)) (on_fst (gets g))" "raises_only E (pipes_fail_as E) (on_fst (gets g))"
  "steps_by (inv_rel (pipes_fail_as E)) (on_fst (next_chunk i))" "raises_only E (pipes_fail_as E) (on_fst (next_chunk i))"
  "steps_by (inv_rel (pipes_fail_as E)) rounds_left" "raises_only E (pipes_fail_as E) rounds_left"
  "raises_only E (pipes_fail_as E) (ret x)"
  by (auto simp: steps_by_def raises_only_def inv_rel_def pipes_fail_as_def on_snd_def on_fst_def others_step_def
    next_chunk_def rounds_left_def split: prod.splits list.splits option.splits if_splits)

lemma feed_chunks: "raises_only E (pipes_fail_as E) (each_chunk i (\<lambda>c. on_snd (write_stdin m c)))"
proof -
  note steps = two_state.step_rules [OF two_state_inv_rel]
  have "steps_by (inv_rel (pipes_fail_as E)) (chunk_round i (\<lambda>c. on_snd (write_stdin m c)) l)" for l
    unfolding chunk_round_def by (intro steps quiet_parts act_pipes)
  moreover have "raises_only E (pipes_fail_as E) (chunk_round i (\<lambda>c. on_snd (write_stdin m c)) l)" for l
    unfolding chunk_round_def seq_def
    by (intro raises_bind quiet_parts) (auto intro!: raises_bind quiet_parts act_pipes split: option.split)
  ultimately show ?thesis
    unfolding each_chunk_def by (intro raises_bind raises_loop quiet_parts)
qed

text \<open>The feeding thread ends quietly, whatever becomes of the muxer: every failure of its pipe that is
  an \<open>OSError\<close> is swallowed.\<close>

lemma catch_quiet:
  assumes "raises_only E P m" "P d" "\<And>e s. e \<in> E \<Longrightarrow> \<exists>x. h e s = (Ret x, s)"
  shows "catch m h d \<noteq> (Raise e, d')"
  using assms by (cases "m d") (auto simp: raises_only_def catch_def split: outcome.split; metis outcome.distinct(1) prod.inject)

lemma feed_quiet:
  fixes d :: "world \<times> 'z site_scheme"
  assumes "pipes_fail_as {OSError} d"
  shows "feed i m d \<noteq> (Raise e, d')"
proof
  assume f: "feed i m d = (Raise e, d')"
  let ?m = "catch (each_chunk i (\<lambda>c. on_snd (write_stdin m c))) (\<lambda>e. if e = OSError \<or> e = ValueError then ret () else raise e)"
  let ?c = "ignore_os_error (on_snd (close_pipe m))"
  obtain q u where u: "?m d = (q, u)" by (cases "?m d")
  have keeps: "steps_by (inv_rel (pipes_fail_as {OSError})) (each_chunk i (\<lambda>c. on_snd (write_stdin m c)))"
    unfolding each_chunk_def chunk_round_def
    by (intro two_state.step_rules [OF two_state_inv_rel] quiet_parts act_pipes)
  have "steps_by (inv_rel (pipes_fail_as {OSError})) ?m"
    by (intro two_state.step_rules [OF two_state_inv_rel] keeps)
  from steps_by_invD [OF this assms u] have P: "pipes_fail_as {OSError} u" .
  have "?m d \<noteq> (Raise x, u)" for x
    by (rule catch_quiet [OF feed_chunks assms]) simp
  with u have q: "q \<noteq> Raise x" for x by auto
  have c: "?c u \<noteq> (Raise x, v)" for x v
    unfolding ignore_os_error_def by (rule catch_quiet [OF act_pipes(4) P]) simp
  from f u q c show False
    by (cases q; cases "?c u"; cases "fst (?c u)") (auto simp: feed_def try_finally_def)
qed

end
