(* ===== verification/Digest.thy ===== *)
theory Digest
  imports PyText
begin

text \<open>
  What the account and wake clients and the SDK fetcher use of \<open>hashlib\<close>, \<open>hmac\<close> and
  \<open>base64\<close>: MD5, SHA-1 and SHA-256 over 32-bit words, HMAC-SHA1, hexadecimal digests and base64,
  all executable.
\<close>

type_synonym w32 = "32 word"

section \<open>Blocks\<close>

fun groups_of :: "nat \<Rightarrow> 'a list \<Rightarrow> 'a list list" where
  "groups_of n xs = (if xs = [] \<or> n = 0 then [] else take n xs # groups_of n (drop n xs))"

declare groups_of.simps [simp del]

text \<open>A one bit, zeros up to eight bytes short of a block, and the length in bits.\<close>

definition padded :: "(nat \<Rightarrow> bytes) \<Rightarrow> bytes \<Rightarrow> bytes" where
  "padded len_bytes m =
     m @ 0x80 # replicate ((119 - length m mod 64) mod 64) 0 @ len_bytes (8 * length m)"

definition le_words :: "bytes \<Rightarrow> w32 list" where
  "le_words bs = map (\<lambda>b. word_of_nat (le_nat b)) (groups_of 4 bs)"

definition be_words :: "bytes \<Rightarrow> w32 list" where
  "be_words bs = map (\<lambda>b. word_of_nat (be_nat b)) (groups_of 4 bs)"

section \<open>MD5\<close>

definition md5_table :: "w32 list" where
  "md5_table =
    [0xd76aa478, 0xe8c7b756, 0x242070db, 0xc1bdceee, 0xf57c0faf, 0x4787c62a,
     0xa8304613, 0xfd469501, 0x698098d8, 0x8b44f7af, 0xffff5bb1, 0x895cd7be,
     0x6b901122, 0xfd987193, 0xa679438e, 0x49b40821, 0xf61e2562, 0xc040b340,
     0x265e5a51, 0xe9b6c7aa, 0xd62f105d, 0x02441453, 0xd8a1e681, 0xe7d3fbc8,
     0x21e1cde6, 0xc33707d6, 0xf4d50d87, 0x455a14ed, 0xa9e3e905, 0xfcefa3f8,
     0x676f02d9, 0x8d2a4c8a, 0xfffa3942, 0x8771f681, 0x6d9d6122, 0xfde5380c,
     0xa4beea44, 0x4bdecfa9, 0xf6bb4b60, 0xbebfbc70, 0x289b7ec6, 0xeaa127fa,
     0xd4ef3085, 0x04881d05, 0xd9d4d039, 0xe6db99e5, 0x1fa27cf8, 0xc4ac5665,
     0xf4292244, 0x432aff97, 0xab9423a7, 0xfc93a039, 0x655b59c3, 0x8f0ccc92,
     0xffeff47d, 0x85845dd1, 0x6fa87e4f, 0xfe2ce6e0, 0xa3014314, 0x4e0811a1,
     0xf7537e82, 0xbd3af235, 0x2ad7d2bb, 0xeb86d391]"

definition md5_shifts :: "nat list" where
  "md5_shifts = concat (map (\<lambda>r. r @ r @ r @ r) [[7, 12, 17, 22], [5, 9, 14, 20], [4, 11, 16, 23], [6, 10, 15, 21]])"

definition md5_mix :: "nat \<Rightarrow> w32 \<Rightarrow> w32 \<Rightarrow> w32 \<Rightarrow> w32 \<times> nat" where
  "md5_mix i b c d =
     (if i < 16 then ((b AND c) OR (NOT b AND d), i)
      else if i < 32 then ((d AND b) OR (NOT d AND c), (5 * i + 1) mod 16)
      else if i < 48 then (b XOR c XOR d, (3 * i + 5) mod 16)
      else (c XOR (b OR NOT d), 7 * i mod 16))"

definition md5_round :: "w32 list \<Rightarrow> nat \<Rightarrow> w32 \<times> w32 \<times> w32 \<times> w32 \<Rightarrow> w32 \<times> w32 \<times> w32 \<times> w32" where
  "md5_round m i = (\<lambda>(a, b, c, d).
     let (f, g) = md5_mix i b c d in
     (d, b + word_rotl (md5_shifts ! i) (a + f + md5_table ! i + m ! g), b, c))"

definition md5_block :: "bytes \<Rightarrow> w32 \<times> w32 \<times> w32 \<times> w32 \<Rightarrow> w32 \<times> w32 \<times> w32 \<times> w32" where
  "md5_block block = (\<lambda>(a, b, c, d).
     let (a', b', c', d') = fold (md5_round (le_words block)) [0..<64] (a, b, c, d) in
     (a + a', b + b', c + c', d + d'))"

definition md5 :: "bytes \<Rightarrow> bytes" where
  "md5 m =
     (let (a, b, c, d) = fold md5_block (groups_of 64 (padded (le_bytes 8) m))
            (0x67452301, 0xefcdab89, 0x98badcfe, 0x10325476) in
      concat (map (\<lambda>w. le_bytes 4 (unat w)) [a, b, c, d]))"

lemma length_md5: "length (md5 m) = 16"
  by (simp add: md5_def split: prod.split)

section \<open>SHA-1\<close>

definition sha1_extend :: "nat \<Rightarrow> w32 list \<Rightarrow> w32 list" where
  "sha1_extend i w = w @ [word_rotl 1 (w ! (i - 3) XOR w ! (i - 8) XOR w ! (i - 14) XOR w ! (i - 16))]"

definition sha1_mix :: "nat \<Rightarrow> w32 \<Rightarrow> w32 \<Rightarrow> w32 \<Rightarrow> w32 \<times> w32" where
  "sha1_mix i b c d =
     (if i < 20 then ((b AND c) OR (NOT b AND d), 0x5a827999)
      else if i < 40 then (b XOR c XOR d, 0x6ed9eba1)
      else if i < 60 then ((b AND c) OR (b AND d) OR (c AND d), 0x8f1bbcdc)
      else (b XOR c XOR d, 0xca62c1d6))"

definition sha1_round ::
    "w32 list \<Rightarrow> nat \<Rightarrow> w32 \<times> w32 \<times> w32 \<times> w32 \<times> w32 \<Rightarrow> w32 \<times> w32 \<times> w32 \<times> w32 \<times> w32" where
  "sha1_round w i = (\<lambda>(a, b, c, d, e).
     let (f, k) = sha1_mix i b c d in (word_rotl 5 a + f + e + k + w ! i, a, word_rotl 30 b, c, d))"

definition sha1_block ::
    "bytes \<Rightarrow> w32 \<times> w32 \<times> w32 \<times> w32 \<times> w32 \<Rightarrow> w32 \<times> w32 \<times> w32 \<times> w32 \<times> w32" where
  "sha1_block block = (\<lambda>(a, b, c, d, e).
     let w = fold sha1_extend [16..<80] (be_words block);
         (a', b', c', d', e') = fold (sha1_round w) [0..<80] (a, b, c, d, e) in
     (a + a', b + b', c + c', d + d', e + e'))"

definition sha1 :: "bytes \<Rightarrow> bytes" where
  "sha1 m =
     (let (a, b, c, d, e) = fold sha1_block (groups_of 64 (padded (be_bytes 8) m))
            (0x67452301, 0xefcdab89, 0x98badcfe, 0x10325476, 0xc3d2e1f0) in
      concat (map (\<lambda>w. be_bytes 4 (unat w)) [a, b, c, d, e]))"

lemma length_sha1: "length (sha1 m) = 20"
  by (simp add: sha1_def split: prod.split)

text \<open>\<open>hmac.new(key, m, hashlib.sha1).digest()\<close>.\<close>

definition hmac_key :: "bytes \<Rightarrow> bytes" where
  "hmac_key key = (let k = if 64 < length key then sha1 key else key in k @ replicate (64 - length k) 0)"

definition hmac_sha1 :: "bytes \<Rightarrow> bytes \<Rightarrow> bytes" where
  "hmac_sha1 key m =
     sha1 (map (\<lambda>b. b XOR 0x5c) (hmac_key key) @ sha1 (map (\<lambda>b. b XOR 0x36) (hmac_key key) @ m))"

lemma length_hmac: "length (hmac_sha1 key m) = 20"
  by (simp add: hmac_sha1_def length_sha1)

section \<open>SHA-256\<close>

text \<open>The first 32 bits of the fractional parts of the cube roots of the first 64 primes, and of the square
  roots of the first eight.\<close>

definition sha256_table :: "w32 list" where
  "sha256_table = map word_of_nat
    [1116352408, 1899447441, 3049323471, 3921009573, 961987163, 1508970993, 2453635748,
     2870763221, 3624381080, 310598401, 607225278, 1426881987, 1925078388, 2162078206,
     2614888103, 3248222580, 3835390401, 4022224774, 264347078, 604807628, 770255983,
     1249150122, 1555081692, 1996064986, 2554220882, 2821834349, 2952996808, 3210313671,
     3336571891, 3584528711, 113926993, 338241895, 666307205, 773529912, 1294757372,
     1396182291, 1695183700, 1986661051, 2177026350, 2456956037, 2730485921, 2820302411,
     3259730800, 3345764771, 3516065817, 3600352804, 4094571909, 275423344, 430227734,
     506948616, 659060556, 883997877, 958139571, 1322822218, 1537002063, 1747873779,
     1955562222, 2024104815, 2227730452, 2361852424, 2428436474, 2756734187, 3204031479,
     3329325298]"

definition sha256_start :: "w32 list" where
  "sha256_start = map word_of_nat
    [1779033703, 3144134277, 1013904242, 2773480762, 1359893119, 2600822924, 528734635,
     1541459225]"

definition sha256_extend :: "nat \<Rightarrow> w32 list \<Rightarrow> w32 list" where
  "sha256_extend i w =
     (let x = w ! (i - 15); y = w ! (i - 2) in
      w @ [w ! (i - 16) + (word_rotr 7 x XOR word_rotr 18 x XOR drop_bit 3 x) + w ! (i - 7) +
        (word_rotr 17 y XOR word_rotr 19 y XOR drop_bit 10 y)])"

definition sha256_round :: "w32 list \<Rightarrow> nat \<Rightarrow> w32 list \<Rightarrow> w32 list" where
  "sha256_round w i s =
     (let a = s ! 0; b = s ! 1; c = s ! 2; e = s ! 4; f = s ! 5; g = s ! 6;
          t1 = s ! 7 + (word_rotr 6 e XOR word_rotr 11 e XOR word_rotr 25 e) + ((e AND f) XOR (NOT e AND g)) +
            sha256_table ! i + w ! i;
          t2 = (word_rotr 2 a XOR word_rotr 13 a XOR word_rotr 22 a) + ((a AND b) XOR (a AND c) XOR (b AND c)) in
      [t1 + t2, a, b, c, s ! 3 + t1, e, f, g])"

definition sha256_block :: "bytes \<Rightarrow> w32 list \<Rightarrow> w32 list" where
  "sha256_block block s =
     map2 (+) s (fold (sha256_round (fold sha256_extend [16..<64] (be_words block))) [0..<64] s)"

definition sha256 :: "bytes \<Rightarrow> bytes" where
  "sha256 m = concat (map (\<lambda>w. be_bytes 4 (unat w))
     (fold sha256_block (groups_of 64 (padded (be_bytes 8) m)) sha256_start))"

section \<open>Renderings\<close>

text \<open>\<open>hexdigest()\<close>.\<close>

definition hexdigest :: "bytes \<Rightarrow> pystr" where
  "hexdigest bs = str (hex_bytes bs)"

definition base64_char :: "nat \<Rightarrow> nat" where
  "base64_char n =
     (if n < 26 then 65 + n else if n < 52 then 71 + n else if n < 62 then n - 4 else if n = 62 then 43 else 47)"

text \<open>\<open>base64.b64encode(bs).decode("ascii")\<close>.\<close>

fun base64 :: "bytes \<Rightarrow> pystr" where
  "base64 [] = []"
| "base64 [a] = (let n = unat a * 16 in [base64_char (n div 64), base64_char (n mod 64), 61, 61])"
| "base64 [a, b] =
     (let n = (unat a * 256 + unat b) * 4 in
      [base64_char (n div 4096), base64_char (n div 64 mod 64), base64_char (n mod 64), 61])"
| "base64 (a # b # c # r) =
     (let n = unat a * 65536 + unat b * 256 + unat c in
      [base64_char (n div 262144), base64_char (n div 4096 mod 64), base64_char (n div 64 mod 64),
       base64_char (n mod 64)] @ base64 r)"

definition base64_symbol :: "nat \<Rightarrow> bool" where
  "base64_symbol c \<longleftrightarrow> ascii_alpha c \<or> ascii_digit c \<or> c \<in> {43, 47, 61}"

lemma base64_char_symbol: "n < 64 \<Longrightarrow> base64_symbol (base64_char n)"
  by (auto simp: base64_char_def base64_symbol_def ascii_alpha_def ascii_digit_def)

end
