(* ===== verification/Account.thy ===== *)
theory Account
  imports Digest Http
begin

text \<open>
  The client of the account service (\<open>okam_native/account.py\<close>): the three requests of the
  enumeration and the validation of each answer. The state records the requests sent and holds the
  transport's answers still to come: a failure, or a status with a body whose transfer may fail.
\<close>

section \<open>The client\<close>

definition ACCOUNT_ORIGIN :: pystr where "ACCOUNT_ORIGIN = str ''https://api.eye4.cn''"
definition ACCOUNT_RESPONSE_BYTES :: nat where [simp]: "ACCOUNT_RESPONSE_BYTES = 1024 * 1024"

record account_device =
  device_uid :: pystr
  device_name :: pystr
  device_password :: pystr

record http_log =
  requests :: "(http_request \<times> rat) list"
  answers :: "(exn + int \<times> (exn + bytes)) list"

definition urlopen :: "http_request \<Rightarrow> rat \<Rightarrow> ('z http_log_scheme, int \<times> (exn + bytes)) eff" where
  "urlopen request timeout = (\<lambda>s. case answers s of
      [] \<Rightarrow> (Halt, s)
    | a # r \<Rightarrow> lift_sum a (s\<lparr>requests := requests s @ [(request, timeout)], answers := r\<rparr>))"

definition account_open :: "http_request \<Rightarrow> rat \<Rightarrow> ('z http_log_scheme, bytes) eff" where
  "account_open request timeout =
     bind (urlopen request timeout) (\<lambda>(status, body).
       if status \<noteq> 200 then raise (AccountError ''official account service rejected a request'')
       else bind (lift_sum body) (\<lambda>bs.
         let payload = take (ACCOUNT_RESPONSE_BYTES + 1) bs in
         if ACCOUNT_RESPONSE_BYTES < length payload
         then raise (AccountError ''official account service response was too large'')
         else ret payload))"

text \<open>\<open>urllib.parse.urlencode\<close> of a dictionary.\<close>

fun urlencode :: "(string \<times> pystr) list \<Rightarrow> exn + pystr" where
  "urlencode [] = Inr []"
| "urlencode [(n, v)] = urlencode1 n v"
| "urlencode ((n, v) # w # r) =
     sbind (urlencode1 n v) (\<lambda>a. sbind (urlencode (w # r)) (\<lambda>b. Inr (a @ 38 # b)))"

definition unsafe_path :: "pystr \<Rightarrow> bool" where
  "unsafe_path path \<longleftrightarrow>
     take 1 path \<noteq> [47] \<or> find_sub [47, 47] path \<noteq> None \<or> find_sub [46, 46] path \<noteq> None"

definition account_headers :: "(string \<times> string) list" where
  "account_headers =
     [(''Accept'', ''application/json''), (''client_version'', ''10.0.1''),
      (''Content-Type'', ''application/x-www-form-urlencoded''),
      (''User-Agent'', ''okam-ha-native/account-enumerator'')]"

text \<open>The URL and the body; an absent query and an empty one are alike.\<close>

definition account_request ::
    "string \<Rightarrow> string \<Rightarrow> (string \<times> pystr) list \<Rightarrow> (string \<times> pystr) list option \<Rightarrow> exn + http_request" where
  "account_request method path query form =
     sbind (if query = [] then Inr [] else sbind (urlencode query) (\<lambda>q. Inr (63 # q))) (\<lambda>suffix.
     sbind (case form of None \<Rightarrow> Inr None | Some f \<Rightarrow> sbind (sbind (urlencode f) encode_ascii) (\<lambda>bs. Inr (Some bs)))
       (\<lambda>body. Inr \<lparr>url = ACCOUNT_ORIGIN @ str path @ suffix, data = body, verb = method, headers = account_headers\<rparr>))"

definition account_json ::
    "string \<Rightarrow> string \<Rightarrow> (string \<times> pystr) list \<Rightarrow> (string \<times> pystr) list option \<Rightarrow> ('z http_log_scheme, json) eff" where
  "account_json method path query form =
     (if unsafe_path (str path) then raise (AccountError ''invalid official account service path'')
      else
        bind (lift_sum (account_request method path query form)) (\<lambda>request.
        catch (bind (account_open request HTTP_TIMEOUT_SECONDS) (\<lambda>payload. lift_sum (json_loads_utf8 payload)))
          (\<lambda>e. raise (if request_failure e then AccountError ''official account service request failed'' else e))))"

text \<open>\<open>str(user_id)\<close>, when it is a text or an integer and all digits.\<close>

definition user_id_text :: "unicode \<Rightarrow> json \<Rightarrow> pystr option" where
  "user_id_text db j =
     (let text = (case j of JStr s \<Rightarrow> s | JInt n \<Rightarrow> show_int n | JBool b \<Rightarrow> str (if b then ''True'' else ''False'') | _ \<Rightarrow> []) in
      if isdigit db text then Some text else None)"

definition text_or :: "pystr \<Rightarrow> json \<Rightarrow> pystr" where
  "text_or dflt j = (case j of JStr s \<Rightarrow> s | _ \<Rightarrow> dflt)"

definition listed_device :: "json \<Rightarrow> account_device list" where
  "listed_device item =
     (case item of
        JObj d \<Rightarrow>
         (case json_get d ''uid'' of
            JStr uid \<Rightarrow>
             (if 4 \<le> length uid \<and> length uid \<le> 256
              then [\<lparr>device_uid = uid,
                     device_name = (let n = text_or [] (json_get d ''nickname'') in if n \<noteq> [] then n else str ''O-KAM camera''),
                     device_password = text_or [] (json_get d ''password'')\<rparr>]
              else [])
          | _ \<Rightarrow> [])
      | _ \<Rightarrow> [])"

definition summary_form :: "pystr \<Rightarrow> (string \<times> pystr) list" where
  "summary_form username = [(''name'', username), (''oemid'', str ''VSTC'')]"

definition login_query :: "pystr \<Rightarrow> pystr \<Rightarrow> (string \<times> pystr) list" where
  "login_query user digest = [(''userid'', user), (''password'', digest), (''type'', str ''PC'')]"

definition show_query :: "pystr \<Rightarrow> pystr \<Rightarrow> (string \<times> pystr) list" where
  "show_query user digest = [(''userid'', user), (''pwd'', digest)]"

definition read_summary :: "unicode \<Rightarrow> json \<Rightarrow> exn + pystr" where
  "read_summary db summary =
     (case summary of
        JObj d \<Rightarrow> (case user_id_text db (json_get d ''userid'') of
          None \<Rightarrow> Inl (AccountError ''official account summary omitted the user identifier'')
        | Some user \<Rightarrow> Inr user)
      | _ \<Rightarrow> Inl (AccountError ''official account summary was invalid''))"

definition login_accepted :: "json \<Rightarrow> bool" where
  "login_accepted login =
     (case login of JObj d \<Rightarrow> (case json_get d ''token'' of JStr _ \<Rightarrow> True | _ \<Rightarrow> False) | _ \<Rightarrow> False)"

definition enumerate_devices :: "unicode \<Rightarrow> pystr \<Rightarrow> pystr \<Rightarrow> ('z http_log_scheme, account_device list) eff" where
  "enumerate_devices db username password =
     (if username = [] \<or> password = [] \<or> 320 < length username \<or> 1024 < length password
      then raise (AccountError ''O-KAM account credentials are invalid'')
      else
        bind (account_json ''POST'' ''/user/summary'' [] (Some (summary_form username))) (\<lambda>summary.
        bind (lift_sum (read_summary db summary)) (\<lambda>user.
        bind (lift_sum (encode_utf8 password)) (\<lambda>secret.
        let digest = hexdigest (md5 secret) in
        bind (account_json ''GET'' ''/login/token'' (login_query user digest) None) (\<lambda>login.
        if \<not> login_accepted login then raise (AccountError ''O-KAM account credentials were rejected'')
        else
          bind (account_json ''GET'' ''/PC/device/show'' (show_query user digest) None) (\<lambda>devices.
          case devices of
            JList items \<Rightarrow> ret (concat (map listed_device items))
          | _ \<Rightarrow> raise (AccountError ''official account device list was invalid'')))))))"

section \<open>What is sent\<close>

lemma urlopen_cases:
  assumes "urlopen q d s = (r, t)"
  obtains "t = s" "r = Halt" "answers s = []"
  | a where "answers s = a # answers t" "t = s\<lparr>requests := requests s @ [(q, d)], answers := answers t\<rparr>"
      "r = (case a of Inl e \<Rightarrow> Raise e | Inr x \<Rightarrow> Ret x)"
  using assms by (cases "answers s") (auto simp: urlopen_def lift_sum_def split: sum.splits)

lemma account_open_cases:
  assumes "account_open q d s = (r, t)"
  obtains (Silent) "t = s" "r = Halt" "answers s = []"
  | (Asked) a where "answers s = a # answers t" "t = s\<lparr>requests := requests s @ [(q, d)], answers := answers t\<rparr>"
      "\<And>bs. r = Ret bs \<Longrightarrow> a = Inr (200, Inr bs)" "r \<noteq> Halt"
      "\<And>e. r = Raise e \<Longrightarrow> a = Inl e \<or> (\<exists>c. a = Inr (c, Inl e)) \<or> (\<exists>m. e = AccountError m)"
proof -
  obtain r' u where u: "urlopen q d s = (r', u)" by (cases "urlopen q d s")
  from u show ?thesis
  proof (cases rule: urlopen_cases)
    case 1
    with assms u show ?thesis
      by (intro Silent) (auto simp: account_open_def bind_def)
  next
    case (2 a)
    note b = assms [unfolded account_open_def bind_def u prod.case 2(3)]
    show ?thesis
      by (rule Asked [of a]; use 2(1,2) b in
        \<open>auto simp: lift_sum_def Let_def split: sum.splits if_splits prod.splits\<close>)
  qed
qed

definition answer_ok :: "exn + int \<times> (exn + bytes) \<Rightarrow> bool" where
  "answer_ok a \<longleftrightarrow> (case a of Inl e \<Rightarrow> e = OSError | Inr (c, Inl e) \<Rightarrow> e = OSError | Inr (c, Inr bs) \<Rightarrow> length bs \<le> 4300)"

text \<open>One exchange: nothing or exactly the prepared request is sent, and a value returned is what the body
  of the answer says.\<close>

lemma account_json_cases:
  assumes "account_json m p query form s = (r, t)"
  obtains (Unsent) "t = s" "r = Halt \<or> (\<exists>x. r = Raise (AccountError x)) \<or> (\<exists>e. account_request m p query form = Inl e \<and> r = Raise e)"
  | (Sent) q a where "account_request m p query form = Inr q" "answers s = a # answers t"
      "requests t = requests s @ [(q, HTTP_TIMEOUT_SECONDS)]"
      "\<And>j. r = Ret j \<Longrightarrow> \<exists>bs. a = Inr (200, Inr bs) \<and> json_loads_utf8 bs = Inr j"
      "\<And>e. r = Raise e \<Longrightarrow> answer_ok a \<Longrightarrow> \<exists>x. e = AccountError x"
proof (cases "unsafe_path (str p)")
  case True
  with assms show ?thesis by (intro Unsent) (auto simp: account_json_def)
next
  case False
  note r = assms [unfolded account_json_def if_not_P [OF False]]
  show ?thesis
  proof (cases "account_request m p query form")
    case (Inl e)
    with r show ?thesis by (intro Unsent) (auto simp: lift_sum_def)
  next
    case (Inr q)
    obtain r' u where o: "account_open q HTTP_TIMEOUT_SECONDS s = (r', u)" by (cases "account_open q HTTP_TIMEOUT_SECONDS s")
    let ?fail = "\<lambda>e. if request_failure e then AccountError ''official account service request failed'' else e"
    from r Inr o have c: "(r, t) = (case r' of
        Ret x \<Rightarrow> (case json_loads_utf8 x of Inl e \<Rightarrow> (Raise (?fail e), u) | Inr j \<Rightarrow> (Ret j, u))
      | Raise e \<Rightarrow> (Raise (?fail e), u) | Halt \<Rightarrow> (Halt, u))"
      by (auto simp: lift_sum_def catch_def bind_def simp del: HTTP_TIMEOUT_SECONDS_def split: outcome.split sum.split)
    from o show ?thesis
    proof (cases rule: account_open_cases)
      case Silent
      with c show ?thesis by (intro Unsent) auto
    next
      case (Asked a)
      have t: "t = u" and j: "\<And>j. r = Ret j \<Longrightarrow> \<exists>bs. r' = Ret bs \<and> json_loads_utf8 bs = Inr j"
        using c Asked(4) by (auto split: outcome.splits sum.splits)
      have e: "\<exists>x. e = AccountError x" if "r = Raise e" "answer_ok a" for e
      proof (cases r')
        case (Ret bs)
        with c that(1) obtain f where f: "json_loads_utf8 bs = Inl f"
          "e = (if request_failure f then AccountError ''official account service request failed'' else f)"
          by (auto split: sum.splits)
        moreover have "f \<noteq> ValueError"
          using f(1) json_loads_short that(2) Asked(3) [OF Ret] by (auto simp: answer_ok_def)
        ultimately show ?thesis using json_loads_utf8_error [OF f(1)] by auto
      next
        case (Raise f)
        with c that(1) have "e = (if request_failure f then AccountError ''official account service request failed'' else f)"
          by auto
        then show ?thesis using Asked(5) [OF Raise] that(2) by (auto simp: answer_ok_def)
      qed (use c that in auto)
      show ?thesis
      proof (rule Sent [of q a])
        show "account_request m p query form = Inr q" by (rule Inr)
        show "answers s = a # answers t" using Asked(1) t by simp
        show "requests t = requests s @ [(q, HTTP_TIMEOUT_SECONDS)]"
          using arg_cong [OF Asked(2), of requests] t by simp
        show "\<exists>bs. a = Inr (200, Inr bs) \<and> json_loads_utf8 bs = Inr j'" if "r = Ret j'" for j'
          using j [OF that] Asked(3) by blast
        show "\<exists>x. e' = AccountError x" if "r = Raise e'" "answer_ok a" for e'
          by (rule e [OF that])
      qed
    qed
  qed
qed

text \<open>What the enumeration sends in turn.\<close>

definition account_plan :: "pystr \<Rightarrow> pystr \<Rightarrow> pystr \<Rightarrow> (exn + http_request) list" where
  "account_plan username user digest =
     [account_request ''POST'' ''/user/summary'' [] (Some (summary_form username)),
      account_request ''GET'' ''/login/token'' (login_query user digest) None,
      account_request ''GET'' ''/PC/device/show'' (show_query user digest) None]"

lemma request_origin:
  assumes "account_request m p query form = Inr q" 
  shows "take (length ACCOUNT_ORIGIN) (url q) = ACCOUNT_ORIGIN"
  using assms by (auto simp: account_request_def sbind_eq_Inr ACCOUNT_ORIGIN_def)

lemma take3: "take 3 [a, b, c] = [a, b, c]" "take 2 [a, b, c] = [a, b]" "take 1 [a, b, c] = [a]" by simp_all

definition sent_as_planned :: "pystr \<Rightarrow> pystr \<Rightarrow> 'z http_log_scheme \<Rightarrow> 'z http_log_scheme \<Rightarrow> nat \<Rightarrow> bool" where
  "sent_as_planned username password s t n \<longleftrightarrow>
     (\<exists>qs user digest. requests t = requests s @ map (\<lambda>q. (q, HTTP_TIMEOUT_SECONDS)) qs \<and>
        map Inr qs = take n (account_plan username user digest) \<and>
        (1 < n \<longrightarrow> (\<exists>secret. encode_utf8 password = Inr secret \<and> digest = hexdigest (md5 secret))))"

definition valid_device :: "account_device \<Rightarrow> bool" where
  "valid_device d \<longleftrightarrow> 4 \<le> length (device_uid d) \<and> length (device_uid d) \<le> 256 \<and> device_name d \<noteq> []"

lemma listed_device_valid: "d \<in> set (listed_device item) \<Longrightarrow> valid_device d"
  by (auto simp: listed_device_def valid_device_def Let_def str_def split: json.splits if_splits)

lemma after_exchange:
  assumes "bind (account_json m p query form) f s = (r, t)"
  obtains (Stop) "t = s" "r = Halt \<or> (\<exists>x. r = Raise (AccountError x)) \<or> (\<exists>e. account_request m p query form = Inl e \<and> r = Raise e)"
  | (Fail) q a where "account_request m p query form = Inr q" "answers s = a # answers t"
      "requests t = requests s @ [(q, HTTP_TIMEOUT_SECONDS)]" "\<And>x. r \<noteq> Ret x"
      "\<And>e. r = Raise e \<Longrightarrow> answer_ok a \<Longrightarrow> \<exists>x. e = AccountError x"
  | (Next) q u b j where "account_request m p query form = Inr q" "answers s = Inr (200, Inr b) # answers u"
      "requests u = requests s @ [(q, HTTP_TIMEOUT_SECONDS)]" "json_loads_utf8 b = Inr j" "f j u = (r, t)"
  using assms
proof (cases rule: bind_cases)
  case (Ret j u)
  from Ret(1) show ?thesis
  proof (cases rule: account_json_cases)
    case (Sent q a)
    from Sent(4) [OF refl] obtain b where b: "a = Inr (200, Inr b)" "json_loads_utf8 b = Inr j" by blast
    show ?thesis
      by (rule Next [OF Sent(1) Sent(2) [unfolded b(1)] Sent(3) b(2) Ret(2)])
  qed simp_all
next
  case (Raise e)
  from Raise(1) show ?thesis
  proof (cases rule: account_json_cases)
    case Unsent
    with Raise(2) show ?thesis by (intro Stop) auto
  next
    case (Sent q a)
    show ?thesis by (rule Fail [OF Sent(1,2,3)]) (use Raise(2) Sent(5) in auto)
  qed
next
  case Halt
  from Halt(1) show ?thesis
  proof (cases rule: account_json_cases)
    case Unsent
    with Halt(2) show ?thesis by (intro Stop) auto
  next
    case (Sent q a)
    show ?thesis by (rule Fail [OF Sent(1,2,3)]) (use Halt(2) in auto)
  qed
qed

lemma quote_byte_ascii: "ascii_str (quote_byte b)"
  using byte_nibbles(2,3) [of b] by (auto simp: quote_byte_def Let_def ascii_alpha_def ascii_digit_def upper_hex_def)

lemma urlencode_ascii:
  "list_all (\<lambda>(n, v). ascii_str (str n) \<and> scalar_str v) ps \<Longrightarrow> \<exists>u. urlencode ps = Inr u \<and> ascii_str u"
proof (induction ps rule: urlencode.induct)
  have q: "ascii_str (concat (map quote_byte bs))" for bs
    by (induction bs) (simp_all add: quote_byte_ascii)
  case (3 n v w r)
  then show ?case by (auto simp: urlencode1_def encode_utf8_def q)
qed (auto simp: urlencode1_def encode_utf8_def ascii_str_def list_all_iff quote_byte_ascii [unfolded ascii_str_def list_all_iff])

lemma account_request_ok:
  assumes "list_all (\<lambda>(n, v). ascii_str (str n) \<and> scalar_str v) query"
    "\<And>f. form = Some f \<Longrightarrow> list_all (\<lambda>(n, v). ascii_str (str n) \<and> scalar_str v) f"
  shows "account_request m p query form \<noteq> Inl e"
proof -
  obtain u where u: "urlencode query = Inr u" using urlencode_ascii [OF assms(1)] by blast
  show ?thesis
  proof (cases form)
    case (Some f)
    obtain v where "urlencode f = Inr v \<and> ascii_str v" using urlencode_ascii [OF assms(2) [OF Some]] by blast
    with u Some show ?thesis by (auto simp: account_request_def encode_ascii_def)
  qed (use u in \<open>auto simp: account_request_def\<close>)
qed

text \<open>A digit is a character: no database of character classes lists a surrogate.\<close>

definition plain_digits :: "unicode \<Rightarrow> bool" where
  "plain_digits db \<longleftrightarrow> (\<forall>c. uni_isdigit db c \<longrightarrow> scalar_str [c])"

lemma plain_user: "plain_digits db \<Longrightarrow> read_summary db j = Inr user \<Longrightarrow> scalar_str user"
  by (auto simp: read_summary_def user_id_text_def isdigit_def plain_digits_def scalar_str_def list_all_iff
    Let_def is_surrogate_def split: json.splits option.splits if_splits)

lemma plain_digest: "scalar_str (hexdigest bs)"
proof -
  have "scalar_str (str [hex_digit n])" if "n < 16" for n
    using hex_digit_ascii [OF that] by (simp add: str_def scalar_str_def is_surrogate_def)
  moreover have "unat b div 16 < 16" "unat b mod 16 < 16" for b :: byte
    using byte_nibbles [of b] by simp_all
  ultimately show ?thesis
    by (induction bs) (simp_all add: hexdigest_def hex_bytes_def str_def scalar_str_def)
qed

lemma sent_as_plannedI:
  assumes "requests t = requests s @ map (\<lambda>q. (q, HTTP_TIMEOUT_SECONDS)) qs"
    "map Inr qs = take n (account_plan username user (hexdigest (md5 secret)))"
    "1 < n \<Longrightarrow> encode_utf8 password = Inr secret"
  shows "sent_as_planned username password s t n"
  using assms unfolding sent_as_planned_def by blast

definition confirmed :: "'z http_log_scheme \<Rightarrow> 'z http_log_scheme \<Rightarrow> account_device list \<Rightarrow> bool" where
  "confirmed s t ds \<longleftrightarrow>
     (\<exists>b1 b2 b3 items login. answers s = map (\<lambda>b. Inr (200, Inr b)) [b1, b2, b3] @ answers t \<and>
        json_loads_utf8 b2 = Inr login \<and> login_accepted login \<and>
        json_loads_utf8 b3 = Inr (JList items) \<and> ds = concat (map listed_device items))"

lemma summary_request_ok:
  "scalar_str username \<Longrightarrow> account_request m p [] (Some (summary_form username)) \<noteq> Inl e"
  by (rule account_request_ok) (auto simp: summary_form_def ascii_str_def str_def scalar_str_def is_surrogate_def)

lemma query_requests_ok:
  assumes "scalar_str user"
  shows "account_request m p (login_query user (hexdigest d)) None \<noteq> Inl e"
    "account_request m p (show_query user (hexdigest d)) None \<noteq> Inl e"
  by (rule account_request_ok; use assms plain_digest [of d] in
      \<open>simp add: login_query_def show_query_def ascii_str_def str_def scalar_str_def is_surrogate_def\<close>)+

lemma enumerate_cases:
  assumes "enumerate_devices db username password s = (r, t)"
  shows "\<exists>n\<le>3. sent_as_planned username password s t n \<and> (\<forall>ds. r = Ret ds \<longrightarrow> n = 3 \<and> confirmed s t ds) \<and>
    (\<forall>e. r = Raise e \<longrightarrow> plain_digits db \<and> scalar_str username \<and> scalar_str password \<and> (\<forall>a \<in> set (answers s). answer_ok a) \<longrightarrow>
       (\<exists>x. e = AccountError x))"
    (is "\<exists>n\<le>3. ?sent n \<and> ?ret n \<and> ?err")
proof (cases "username = [] \<or> password = [] \<or> 320 < length username \<or> 1024 < length password")
  case True
  with assms show ?thesis
    by (intro exI [of _ 0]) (auto simp: enumerate_devices_def intro!: sent_as_plannedI [where qs = "[]"])
next
  case False
  note ok = summary_request_ok and okq = query_requests_ok
  show ?thesis
    using assms [unfolded enumerate_devices_def if_not_P [OF False]]
  proof (cases rule: after_exchange)
    case Stop
    with ok show ?thesis
      by (intro exI [of _ 0]) (auto intro!: sent_as_plannedI [where qs = "[]"])
  next
    case (Fail q a)
    have "?sent 1"
      by (rule sent_as_plannedI [of _ _ "[q]"]) (use Fail(1,3) in \<open>simp_all add: account_plan_def\<close>)
    with Fail(2,4,5) show ?thesis by (intro exI [of _ 1]) auto
  next
    case (Next q1 u b1 summary)
    have one: "?sent 1" if "requests t = requests u"
      by (rule sent_as_plannedI [of _ _ "[q1]"]) (use Next(1,3) that in \<open>simp_all add: account_plan_def\<close>)
    show ?thesis
    proof (cases "read_summary db summary")
      case (Inl e)
      with Next(5) have "t = u" "r = Raise e" by (auto simp: lift_sum_def)
      moreover have "\<exists>x. e = AccountError x" using Inl by (auto simp: read_summary_def split: json.splits option.splits)
      ultimately show ?thesis using one by (intro exI [of _ 1]) auto
    next
      case (Inr user)
      note user = Inr
      show ?thesis
      proof (cases "encode_utf8 password")
        case (Inl e)
        with Next(5) user have "t = u" "r = Raise e" by (auto simp: lift_sum_def)
        moreover have "\<not> scalar_str password" using Inl by (auto simp: encode_utf8_def)
        ultimately show ?thesis using one by (intro exI [of _ 1]) auto
      next
        case (Inr secret)
        have rest: "bind (account_json ''GET'' ''/login/token'' (login_query user (hexdigest (md5 secret))) None)
          (\<lambda>login. if \<not> login_accepted login then raise (AccountError ''O-KAM account credentials were rejected'')
            else bind (account_json ''GET'' ''/PC/device/show'' (show_query user (hexdigest (md5 secret))) None)
              (\<lambda>devices. case devices of JList items \<Rightarrow> ret (concat (map listed_device items))
                | _ \<Rightarrow> raise (AccountError ''official account device list was invalid''))) u = (r, t)"
          using Next(5) by (simp add: user Inr lift_sum_def Let_def)
        from rest show ?thesis
        proof (cases rule: after_exchange)
          case Stop
          with one okq [OF plain_user [OF _ user]] show ?thesis by (intro exI [of _ 1]) auto
        next
          case (Fail q2 a)
          have "?sent 2"
            by (rule sent_as_plannedI [of _ _ "[q1, q2]" _ _ user secret])
              (use Next(1,3) Fail(1,3) Inr in \<open>simp_all add: account_plan_def\<close>)
          with Fail(2,4,5) Next(2) show ?thesis by (intro exI [of _ 2]) auto
        next
          case two: (Next q2 v b2 login)
          have sent2: "?sent 2" if "requests t = requests v"
            by (rule sent_as_plannedI [of _ _ "[q1, q2]" _ _ user secret])
              (use Next(1,3) two(1,3) Inr that in \<open>simp_all add: account_plan_def\<close>)
          show ?thesis
          proof (cases "login_accepted login")
            case False
            with two(5) have "t = v" "\<exists>x. r = Raise (AccountError x)" by auto
            with sent2 show ?thesis by (intro exI [of _ 2]) auto
          next
            case True
            from two(5) [unfolded not_not if_P [OF True] if_not_P [OF iffD2 [OF not_not True]]] show ?thesis
            proof (cases rule: after_exchange)
              case Stop
              with sent2 okq [OF plain_user [OF _ user]] show ?thesis by (intro exI [of _ 2]) auto
            next
              case (Fail q3 a)
              have "?sent 3"
                by (rule sent_as_plannedI [of _ _ "[q1, q2, q3]" _ _ user secret])
                  (use Next(1,3) two(1,3) Fail(1,3) Inr in \<open>simp_all add: account_plan_def\<close>)
              with Fail(2,4,5) Next(2) two(2) show ?thesis by (intro exI [of _ 3]) auto
            next
              case three: (Next q3 w b3 devices)
              then have w: "t = w" by (auto split: json.splits)
              have sent: "?sent 3"
                by (rule sent_as_plannedI [of _ _ "[q1, q2, q3]" _ _ user secret])
                  (use Next(1,3) two(1,3) three(1,3) Inr w in \<open>simp_all add: account_plan_def\<close>)
              have c: "confirmed s t ds" if "r = Ret ds" for ds
                unfolding confirmed_def
                by (rule exI [of _ b1], rule exI [of _ b2], rule exI [of _ b3])
                  (use Next(2) two(2,4) True three(2,4,5) w that in \<open>auto split: json.splits\<close>)
              have err: ?err using three(5) by (auto split: json.splits)
              from sent c err show ?thesis by (intro exI [of _ 3]) auto
            qed
          qed
        qed
      qed
    qed
  qed
qed

section \<open>What the enumeration promises\<close>

lemma account_traffic_sent:
  assumes "enumerate_devices db username password s = (r, t)"
  obtains n where "n \<le> 3" "sent_as_planned username password s t n"
    "list_all (\<lambda>(q, d). take (length ACCOUNT_ORIGIN) (url q) = ACCOUNT_ORIGIN) (drop (length (requests s)) (requests t))"
proof -
  from enumerate_cases [OF assms] obtain n where n: "n \<le> 3" "sent_as_planned username password s t n" by blast
  then obtain qs user digest where qs: "requests t = requests s @ map (\<lambda>q. (q, HTTP_TIMEOUT_SECONDS)) qs"
    and plan: "map Inr qs = take n (account_plan username user digest)"
    unfolding sent_as_planned_def by blast
  have "\<exists>m p query form. account_request m p query form = Inr q" if "q \<in> set qs" for q
  proof -
    from that have "Inr q \<in> set (take n (account_plan username user digest))" by (simp flip: plan)
    then have "Inr q \<in> set (account_plan username user digest)" by (rule in_set_takeD)
    then show ?thesis unfolding account_plan_def by (simp, elim disjE) metis+
  qed
  then have "take (length ACCOUNT_ORIGIN) (url q) = ACCOUNT_ORIGIN" if "q \<in> set qs" for q
    using request_origin that by blast
  then show ?thesis
    by (intro that [OF n]) (auto simp: qs list_all_iff simp del: HTTP_TIMEOUT_SECONDS_def)
qed

text \<open>C11: Whatever the account service answers, the client sends at most its three requests, in order, each
  to the official origin and with its timeout, and the password appears in them only as its MD5
  digest.\<close>

theorem account_traffic:
  assumes "enumerate_devices db username password s = (r, t)"
  shows "\<exists>n\<le>3. sent_as_planned username password s t n \<and>
    list_all (\<lambda>(q, d). take (length ACCOUNT_ORIGIN) (url q) = ACCOUNT_ORIGIN) (drop (length (requests s)) (requests t))"
  by (rule account_traffic_sent [OF assms]) blast

definition summary_answer :: json where "summary_answer = JObj [(str ''userid'', JInt 7)]"
definition login_answer :: json where "login_answer = JObj [(str ''token'', JStr (str ''t''))]"

definition device_answer :: json where
  "device_answer = JList [JObj [(str ''uid'', JStr (str ''VSTA000001'')), (str ''password'', JStr (str ''888888''))], JNull]"

definition account_session :: http_log where
  "account_session = \<lparr>requests = [],
     answers = map (\<lambda>j. Inr (200, Inr (map of_nat (json_dumps j)))) [summary_answer, login_answer, device_answer]\<rparr>"

lemma exchange_Ret:
  assumes "account_request m p query form = Inr q" "\<not> unsafe_path (str p)" "printable j" "length (json_dumps j) \<le> 1000"
    "answers s = Inr (200, Inr (map of_nat (json_dumps j))) # rest"
  shows "\<exists>t. account_json m p query form s = (Ret j, t) \<and> answers t = rest"
  using assms(4,5) json_loads_encoded [OF assms(3)]
  by (simp add: account_json_def assms(1,2) lift_sum_def catch_def bind_def account_open_def urlopen_def)

lemma sample_answers:
  "printable summary_answer" "printable login_answer" "printable device_answer"
  "length (json_dumps summary_answer) \<le> 1000" "length (json_dumps login_answer) \<le> 1000"
  "length (json_dumps device_answer) \<le> 1000"
  by (simp_all add: summary_answer_def login_answer_def device_answer_def str_def json_string_def json_char_def show_int_def show_nat.simps
      scalar_str_def is_surrogate_def)

lemma sample_reading:
  "read_summary db summary_answer = Inr (str ''7'')" "login_accepted login_answer"
  "concat (map listed_device (case device_answer of JList js \<Rightarrow> js)) =
     [\<lparr>device_uid = str ''VSTA000001'', device_name = str ''O-KAM camera'', device_password = str ''888888''\<rparr>]"
proof -
  have "user_id_text db (JInt 7) = Some (str ''7'')"
    by (simp add: user_id_text_def isdigit_def show_int_def show_nat.simps ascii_digit_def str_def)
  then show "read_summary db summary_answer = Inr (str ''7'')"
    by (simp add: read_summary_def summary_answer_def)
qed (simp_all add: login_accepted_def login_answer_def device_answer_def listed_device_def text_or_def)

lemma account_answers_run:
  assumes "answers s = answers account_session"
  shows "\<exists>t. enumerate_devices db (str ''owner'') (str ''secret'') s =
     (Ret [\<lparr>device_uid = str ''VSTA000001'', device_name = str ''O-KAM camera'', device_password = str ''888888''\<rparr>], t)"
proof -
  have s: "scalar_str (str x)" if "ascii_str (str x)" for x
    using that by (auto simp: scalar_str_def ascii_str_def list_all_iff is_surrogate_def)
  let ?d = "hexdigest (md5 (map of_nat (str ''secret'')))"
  have e: "encode_utf8 (str ''secret'') = Inr (map of_nat (str ''secret''))"
    by (rule utf8_of_ascii) (simp add: str_def)
  have owner: "scalar_str (str ''owner'')" "scalar_str (str ''7'')" by (rule s, simp add: str_def)+
  obtain q1 where q1: "account_request ''POST'' ''/user/summary'' [] (Some (summary_form (str ''owner''))) = Inr q1"
    using summary_request_ok [OF owner(1)] by (metis sum.exhaust)
  obtain q2 where q2: "account_request ''GET'' ''/login/token'' (login_query (str ''7'') ?d) None = Inr q2"
    using query_requests_ok(1) [OF owner(2)] by (metis sum.exhaust)
  obtain q3 where q3: "account_request ''GET'' ''/PC/device/show'' (show_query (str ''7'') ?d) None = Inr q3"
    using query_requests_ok(2) [OF owner(2)] by (metis sum.exhaust)
  have safe: "\<not> unsafe_path (str ''/user/summary'')" "\<not> unsafe_path (str ''/login/token'')"
    "\<not> unsafe_path (str ''/PC/device/show'')"
    by (simp_all add: unsafe_path_def str_def)
  let ?a = "\<lambda>j. Inr (200, Inr (map of_nat (json_dumps j)))"
  obtain s1 where r1: "account_json ''POST'' ''/user/summary'' [] (Some (summary_form (str ''owner''))) s = (Ret summary_answer, s1)"
    and a1: "answers s1 = ?a login_answer # [?a device_answer]"
    using exchange_Ret [OF q1 safe(1) sample_answers(1,4), of s] assms by (auto simp: account_session_def)
  from exchange_Ret [OF q2 safe(2) sample_answers(2,5) a1] obtain s2 where
    r2: "account_json ''GET'' ''/login/token'' (login_query (str ''7'') ?d) None s1 = (Ret login_answer, s2)"
    and a2: "answers s2 = [?a device_answer]" by blast
  from exchange_Ret [OF q3 safe(3) sample_answers(3,6) a2] obtain s3 where
    r3: "account_json ''GET'' ''/PC/device/show'' (show_query (str ''7'') ?d) None s2 = (Ret device_answer, s3)" by blast
  have valid: "\<not> (str ''owner'' = [] \<or> str ''secret'' = [] \<or> 320 < length (str ''owner'') \<or> 1024 < length (str ''secret''))"
    by (simp add: str_def)
  show ?thesis
    unfolding enumerate_devices_def if_not_P [OF valid]
    by (simp add: bind_def r1 sample_reading lift_sum_def e Let_def r2 r3)
      (use sample_reading(3) in \<open>simp add: device_answer_def\<close>)
qed

definition no_unicode :: unicode where
  "no_unicode = \<lparr>uni_isalnum = (\<lambda>_. False), uni_isalpha = (\<lambda>_. False), uni_isdigit = (\<lambda>_. False), uni_decimal = (\<lambda>_. None)\<rparr>"

theorem account_traffic_witness:
  "\<exists>t n. n \<le> 3 \<and> sent_as_planned (str ''owner'') (str ''secret'') account_session (t :: http_log) n \<and>
     snd (enumerate_devices no_unicode (str ''owner'') (str ''secret'') account_session) = t"
  using account_traffic [OF surjective_pairing] by blast

text \<open>C39: When the enumeration returns devices, all three exchanges took place and were answered with status
  200, the login was accepted, and the devices are exactly the valid entries of the list that the
  service returned, each with an identifier of 4 to 256 characters and a name.\<close>

theorem enumeration_confirmed:
  assumes "enumerate_devices db username password s = (Ret ds, t)"
  shows "sent_as_planned username password s t 3 \<and> confirmed s t ds \<and> list_all valid_device ds"
proof -
  from enumerate_cases [OF assms] have c: "sent_as_planned username password s t 3" "confirmed s t ds" by auto
  then have "list_all valid_device ds"
    by (auto simp: confirmed_def list_all_iff intro: listed_device_valid)
  with c show ?thesis by blast
qed

theorem enumeration_confirmed_witness:
  "\<exists>ds t. enumerate_devices no_unicode (str ''owner'') (str ''secret'') account_session = (Ret ds, t) \<and>
     length ds = 1 \<and> confirmed account_session t ds \<and> list_all valid_device ds"
  using account_answers_run [OF refl, of no_unicode] enumeration_confirmed by fastforce

text \<open>As long as the transport fails only with \<open>OSError\<close> and no answer is longer than 4300 bytes, the
  enumeration of an account with encodable credentials fails only with an \<open>AccountError\<close>, whose message
  is one of the program's own constants.\<close>

theorem account_errors_safe:
  assumes "enumerate_devices db username password s = (Raise e, t)" "plain_digits db"
    "scalar_str username" "scalar_str password" "\<forall>a \<in> set (answers s). answer_ok a"
  shows "\<exists>x. e = AccountError x"
  using enumerate_cases [OF assms(1)] assms(2-) by blast

theorem account_errors_safe_witness:
  "\<exists>e t x. enumerate_devices no_unicode (str ''owner'') (str ''secret'') \<lparr>requests = [], answers = [Inl OSError]\<rparr> = (Raise e, t) \<and>
     e = AccountError x"
proof -
  have p: "scalar_str (str ''owner'')" "scalar_str (str ''secret'')" by (simp_all add: str_def scalar_str_def is_surrogate_def)
  have d: "plain_digits no_unicode" by (simp add: plain_digits_def no_unicode_def)
  obtain q where q: "account_request ''POST'' ''/user/summary'' [] (Some (summary_form (str ''owner''))) = Inr q"
    using summary_request_ok [OF p(1)] by (metis sum.exhaust)
  have safe: "\<not> unsafe_path (str ''/user/summary'')" by (simp add: unsafe_path_def str_def)
  have valid: "str ''owner'' \<noteq> []" "str ''secret'' \<noteq> []" "\<not> 320 < length (str ''owner'')" "\<not> 1024 < length (str ''secret'')"
    by (simp_all add: str_def)
  let ?s = "\<lparr>requests = [], answers = [Inl OSError]\<rparr> :: http_log"
  obtain e t where r: "enumerate_devices no_unicode (str ''owner'') (str ''secret'') ?s = (Raise e, t)"
    using valid by (simp add: enumerate_devices_def account_json_def q safe lift_sum_def catch_def bind_def account_open_def urlopen_def)
  from account_errors_safe [OF r d p] have "\<exists>x. e = AccountError x" by (simp add: answer_ok_def)
  with r show ?thesis by blast
qed

end
