(* ===== verification/Wakeup.thy ===== *)
theory Wakeup
  imports Digest Http
begin

text \<open>
  The low-power wake client (\<open>okam_native/wakeup.py\<close>): reading the signing credentials, signing and
  framing a message, the exchange with a directory server and a device node, and the combination of
  the outcomes of all servers. One exchange runs over its own state: the clock, the time stamps and
  nonces, the outcome of each connection attempt, each \<open>drain\<close> and each close, and the connections
  made, each with the bytes that arrive in time and what the read after them runs into.
\<close>

section \<open>Decoding JSON from bytes\<close>

text \<open>\<open>json.loads(bs)\<close> detects the encoding and decodes with \<open>surrogatepass\<close>.\<close>

definition utf8_next_pass :: "bytes \<Rightarrow> (nat \<times> bytes) option" where
  "utf8_next_pass bs = (case utf8_next bs of
      Some x \<Rightarrow> Some x
    | None \<Rightarrow> (case bs of
        b0 # b1 # b2 # r \<Rightarrow>
          if unat b0 = 0xED \<and> is_cont b1 \<and> is_cont b2
          then Some (0xD000 + low6 b1 * 64 + low6 b2, r) else None
      | _ \<Rightarrow> None))"

lemma utf8_next_pass_shorter: "utf8_next_pass bs = Some (c, r) \<Longrightarrow> length r < length bs"
  by (auto simp: utf8_next_pass_def dest: utf8_next_shorter split: option.splits list.splits if_splits)

function decode_utf8_pass :: "bytes \<Rightarrow> exn + pystr" where
  "decode_utf8_pass bs =
     (if bs = [] then Inr []
      else case utf8_next_pass bs of
        None \<Rightarrow> Inl UnicodeError
      | Some (c, r) \<Rightarrow> sbind (decode_utf8_pass r) (\<lambda>s. Inr (c # s)))"
  by pat_completeness auto
termination
  by (relation "measure length") (auto dest: utf8_next_pass_shorter)

declare decode_utf8_pass.simps [simp del]

fun units :: "nat \<Rightarrow> bool \<Rightarrow> bytes \<Rightarrow> exn + nat list" where
  "units n big bs =
     (if bs = [] \<or> n = 0 then Inr []
      else if length bs < n then Inl UnicodeError
      else sbind (units n big (drop n bs)) (\<lambda>us. Inr ((if big then be_nat else le_nat) (take n bs) # us)))"

declare units.simps [simp del]

text \<open>A high surrogate joins with a low one; a lone one passes.\<close>

fun join_surrogates :: "nat list \<Rightarrow> pystr" where
  "join_surrogates (h # l # us) =
     (if 0xD800 \<le> h \<and> h < 0xDC00 \<and> 0xDC00 \<le> l \<and> l < 0xE000
      then (0x10000 + (h - 0xD800) * 1024 + (l - 0xDC00)) # join_surrogates us
      else h # join_surrogates (l # us))"
| "join_surrogates us = us"

definition decode_utf16 :: "bool \<Rightarrow> bytes \<Rightarrow> exn + pystr" where
  "decode_utf16 big bs = sbind (units 2 big bs) (\<lambda>us. Inr (join_surrogates us))"

definition decode_utf32 :: "bool \<Rightarrow> bytes \<Rightarrow> exn + pystr" where
  "decode_utf32 big bs =
     sbind (units 4 big bs) (\<lambda>us. if list_all (\<lambda>c. c < 0x110000) us then Inr us else Inl UnicodeError)"

definition decode_detected :: "bytes \<Rightarrow> exn + pystr" where
  "decode_detected bs =
     (let n = (\<lambda>i. unat (bs ! i)) in
      if take 4 bs = [0, 0, 0xFE, 0xFF] then decode_utf32 True (drop 4 bs)
      else if take 4 bs = [0xFF, 0xFE, 0, 0] then decode_utf32 False (drop 4 bs)
      else if take 2 bs = [0xFE, 0xFF] then decode_utf16 True (drop 2 bs)
      else if take 2 bs = [0xFF, 0xFE] then decode_utf16 False (drop 2 bs)
      else if take 3 bs = [0xEF, 0xBB, 0xBF] then decode_utf8_pass (drop 3 bs)
      else if 4 \<le> length bs \<and> n 0 = 0 then (if n 1 \<noteq> 0 then decode_utf16 True bs else decode_utf32 True bs)
      else if 4 \<le> length bs \<and> n 1 = 0
        then (if n 2 \<noteq> 0 \<or> n 3 \<noteq> 0 then decode_utf16 False bs else decode_utf32 False bs)
      else if length bs = 2 \<and> n 0 = 0 then decode_utf16 True bs
      else if length bs = 2 \<and> n 1 = 0 then decode_utf16 False bs
      else decode_utf8_pass bs)"

definition json_loads_bytes :: "bytes \<Rightarrow> exn + json" where
  "json_loads_bytes bs = sbind (decode_detected bs) json_loads"

section \<open>Encoding JSON without escapes\<close>

definition raw_char :: "nat \<Rightarrow> pystr" where
  "raw_char c = (if 127 \<le> c then [c] else json_char c)"

definition raw_string :: "pystr \<Rightarrow> pystr" where
  "raw_string s = [34] @ concat (map raw_char s) @ [34]"

text \<open>\<open>json.dumps(v, separators=(",", ":"), ensure_ascii=False)\<close>.\<close>

fun raw_dumps :: "json \<Rightarrow> pystr" where
  "raw_dumps (JStr s) = raw_string s"
| "raw_dumps (JList js) = [91] @ join_comma (map raw_dumps js) @ [93]"
| "raw_dumps (JObj d) = [123] @ join_comma (map (\<lambda>kv. raw_string (fst kv) @ 58 # raw_dumps (snd kv)) d) @ [125]"
| "raw_dumps j = json_dumps j"

section \<open>Credentials\<close>

definition WAKE_HOST :: pystr where "WAKE_HOST = str ''liteos-master.eye4.cn''"
definition WAKE_PORTS :: "int list" where "WAKE_PORTS = [32320, 12320]"
definition MAX_MESSAGE_BYTES :: nat where [simp]: "MAX_MESSAGE_BYTES = 1024 * 1024"

record wake_credentials =
  access_key :: pystr
  secret_key :: pystr

record wake_result =
  wake_requested :: bool
  wake_states :: "pystr list"
  responsive_servers :: nat

text \<open>The white space of a regular expression over text.\<close>

definition re_space :: "nat \<Rightarrow> bool" where
  "re_space c \<longleftrightarrow> header_space c \<or> c = 0x1680 \<or> 0x2000 \<le> c \<and> c \<le> 0x200A \<or>
     c \<in> {0x2028, 0x2029, 0x202F, 0x205F, 0x3000}"

text \<open>\<open>key\s*=\s*'([^']+)'\<close> at the start of a text, and its first occurrence: no part of the pattern can
  give back what it has taken.\<close>

definition quoted_at :: "pystr \<Rightarrow> pystr \<Rightarrow> pystr option" where
  "quoted_at key s =
     (let r = dropWhile re_space (drop (length key) s); q = dropWhile re_space (tl r);
          v = takeWhile (\<lambda>c. c \<noteq> 39) (tl q) in
      if take (length key) s = key \<and> r \<noteq> [] \<and> hd r = 61 \<and> q \<noteq> [] \<and> hd q = 39 \<and> v \<noteq> [] \<and> length v < length (tl q)
      then Some v else None)"

primrec search_quoted :: "pystr \<Rightarrow> pystr \<Rightarrow> pystr option" where
  "search_quoted key [] = None"
| "search_quoted key (c # s) = (case quoted_at key (c # s) of Some v \<Rightarrow> Some v | None \<Rightarrow> search_quoted key s)"

text \<open>\<open>read_text\<close> makes every line end a newline.\<close>

fun newlines :: "pystr \<Rightarrow> pystr" where
  "newlines [] = []"
| "newlines [c] = [if c = 13 then 10 else c]"
| "newlines (c # d # s) =
     (if c = 13 then 10 # newlines (if d = 10 then s else d # s) else c # newlines (d # s))"

definition read_text :: "exn + bytes \<Rightarrow> exn + pystr" where
  "read_text content = sbind content (\<lambda>bs. sbind (decode_utf8 bs) (\<lambda>s. Inr (newlines s)))"

definition load_wake_credentials :: "exn + bytes \<Rightarrow> exn + wake_credentials option" where
  "load_wake_credentials content =
     (case read_text content of
        Inl e \<Rightarrow> if e = OSError \<or> e = UnicodeError then Inr None else Inl e
      | Inr source \<Rightarrow>
         Inr (case (search_quoted (str ''secretKey'') source,
                    search_quoted (str ''data['' @ [39] @ str ''AccessKey'' @ [39] @ str '']'') source) of
                (Some s, Some a) \<Rightarrow> Some \<lparr>access_key = a, secret_key = s\<rparr>
              | _ \<Rightarrow> None))"

section \<open>Signed messages\<close>

text \<open>The values of a payload are texts and integers.\<close>

definition plain_text :: "json \<Rightarrow> pystr" where
  "plain_text j = (case j of JStr s \<Rightarrow> s | JInt n \<Rightarrow> show_int n | _ \<Rightarrow> [])"

definition canonical :: "(pystr \<times> json) list \<Rightarrow> pystr" where
  "canonical payload = concat (map (\<lambda>(k, v). k @ plain_text v) (sort_key fst payload))"

definition wake_payload ::
    "(string \<times> pystr) list \<Rightarrow> wake_credentials \<Rightarrow> int \<Rightarrow> int \<Rightarrow> (pystr \<times> json) list" where
  "wake_payload entries cred now nonce =
     AList.update (str ''sign'') (JInt nonce)
      (AList.update (str ''timestamp'') (JInt now)
        (AList.update (str ''AccessKey'') (JStr (access_key cred))
          (map (\<lambda>(k, v). (str k, JStr v)) entries)))"

definition framed :: "bytes \<Rightarrow> exn + bytes" where
  "framed body = (if length body < 2 ^ 32 then Inr (be_bytes 4 (length body) @ body) else Inl OverflowError)"

definition signed_message ::
    "(string \<times> pystr) list \<Rightarrow> wake_credentials \<Rightarrow> int \<Rightarrow> int \<Rightarrow> exn + bytes" where
  "signed_message entries cred now nonce =
     (let payload = wake_payload entries cred now nonce in
      sbind (encode_utf8 (secret_key cred)) (\<lambda>key.
      sbind (encode_utf8 (canonical payload)) (\<lambda>text.
      sbind (encode_utf8 (raw_dumps (JObj
          (AList.update (str ''signature'') (JStr (base64 (hmac_sha1 key text))) payload)))) framed)))"

section \<open>One exchange\<close>

record connection =
  conn_host :: pystr
  conn_port :: int
  inbox :: bytes
  beyond_inbox :: exn
  outbox :: bytes
  released :: bool

record wake_link =
  ticks :: "rat list"
  stamps :: "(int \<times> int) list"
  dials :: "(exn + bytes \<times> exn) list"
  drains :: "exn option list"
  closings :: "exn option list"
  conns :: "connection list"
  directory_writer :: "nat option"
  node_writer :: "nat option"

definition loop_time :: "(wake_link, rat) eff" where
  "loop_time = (\<lambda>s. case ticks s of [] \<Rightarrow> (Halt, s) | t # r \<Rightarrow> (Ret t, s\<lparr>ticks := r\<rparr>))"

definition fresh_stamp :: "(wake_link, int \<times> int) eff" where
  "fresh_stamp = (\<lambda>s. case stamps s of [] \<Rightarrow> (Halt, s) | t # r \<Rightarrow> (Ret t, s\<lparr>stamps := r\<rparr>))"

text \<open>\<open>open_connection\<close> under \<open>wait_for\<close>; the handle of a connection is its position.\<close>

definition open_connection :: "pystr \<Rightarrow> int \<Rightarrow> (wake_link, nat) eff" where
  "open_connection h p = (\<lambda>s. case dials s of
      [] \<Rightarrow> (Halt, s)
    | Inl e # r \<Rightarrow> (Raise e, s\<lparr>dials := r\<rparr>)
    | Inr (arrived, after) # r \<Rightarrow> (Ret (length (conns s)), s\<lparr>dials := r, conns := conns s @
        [\<lparr>conn_host = h, conn_port = p, inbox = arrived, beyond_inbox = after, outbox = [], released = False\<rparr>]\<rparr>))"

definition on_conn :: "nat \<Rightarrow> (connection \<Rightarrow> connection) \<Rightarrow> wake_link \<Rightarrow> wake_link" where
  "on_conn i f s = s\<lparr>conns := (conns s)[i := f (conns s ! i)]\<rparr>"

text \<open>The next scripted outcome of an action; beyond the script it succeeds.\<close>

definition link_outcome ::
    "(wake_link \<Rightarrow> exn option list) \<Rightarrow> (exn option list \<Rightarrow> wake_link \<Rightarrow> wake_link) \<Rightarrow> (wake_link, unit) eff" where
  "link_outcome get put = (\<lambda>s. case get s of
      [] \<Rightarrow> (Ret (), s) | None # r \<Rightarrow> (Ret (), put r s) | Some e # r \<Rightarrow> (Raise e, put r s))"

definition drain_writer :: "(wake_link, unit) eff" where
  "drain_writer = link_outcome drains (\<lambda>r s. s\<lparr>drains := r\<rparr>)"

definition send_signed :: "nat \<Rightarrow> wake_credentials \<Rightarrow> (string \<times> pystr) list \<Rightarrow> (wake_link, unit) eff" where
  "send_signed i cred entries =
     bind fresh_stamp (\<lambda>(now, nonce).
     bind (lift_sum (signed_message entries cred now nonce)) (\<lambda>m.
     modify (on_conn i (\<lambda>c. c\<lparr>outbox := outbox c @ m\<rparr>))))"

text \<open>\<open>wait_for(reader.readexactly(n), timeout)\<close>.\<close>

definition read_exactly :: "nat \<Rightarrow> nat \<Rightarrow> rat \<Rightarrow> (wake_link, bytes) eff" where
  "read_exactly i n timeout = (\<lambda>s.
     let c = conns s ! i in
     if timeout \<le> 0 then (Raise AsyncTimeout, s)
     else if length (inbox c) < n then (Raise (beyond_inbox c), s)
     else (Ret (take n (inbox c)), on_conn i (\<lambda>c. c\<lparr>inbox := drop n (inbox c)\<rparr>) s))"

definition read_message :: "nat \<Rightarrow> rat \<Rightarrow> (wake_link, (pystr \<times> json) list) eff" where
  "read_message i timeout =
     bind (read_exactly i 4 timeout) (\<lambda>header.
     let size = be_nat header in
     if size = 0 \<or> MAX_MESSAGE_BYTES < size then raise (WakeError ''wake service returned an invalid message size'')
     else
       bind (catch (bind (read_exactly i size timeout) (\<lambda>body. lift_sum (json_loads_bytes body)))
         (\<lambda>e. raise (if e = UnicodeError \<or> e = JSONDecodeError
                    then WakeError ''wake service returned an invalid response'' else e))) (\<lambda>result.
       case result of JObj d \<Rightarrow> ret d | _ \<Rightarrow> raise (WakeError ''wake service response was not an object'')))"

definition close_conn :: "nat option \<Rightarrow> (wake_link, unit) eff" where
  "close_conn w = (case w of
      None \<Rightarrow> ret ()
    | Some i \<Rightarrow> seq (modify (on_conn i (\<lambda>c. c\<lparr>released := True\<rparr>)))
        (catch (link_outcome closings (\<lambda>r s. s\<lparr>closings := r\<rparr>)) (\<lambda>e. if e = OSError \<or> e = AsyncTimeout then ret () else raise e)))"

text \<open>\<open>v == 1\<close>: a number that rounds to one does, and so does \<open>true\<close>.\<close>

definition equals_one :: "json \<Rightarrow> bool" where
  "equals_one j = (case j of
      JInt n \<Rightarrow> n = 1
    | JBool b \<Rightarrow> b
    | JFloat t \<Rightarrow> (case float_value t of None \<Rightarrow> False | Some x \<Rightarrow> 1 - 1 / 2 ^ 54 \<le> x \<and> x \<le> 1 + 1 / 2 ^ 53)
    | _ \<Rightarrow> False)"

text \<open>\<open>response.get("status") or response.get("deviceStatus") or response.get("event")\<close>.\<close>

definition reported_status :: "(pystr \<times> json) list \<Rightarrow> json" where
  "reported_status d =
     (let a = json_get d ''status''; b = json_get d ''deviceStatus'' in
      if truthy a then a else if truthy b then b else json_get d ''event'')"

definition note_state :: "json \<Rightarrow> pystr list \<Rightarrow> pystr list" where
  "note_state status states = (case status of
      JStr s \<Rightarrow> if s \<in> {str ''register'', str ''timeout''} then states else states @ [s]
    | _ \<Rightarrow> states)"

definition status_round :: "nat \<Rightarrow> rat \<Rightarrow> pystr list \<Rightarrow> (wake_link, pystr list + pystr list) eff" where
  "status_round node deadline states =
     bind loop_time (\<lambda>now.
     if deadline \<le> now then ret (Inr states)
     else
       bind loop_time (\<lambda>now2.
       bind (catch (bind (read_message node (min 5 (deadline - now2))) (\<lambda>d. ret (Some d)))
         (\<lambda>e. if e = AsyncTimeout \<or> e = IncompleteRead then ret None else raise e)) (\<lambda>response.
       case response of
         None \<Rightarrow> ret (Inr states)
       | Some d \<Rightarrow>
           let status = reported_status d; states' = note_state status states in
           if status = JStr (str ''activation'') \<or> json_get d ''event'' = JStr (str ''online'')
           then ret (Inr states') else ret (Inl states'))))"

definition wake_commands :: "pystr \<Rightarrow> (string \<times> pystr) list list" where
  "wake_commands did =
     [[(''event'', str ''register'')],
      [(''event'', str ''toDevice''), (''did'', did), (''cmd'', str ''wakeup'')],
      [(''event'', str ''getStatus''), (''did'', did)]]"

definition ask_node :: "pystr \<Rightarrow> wake_credentials \<Rightarrow> pystr \<Rightarrow> int \<Rightarrow> rat \<Rightarrow> (wake_link, bool \<times> pystr list) eff" where
  "ask_node did cred h p timeout =
     bind (open_connection h p) (\<lambda>node.
     seq (modify (node_writer_update (\<lambda>_. Some node)))
     (seq (for_each (wake_commands did) (send_signed node cred))
     (seq drain_writer
     (bind loop_time (\<lambda>start.
     bind (gets (\<lambda>s. Suc (length (ticks s)))) (\<lambda>rounds.
     bind (loop rounds (status_round node (start + timeout)) []) (\<lambda>states. ret (True, states))))))))"

text \<open>The node that the directory names; none when it does not know the device.\<close>

definition answered_node :: "(pystr \<times> json) list \<Rightarrow> exn + (pystr \<times> int) option" where
  "answered_node d =
     (if json_get d ''event'' \<noteq> JStr (str ''getDeviceInfo'') \<or> \<not> equals_one (json_get d ''ret'') then Inr None
      else
        case json_get d ''node_ip'' of
          JStr h \<Rightarrow>
           (if is_int (json_get d ''node_port'') then Inr (Some (h, as_int (json_get d ''node_port'')))
            else Inl (WakeError ''wake directory omitted the device node''))
        | _ \<Rightarrow> Inl (WakeError ''wake directory omitted the device node''))"

definition ask_directory_server :: "pystr \<Rightarrow> wake_credentials \<Rightarrow> nat \<Rightarrow> rat \<Rightarrow> (wake_link, (pystr \<times> int) option) eff" where
  "ask_directory_server did cred directory timeout =
     seq (send_signed directory cred [(''event'', str ''getDeviceInfo''), (''did'', did)])
     (seq drain_writer
     (bind (read_message directory timeout) (\<lambda>d. lift_sum (answered_node d))))"

definition ask_port :: "pystr \<Rightarrow> wake_credentials \<Rightarrow> int \<Rightarrow> rat \<Rightarrow> (wake_link, bool \<times> pystr list) eff" where
  "ask_port did cred port timeout =
     bind (open_connection WAKE_HOST port) (\<lambda>directory.
     seq (modify (directory_writer_update (\<lambda>_. Some directory)))
     (bind (ask_directory_server did cred directory timeout) (\<lambda>n.
      case n of
        None \<Rightarrow> ret (False, [])
      | Some (h, p) \<Rightarrow> ask_node did cred h p timeout)))"

definition wake_via_port :: "pystr \<Rightarrow> wake_credentials \<Rightarrow> int \<Rightarrow> rat \<Rightarrow> (wake_link, bool \<times> pystr list) eff" where
  "wake_via_port did cred port timeout =
     try_finally (ask_port did cred port timeout)
       (seq (bind (gets node_writer) close_conn) (bind (gets directory_writer) close_conn))"

section \<open>All servers\<close>

text \<open>The combination of the gathered outcomes, a raised exception being one of them.\<close>

definition combine_outcomes :: "(bool \<times> pystr list) outcome list \<Rightarrow> exn + wake_result" where
  "combine_outcomes outcomes =
     (let answered = concat (map (\<lambda>r. case r of Ret x \<Rightarrow> [x] | _ \<Rightarrow> []) outcomes) in
      if answered = [] then Inl (WakeError ''official wake service was unreachable'')
      else if \<not> list_ex fst answered then Inl (WakeError ''camera was not registered with the official wake service'')
      else Inr \<lparr>wake_requested = True, wake_states = concat (map snd answered), responsive_servers = length answered\<rparr>)"

text \<open>The state holds one exchange per port; they share nothing, so their interleaving is immaterial.\<close>

definition wake_camera :: "pystr \<Rightarrow> wake_credentials \<Rightarrow> rat \<Rightarrow> (wake_link list, wake_result) eff" where
  "wake_camera did cred timeout = (\<lambda>links.
     if did = [] \<or> 256 < length did then (Raise (WakeError ''camera device identifier is invalid''), links)
     else
       let runs = map2 (\<lambda>port link. wake_via_port did cred port timeout link) WAKE_PORTS links in
       (if Halt \<in> fst ` set runs then Halt
        else case combine_outcomes (map fst runs) of Inl e \<Rightarrow> Raise e | Inr w \<Rightarrow> Ret w, map snd runs))"

section \<open>What an exchange keeps\<close>

definition shape :: "wake_link \<Rightarrow> nat \<times> nat option \<times> nat option \<times> exn option list" where
  "shape s = (length (conns s), directory_writer s, node_writer s, closings s)"

definition written :: "wake_link \<Rightarrow> bytes list" where
  "written s = map outbox (conns s)"

lemma on_conn_parts: "shape (on_conn i f s) = shape s" "ticks (on_conn i f s) = ticks s"
  "stamps (on_conn i f s) = stamps s" "dials (on_conn i f s) = dials s"
  by (simp_all add: shape_def on_conn_def)

lemma written_on_conn: "(\<And>c. outbox (f c) = outbox c) \<Longrightarrow> written (on_conn i f s) = written s"
  using list_update_id [of "map outbox (conns s)" i]
  by (cases "i < length (conns s)") (simp_all add: written_def on_conn_def map_update list_update_beyond)

lemma link_steps: "steps_by (same_on shape) loop_time" "steps_by (same_on shape) fresh_stamp"
  "steps_by (same_on shape) drain_writer" "steps_by (same_on shape) (read_exactly i n d)"
  "steps_by (same_on shape) (modify (on_conn i f))"
  by (auto simp: steps_by_def same_on_def loop_time_def fresh_stamp_def drain_writer_def link_outcome_def read_exactly_def
    Let_def on_conn_parts split: list.splits option.splits) (auto simp: shape_def)

lemma quiet_steps: "steps_by (same_on written) loop_time" "steps_by (same_on written) fresh_stamp"
  "steps_by (same_on written) drain_writer" "steps_by (same_on written) (read_exactly i n d)"
  by (auto simp: steps_by_def same_on_def loop_time_def fresh_stamp_def drain_writer_def link_outcome_def read_exactly_def
    Let_def written_on_conn split: list.splits option.splits) (auto simp: written_def)

lemmas shape_rules = two_state.step_rules [OF two_state_same_on [of shape]] link_steps
lemmas written_rules = two_state.step_rules [OF two_state_same_on [of written]] quiet_steps

lemma json_step:
  "(\<And>d. steps_by R (f d)) \<Longrightarrow> steps_by R m \<Longrightarrow> steps_by R (case j of JObj d \<Rightarrow> f d | _ \<Rightarrow> m)"
  by (simp split: json.split)

lemma read_message_steps: "steps_by (same_on shape) (read_message i d)" "steps_by (same_on written) (read_message i d)"
  unfolding read_message_def by (intro shape_rules json_step) (intro written_rules json_step)

lemma status_round_steps:
  "steps_by (same_on shape) (status_round i d l)" "steps_by (same_on written) (status_round i d l)"
  unfolding status_round_def
  by (intro shape_rules read_message_steps) (intro written_rules read_message_steps)

lemma send_signed_shape: "steps_by (same_on shape) (send_signed i cred entries)"
  unfolding send_signed_def by (intro shape_rules)

lemma open_connection_Ret:
  assumes "open_connection h p s = (Ret n, u)"
  shows "n = length (conns s)" "shape u = (Suc n, directory_writer s, node_writer s, closings s)"
    "written u = written s @ [[]]" "ticks u = ticks s" "stamps u = stamps s" "length (dials s) = Suc (length (dials u))"
  using assms by (auto simp: open_connection_def shape_def written_def split: list.splits sum.splits)

lemma open_connection_fails: "open_connection h p s = (r, u) \<Longrightarrow> (\<And>x. r \<noteq> Ret x) \<Longrightarrow> shape u = shape s"
  by (auto simp: open_connection_def shape_def split: list.splits sum.splits)

lemma open_connection_Halt: "open_connection h p s = (Halt, u) \<Longrightarrow> dials s = []"
  by (auto simp: open_connection_def split: list.splits sum.splits)

lemma shapeD: "steps_by (same_on shape) m \<Longrightarrow> m s = (r, t) \<Longrightarrow> shape t = shape s"
  by (auto dest: steps_byD simp: same_on_def)

lemma writtenD: "steps_by (same_on written) m \<Longrightarrow> m s = (r, t) \<Longrightarrow> written t = written s"
  by (auto dest: steps_byD simp: same_on_def)

lemma ask_node_shape:
  assumes "ask_node did cred h p timeout s = (r, t)" "shape s = (1, Some 0, None, c)"
  shows "shape t = shape s \<or> shape t = (2, Some 0, Some 1, c)"
  using assms(1) unfolding ask_node_def
proof (cases rule: bind_cases)
  case (Ret node u)
  have u: "node = 1" "shape u = (2, Some 0, None, c)"
    using open_connection_Ret(1,2) [OF Ret(1)] assms(2) by (simp_all add: shape_def)
  let ?rest = "seq (for_each (wake_commands did) (send_signed node cred))
     (seq drain_writer
     (bind loop_time (\<lambda>start.
     bind (gets (\<lambda>s. Suc (length (ticks s)))) (\<lambda>rounds.
     bind (loop rounds (status_round node (start + timeout)) []) (\<lambda>states. ret (True, states))))))"
  have "steps_by (same_on shape) ?rest"
    by (intro shape_rules send_signed_shape status_round_steps)
  moreover have "?rest (u\<lparr>node_writer := Some node\<rparr>) = (r, t)" using Ret(2) by (simp add: seq_modify)
  ultimately have "shape t = shape (u\<lparr>node_writer := Some node\<rparr>)" by (rule shapeD)
  with u show ?thesis by (simp add: shape_def)
qed (auto dest!: open_connection_fails)

lemma ask_port_shape:
  assumes "ask_port did cred port timeout s = (r, t)" "shape s = (0, None, None, c)"
  shows "shape t \<in> {(0, None, None, c), (1, Some 0, None, c), (2, Some 0, Some 1, c)}"
  using assms(1) unfolding ask_port_def
proof (cases rule: bind_cases)
  case (Ret d u)
  have u: "d = 0" "shape u = (1, None, None, c)"
    using open_connection_Ret(1,2) [OF Ret(1)] assms(2) by (simp_all add: shape_def)
  let ?u = "u\<lparr>directory_writer := Some d\<rparr>"
  have u': "shape ?u = (1, Some 0, None, c)" using u by (simp add: shape_def)
  have dir: "steps_by (same_on shape) (ask_directory_server did cred d timeout)"
    unfolding ask_directory_server_def by (intro shape_rules send_signed_shape read_message_steps)
  have "bind (ask_directory_server did cred d timeout)
      (\<lambda>n. case n of None \<Rightarrow> ret (False, []) | Some (h, p) \<Rightarrow> ask_node did cred h p timeout) ?u = (r, t)"
    using Ret(2) by (simp add: seq_modify)
  then show ?thesis
  proof (cases rule: bind_cases)
    case (Ret n v)
    have v: "shape v = (1, Some 0, None, c)" using shapeD [OF dir Ret(1)] u' by simp
    show ?thesis
    proof (cases n)
      case (Some hp)
      then obtain h p where "ask_node did cred h p timeout v = (r, t)" using Ret(2) by (cases hp) auto
      from ask_node_shape [OF this v] v show ?thesis by auto
    qed (use Ret(2) v in auto)
  qed (use u' in \<open>auto dest!: shapeD [OF dir]\<close>)
qed (use assms(2) in \<open>auto dest!: open_connection_fails\<close>)

section \<open>Cleaning up\<close>

definition closes_quietly :: "exn option list \<Rightarrow> bool" where
  "closes_quietly c \<longleftrightarrow> set c \<subseteq> {None, Some OSError, Some AsyncTimeout}"

lemma close_conn_some:
  assumes "closes_quietly (closings s)" "i < length (conns s)"
  shows "\<exists>t. close_conn (Some i) s = (Ret (), t) \<and> closes_quietly (closings t) \<and>
    conns t = (conns s)[i := (conns s ! i)\<lparr>released := True\<rparr>] \<and> directory_writer t = directory_writer s"
  using assms by (cases "closings s")
    (auto simp: close_conn_def seq_modify catch_def link_outcome_def on_conn_def closes_quietly_def split: option.split)

definition new_link :: "wake_link \<Rightarrow> bool" where
  "new_link s \<longleftrightarrow> conns s = [] \<and> directory_writer s = None \<and> node_writer s = None"

lemma wake_via_port_run:
  assumes "wake_via_port did cred port timeout s = (r, t)" "new_link s" "closes_quietly (closings s)" "r \<noteq> Halt"
  obtains u where "ask_port did cred port timeout s = (r, u)" "map outbox (conns t) = map outbox (conns u)"
    "list_all released (conns t)" "length (conns t) \<le> 2"
proof -
  let ?close = "seq (bind (gets node_writer) close_conn) (bind (gets directory_writer) close_conn)"
  obtain q u where u: "ask_port did cred port timeout s = (q, u)" by (cases "ask_port did cred port timeout s")
  have "shape s = (0, None, None, closings s)" using assms(2) by (simp add: shape_def new_link_def)
  from ask_port_shape [OF u this] assms(3) have cl: "closes_quietly (closings u)"
    and sh: "(conns u = [] \<and> directory_writer u = None \<and> node_writer u = None) \<or>
      (length (conns u) = 1 \<and> directory_writer u = Some 0 \<and> node_writer u = None) \<or>
      (length (conns u) = 2 \<and> directory_writer u = Some 0 \<and> node_writer u = Some 1)"
    by (auto simp: shape_def)
  have "\<exists>v. ?close u = (Ret (), v) \<and> list_all released (conns v) \<and> map outbox (conns v) = map outbox (conns u)"
    using sh
  proof (elim disjE conjE)
    assume "conns u = []" "directory_writer u = None" "node_writer u = None"
    then show ?thesis by (simp add: seq_def bind_gets close_conn_def bind_def)
  next
    assume a: "length (conns u) = 1" "directory_writer u = Some 0" "node_writer u = None"
    then obtain c where c: "conns u = [c]" by (auto simp: length_Suc_conv)
    from close_conn_some [OF cl, of 0] a c show ?thesis
      by (auto simp: seq_def bind_def close_conn_def [of None])
  next
    assume a: "length (conns u) = 2" "directory_writer u = Some 0" "node_writer u = Some 1"
    then obtain c d where c: "conns u = [c, d]" by (auto simp: length_Suc_conv numeral_2_eq_2)
    from close_conn_some [OF cl, of 1] a c obtain v where v: "close_conn (Some 1) u = (Ret (), v)"
      "closes_quietly (closings v)" "conns v = [c, d\<lparr>released := True\<rparr>]" "directory_writer v = Some 0" by auto
    from close_conn_some [OF v(2), of 0] v(3) a c v show ?thesis
      by (auto simp: seq_def bind_def)
  qed
  then obtain v where v: "?close u = (Ret (), v)" "list_all released (conns v)" "map outbox (conns v) = map outbox (conns u)"
    by blast
  from assms(1,4) u v(1) have "q = r" "t = v"
    by (auto simp: wake_via_port_def try_finally_def split: outcome.splits)
  moreover have "length (conns u) \<le> 2" using sh by auto
  ultimately show ?thesis using that u v(2,3) by (metis length_map)
qed

lemma exchange_releases:
  assumes "wake_via_port did cred port timeout s = (r, t)" "new_link s" "closes_quietly (closings s)" "r \<noteq> Halt"
  shows "list_all released (conns t) \<and> length (conns t) \<le> 2"
  by (rule wake_via_port_run [OF assms]) blast

text \<open>No connection is left open: whatever the directory and the node answer, and whether the exchange
  returns or raises, every connection it has opened (two at most) has been closed, as long as closing
  a connection fails with nothing but an \<open>OSError\<close>.\<close>

theorem wake_releases_connections:
  assumes "wake_via_port did cred port timeout s = (r, t)" "new_link s" "closes_quietly (closings s)" "r \<noteq> Halt"
  shows "list_all released (conns t) \<and> length (conns t) \<le> 2"
  by (rule exchange_releases [OF assms])

section \<open>The wake-up command\<close>

lemma send_signed_Ret:
  assumes "send_signed i cred entries s = (Ret x, t)" "i < length (conns s)"
  obtains now nonce m where "signed_message entries cred now nonce = Inr m"
    "written t = (written s)[i := written s ! i @ m]" "shape t = shape s"
proof -
  from assms(1) obtain st u where st: "fresh_stamp s = (Ret st, u)"
    and rest: "bind (lift_sum (signed_message entries cred (fst st) (snd st)))
      (\<lambda>m. modify (on_conn i (\<lambda>c. c\<lparr>outbox := outbox c @ m\<rparr>))) u = (Ret x, t)"
    by (auto simp: send_signed_def bind_eq_Ret)
  then obtain m where m: "signed_message entries cred (fst st) (snd st) = Inr m"
    and t: "t = on_conn i (\<lambda>c. c\<lparr>outbox := outbox c @ m\<rparr>) u"
    by (auto simp: lift_sum_def bind_def split: sum.splits)
  have u: "shape u = shape s" "written u = written s"
    using shapeD [OF link_steps(2) st] writtenD [OF quiet_steps(2) st] .
  then have "length (conns u) = length (conns s)" by (simp add: shape_def)
  then have "written t = (written u)[i := written u ! i @ m]"
    using assms(2) by (simp add: t on_conn_def written_def map_update)
  with u that [OF m] show ?thesis by (simp add: t on_conn_parts)
qed

definition commands_sent :: "wake_credentials \<Rightarrow> (string \<times> pystr) list list \<Rightarrow> bytes \<Rightarrow> bool" where
  "commands_sent cred cmds out \<longleftrightarrow>
     (\<exists>ms. out = concat ms \<and> list_all2 (\<lambda>c m. \<exists>now nonce. signed_message c cred now nonce = Inr m) cmds ms)"

lemma commands_sent_Cons:
  assumes "commands_sent cred cmds out" "signed_message c cred now nonce = Inr m"
  shows "commands_sent cred (c # cmds) (m @ out)"
proof -
  from assms(1) obtain ms where "out = concat ms"
    "list_all2 (\<lambda>c m. \<exists>now nonce. signed_message c cred now nonce = Inr m) cmds ms"
    unfolding commands_sent_def by blast
  with assms(2) show ?thesis
    unfolding commands_sent_def by (intro exI [of _ "m # ms"]) auto
qed

lemma for_each_sent:
  assumes "for_each cmds (send_signed i cred) s = (Ret (), t)" "i < length (conns s)"
  shows "\<exists>out. commands_sent cred cmds out \<and> written t = (written s)[i := written s ! i @ out] \<and> shape t = shape s"
  using assms
proof (induction cmds arbitrary: s)
  case Nil
  then show ?case
    by (auto simp: commands_sent_def intro!: exI [of _ "[]"])
next
  case (Cons c cmds)
  from Cons.prems(1) obtain u where u: "send_signed i cred c s = (Ret (), u)"
    and rest: "for_each cmds (send_signed i cred) u = (Ret (), t)" by (auto simp: seq_eq_Ret)
  from u Cons.prems(2) obtain now nonce m where m: "signed_message c cred now nonce = Inr m"
    "written u = (written s)[i := written s ! i @ m]" "shape u = shape s" by (rule send_signed_Ret)
  then have len: "i < length (conns u)" "i < length (written s)"
    using Cons.prems(2) by (simp_all add: shape_def written_def)
  from Cons.IH [OF rest len(1)] obtain out where out: "commands_sent cred cmds out"
    "written t = (written u)[i := written u ! i @ out]" "shape t = shape u" by blast
  have "commands_sent cred (c # cmds) (m @ out)" by (rule commands_sent_Cons [OF out(1) m(1)])
  moreover have "written t = (written s)[i := written s ! i @ (m @ out)]" "shape t = shape s"
    using out(2,3) m(2,3) len(2) by simp_all
  ultimately show ?case by blast
qed

lemma ask_node_Ret:
  assumes "ask_node did cred h p timeout s = (Ret x, t)" "length (conns s) = 1"
  shows "length (conns t) = 2 \<and> commands_sent cred (wake_commands did) (outbox (conns t ! 1)) \<and> fst x"
proof -
  from assms(1) obtain node u where u: "open_connection h p s = (Ret node, u)"
    and rest: "seq (for_each (wake_commands did) (send_signed node cred)) (seq drain_writer
     (bind loop_time (\<lambda>start. bind (gets (\<lambda>s. Suc (length (ticks s)))) (\<lambda>rounds.
     bind (loop rounds (status_round node (start + timeout)) []) (\<lambda>states. ret (True, states))))))
     (u\<lparr>node_writer := Some node\<rparr>) = (Ret x, t)" (is "seq ?cmds ?after ?u = _")
    unfolding ask_node_def by (auto simp: bind_eq_Ret [of "open_connection h p"] seq_modify)
  note o = open_connection_Ret [OF u]
  have n: "node = 1" "length (conns ?u) = 2" "written ?u = written s @ [[]]"
    using o(1,2,3) assms(2) by (simp_all add: shape_def written_def)
  from rest obtain v where v: "?cmds ?u = (Ret (), v)" and w: "?after v = (Ret x, t)" by (auto simp: seq_eq_Ret)
  from for_each_sent [OF v] n obtain out where out: "commands_sent cred (wake_commands did) out"
    "written v = (written ?u)[1 := written ?u ! 1 @ out]" "shape v = shape ?u" by auto
  have "steps_by (same_on written) ?after" "steps_by (same_on shape) ?after"
    by (intro written_rules status_round_steps) (intro shape_rules status_round_steps)
  with w have t: "written t = written v" "shape t = shape v" by (auto dest: writtenD shapeD)
  moreover have "length (written s) = 1" using assms(2) by (simp add: written_def)
  ultimately have "written t ! 1 = out" "length (conns t) = 2"
    using out n by (simp_all add: nth_append shape_def)
  moreover have "fst x" using w by (auto simp: seq_eq_Ret bind_eq_Ret)
  ultimately show ?thesis using out(1) by (auto simp: written_def)
qed

lemma ask_port_Ret:
  assumes "ask_port did cred port timeout s = (Ret (requested, states), t)" "new_link s" "requested"
  shows "length (conns t) = 2 \<and> commands_sent cred (wake_commands did) (outbox (conns t ! 1))"
proof -
  from assms(1) obtain d u where u: "open_connection WAKE_HOST port s = (Ret d, u)"
    and rest: "bind (ask_directory_server did cred d timeout)
      (\<lambda>n. case n of None \<Rightarrow> ret (False, []) | Some (h, p) \<Rightarrow> ask_node did cred h p timeout)
      (u\<lparr>directory_writer := Some d\<rparr>) = (Ret (requested, states), t)" (is "bind ?ask ?go ?u = _")
    unfolding ask_port_def by (auto simp: bind_eq_Ret [of "open_connection WAKE_HOST port"] seq_modify)
  from rest obtain n v where v: "?ask ?u = (Ret n, v)" and go: "?go n v = (Ret (requested, states), t)"
    by (auto simp: bind_eq_Ret)
  have "steps_by (same_on shape) ?ask"
    unfolding ask_directory_server_def by (intro shape_rules send_signed_shape read_message_steps)
  from shapeD [OF this v] open_connection_Ret(1,2) [OF u] assms(2) have "length (conns v) = 1"
    by (simp add: shape_def new_link_def)
  moreover from go assms(3) obtain h p where "ask_node did cred h p timeout v = (Ret (requested, states), t)"
    by (auto split: option.splits)
  ultimately show ?thesis using ask_node_Ret by blast
qed

text \<open>An exchange that claims to have requested the wake-up has opened a connection to the device's node
  and written on it, in this order and nothing else, the signed registration, the signed wake-up command
  for the device, and the signed status query.\<close>

lemma wake_exchange_backed:
  assumes "wake_via_port did cred port timeout s = (Ret (True, states), t)" "new_link s" "closes_quietly (closings s)"
  shows "length (conns t) = 2 \<and> commands_sent cred (wake_commands did) (outbox (conns t ! 1))"
proof (rule wake_via_port_run [OF assms])
  fix u assume u: "ask_port did cred port timeout s = (Ret (True, states), u)" "map outbox (conns t) = map outbox (conns u)"
  from ask_port_Ret [OF u(1) assms(2)] u(2) show ?thesis
    by (metis One_nat_def length_map nth_map one_less_numeral_iff semiring_norm(76))
qed simp

section \<open>Coming back\<close>

definition scripts :: "wake_link \<Rightarrow> rat list \<times> (exn + bytes \<times> exn) list \<times> (int \<times> int) list" where
  "scripts s = (ticks s, dials s, stamps s)"

lemma script_steps: "steps_by (same_on scripts) drain_writer" "steps_by (same_on scripts) (read_exactly i n d)"
  "steps_by (same_on scripts) (modify (on_conn i f))"
  by (auto simp: steps_by_def same_on_def scripts_def drain_writer_def link_outcome_def read_exactly_def
    Let_def on_conn_parts split: list.splits option.splits)

lemmas script_rules = two_state.step_rules [OF two_state_same_on [of scripts]] script_steps

lemma read_message_keeps: "steps_by (same_on scripts) (read_message i d)"
  unfolding read_message_def by (intro script_rules json_step)

lemma no_halt_json:
  "no_halt m \<Longrightarrow> (\<And>d. no_halt (f d)) \<Longrightarrow> no_halt (case j of JObj d \<Rightarrow> f d | _ \<Rightarrow> m)"
  by (simp split: json.split)

lemma link_no_halt: "no_halt drain_writer" "no_halt (read_exactly i n d)"
  by (auto simp: no_halt_def drain_writer_def link_outcome_def read_exactly_def Let_def split: list.splits option.splits)

lemma read_message_no_halt: "no_halt (read_message i d)"
  unfolding read_message_def by (intro no_halt_rules link_no_halt no_halt_json)

lemma scriptsD: "steps_by (same_on scripts) m \<Longrightarrow> m s = (r, t) \<Longrightarrow> scripts t = scripts s"
  by (auto dest: steps_byD simp: same_on_def)

lemma read_message_late: "d \<le> 0 \<Longrightarrow> read_message i d s = (Raise AsyncTimeout, s)"
  by (simp add: read_message_def read_exactly_def bind_def Let_def)

text \<open>The status loop ends once the clock has passed its deadline, however many messages arrive.\<close>

lemma status_round_cases:
  assumes "ticks s = x # r"
  shows "(\<exists>t. status_round i deadline l s = (Ret (Inr l), t)) \<or> (\<exists>e t. status_round i deadline l s = (Raise e, t)) \<or>
    x < deadline \<and> (r = [] \<or> (\<exists>y r' t. r = y # r' \<and> y < deadline \<and> ticks t = r' \<and>
      (\<exists>l'. status_round i deadline l s = (Ret (Inr l'), t) \<or> status_round i deadline l s = (Ret (Inl l'), t))))"
proof (cases "deadline \<le> x \<or> r = []")
  case True
  then show ?thesis by (auto simp: status_round_def bind_def loop_time_def assms)
next
  case False
  then obtain y r' where r: "r = y # r'" by (cases r) auto
  let ?s = "s\<lparr>ticks := r'\<rparr>"
  have run: "status_round i deadline l s = bind (catch (bind (read_message i (min 5 (deadline - y))) (\<lambda>d. ret (Some d)))
         (\<lambda>e. if e = AsyncTimeout \<or> e = IncompleteRead then ret None else raise e)) (\<lambda>response.
       case response of
         None \<Rightarrow> ret (Inr l)
       | Some d \<Rightarrow>
           let status = reported_status d; states' = note_state status l in
           if status = JStr (str ''activation'') \<or> json_get d ''event'' = JStr (str ''online'')
           then ret (Inr states') else ret (Inl states')) ?s"
    using False by (simp add: status_round_def bind_def loop_time_def assms r)
  show ?thesis
  proof (cases "deadline \<le> y")
    case True
    then show ?thesis unfolding run by (simp add: read_message_late bind_def catch_def)
  next
    case late: False
    obtain q t where q: "read_message i (min 5 (deadline - y)) ?s = (q, t)" by (cases "read_message i (min 5 (deadline - y)) ?s")
    have "ticks t = r'" using scriptsD [OF read_message_keeps q] by (simp add: scripts_def)
    moreover have "q \<noteq> Halt" using no_haltD [OF read_message_no_halt] q by blast
    ultimately show ?thesis
      unfolding run using q False late by (cases q) (auto simp: bind_def catch_def r Let_def)
  qed
qed

lemma status_loop_returns:
  "\<exists>x \<in> set (ticks s). deadline \<le> x \<Longrightarrow> length (ticks s) < n \<Longrightarrow> fst (loop n (status_round i deadline) l s) \<noteq> Halt"
proof (induction n arbitrary: l s)
  case (Suc n)
  then obtain x r where x: "ticks s = x # r" by (cases "ticks s") auto
  from status_round_cases [OF x, of i deadline l] show ?case
  proof (elim disjE exE conjE)
    fix y r' t l' assume "x < deadline" and r: "r = y # r'" "y < deadline" "ticks t = r'"
      and run: "status_round i deadline l s = (Ret (Inl l'), t)"
    then have "fst (loop n (status_round i deadline) l' t) \<noteq> Halt"
      using Suc.prems x by (intro Suc.IH) auto
    then show ?thesis by (simp add: bind_def run)
  qed (use Suc.prems x in \<open>auto simp: bind_def\<close>)
qed simp

lemma send_signed_back:
  assumes "stamps s \<noteq> []" "send_signed i cred entries s = (r, t)"
  shows "r \<noteq> Halt" "ticks t = ticks s" "dials t = dials s" "stamps t = tl (stamps s)"
  using assms by (auto simp: send_signed_def fresh_stamp_def bind_def lift_sum_def on_conn_parts
    split: list.splits sum.splits prod.splits)

lemma for_each_back:
  assumes "length cmds \<le> length (stamps s)" "for_each cmds (send_signed i cred) s = (r, t)"
  shows "r \<noteq> Halt \<and> ticks t = ticks s"
  using assms
proof (induction cmds arbitrary: s)
  case (Cons c cmds)
  obtain q u where u: "send_signed i cred c s = (q, u)" by (cases "send_signed i cred c s")
  have "stamps s \<noteq> []" using Cons.prems(1) by auto
  note b = send_signed_back [OF this u]
  show ?case
  proof (cases q)
    case (Ret x)
    then have "for_each cmds (send_signed i cred) u = (r, t)" using Cons.prems(2) u by (simp add: seq_def bind_def)
    from Cons.IH [OF _ this] Cons.prems(1) b show ?thesis by simp
  qed (use Cons.prems(2) u b in \<open>auto simp: seq_def bind_def\<close>)
qed auto

lemma bind_back:
  assumes "m s = (q, u)" "q \<noteq> Halt" "\<And>x. q = Ret x \<Longrightarrow> fst (f x u) \<noteq> Halt"
  shows "fst (bind m f s) \<noteq> Halt"
  using assms by (cases q) (simp_all add: bind_def)

lemma seq_back:
  "m s = (q, u) \<Longrightarrow> q \<noteq> Halt \<Longrightarrow> (q = Ret () \<Longrightarrow> fst (f u) \<noteq> Halt) \<Longrightarrow> fst (seq m f s) \<noteq> Halt"
  unfolding seq_def by (rule bind_back) auto

lemma ask_node_back:
  assumes "dials s \<noteq> []" "3 \<le> length (stamps s)" "ticks s = x # rest" "\<exists>y \<in> set rest. x + timeout \<le> y"
  shows "fst (ask_node did cred h p timeout s) \<noteq> Halt"
proof -
  obtain q u where q: "open_connection h p s = (q, u)" by (cases "open_connection h p s")
  show ?thesis
  proof (cases q)
    case (Ret node)
    note o = open_connection_Ret(4,5) [OF q [unfolded Ret]]
    let ?u = "u\<lparr>node_writer := Some node\<rparr>"
    obtain c v where c: "for_each (wake_commands did) (send_signed node cred) ?u = (c, v)"
      by (cases "for_each (wake_commands did) (send_signed node cred) ?u")
    have b: "c \<noteq> Halt" "ticks v = x # rest"
      using for_each_back [OF _ c] o assms(2,3) by (simp_all add: wake_commands_def)
    obtain d w where d: "drain_writer v = (d, w)" by (cases "drain_writer v")
    have e: "d \<noteq> Halt" "ticks w = x # rest"
      using no_haltD [OF link_no_halt(1)] d scriptsD [OF script_steps(1) d] b(2) by (auto simp: scripts_def)
    let ?loop = "\<lambda>rounds. loop rounds (status_round node (x + timeout)) []"
    let ?w = "w\<lparr>ticks := rest\<rparr>"
    have "fst (?loop (Suc (length rest)) ?w) \<noteq> Halt"
      by (rule status_loop_returns) (use assms(4) in simp_all)
    then have l: "fst (bind (?loop (Suc (length rest))) (\<lambda>states. ret (True, states)) ?w) \<noteq> Halt"
      by (rule bind_back [OF surjective_pairing]) simp
    have tail: "fst (bind loop_time (\<lambda>start. bind (gets (\<lambda>s. Suc (length (ticks s)))) (\<lambda>rounds.
        bind (loop rounds (status_round node (start + timeout)) []) (\<lambda>states. ret (True, states)))) w) \<noteq> Halt"
      by (rule bind_back [of _ _ "Ret x" ?w])
        (use l e(2) in \<open>auto simp: loop_time_def bind_gets simp del: loop.simps\<close>)
    show ?thesis
      unfolding ask_node_def
      by (rule bind_back [where m = "open_connection h p", OF q])
        (simp_all add: Ret seq_modify seq_back [where m = "for_each _ _", OF c b(1)] seq_back [where m = drain_writer, OF d e(1)] tail)
  qed (use open_connection_Halt [of h p s u] q assms(1) in \<open>auto simp: ask_node_def bind_def\<close>)
qed

text \<open>C28: An exchange comes back: given two connection attempts that end and the four time stamps it takes, it
  returns or raises once a reading of the clock has passed the deadline, however many messages the node
  keeps sending.\<close>

theorem wake_port_returns:
  assumes "2 \<le> length (dials s)" "4 \<le> length (stamps s)" "ticks s = x # rest" "\<exists>y \<in> set rest. x + timeout \<le> y"
  shows "fst (wake_via_port did cred port timeout s) \<noteq> Halt"
proof -
  obtain q u where q: "open_connection WAKE_HOST port s = (q, u)" by (cases "open_connection WAKE_HOST port s")
  have "fst (ask_port did cred port timeout s) \<noteq> Halt"
  proof (cases q)
    case (Ret d)
    note o = open_connection_Ret(4-6) [OF q [unfolded Ret]]
    let ?u = "u\<lparr>directory_writer := Some d\<rparr>"
    obtain c v where c: "send_signed d cred [(''event'', str ''getDeviceInfo''), (''did'', did)] ?u = (c, v)"
      by (cases "send_signed d cred [(''event'', str ''getDeviceInfo''), (''did'', did)] ?u")
    have "stamps ?u \<noteq> []" using o assms(2) by auto
    note b = send_signed_back [OF this c]
    let ?more = "seq drain_writer (bind (read_message d timeout) (\<lambda>d. lift_sum (answered_node d)))"
    obtain e w where e: "?more v = (e, w)" by (cases "?more v")
    have "steps_by (same_on scripts) ?more" by (intro script_rules read_message_keeps)
    from scriptsD [OF this e] have w: "ticks w = x # rest" "dials w \<noteq> []" "3 \<le> length (stamps w)"
      using b o assms(1-3) by (auto simp: scripts_def)
    have "no_halt ?more" by (intro no_halt_rules link_no_halt read_message_no_halt)
    from no_haltD [OF this, of v w] e have "e \<noteq> Halt" by metis
    have "fst (ask_node did cred h p timeout w) \<noteq> Halt" for h p
      by (rule ask_node_back [OF w(2,3,1) assms(4)])
    note node = this
    let ?go = "\<lambda>n. case n of None \<Rightarrow> ret (False, []) | Some (h, p) \<Rightarrow> ask_node did cred h p timeout"
    have go: "fst (?go n w) \<noteq> Halt" for n using node by (simp split: option.split)
    have "fst (bind (ask_directory_server did cred d timeout) ?go ?u) \<noteq> Halt"
    proof (cases c)
      case (Ret y)
      have "ask_directory_server did cred d timeout ?u = (e, w)"
        unfolding ask_directory_server_def seq_def [of "send_signed _ _ _"] using e by (simp add: bind_Ret [where m = "send_signed _ _ _", OF c [unfolded Ret]])
      show ?thesis
        by (rule bind_back [where m = "ask_directory_server did cred d timeout", OF \<open>ask_directory_server did cred d timeout ?u = (e, w)\<close> \<open>e \<noteq> Halt\<close>]) (rule go)
    next
      case (Raise y)
      have "ask_directory_server did cred d timeout ?u = (Raise y, v)"
        unfolding ask_directory_server_def seq_def [of "send_signed _ _ _"] by (simp add: bind_Raise [where m = "send_signed _ _ _", OF c [unfolded Raise]])
      then show ?thesis by (simp add: Raise bind_def)
    qed (use b(1) in simp)
    note rest = this
    show ?thesis
      unfolding ask_port_def
      by (rule bind_back [where m = "open_connection WAKE_HOST port", OF q]) (use rest in \<open>simp_all add: Ret seq_modify\<close>)
  qed (use open_connection_Halt [of WAKE_HOST port s u] q assms(1) in \<open>auto simp: ask_port_def bind_def\<close>)
  moreover have "no_halt (close_conn w)" for w
    unfolding close_conn_def link_outcome_def
    by (intro no_halt_rules) (auto simp: no_halt_def split: list.split option.split)
  then have "no_halt (seq (bind (gets node_writer) close_conn) (bind (gets directory_writer) close_conn))"
    by (intro no_halt_rules)
  ultimately show ?thesis
    by (auto simp: wake_via_port_def try_finally_def no_halt_def split: prod.splits outcome.splits) (metis fst_conv)+
qed

section \<open>Reading a signed message back\<close>

definition plain_str :: "pystr \<Rightarrow> bool" where
  "plain_str s \<longleftrightarrow> list_all (\<lambda>c. c < 127) s"

lemma plain_ascii: "plain_str s \<Longrightarrow> ascii_str s" "plain_str s \<Longrightarrow> scalar_str s"
  by (auto simp: plain_str_def ascii_str_def scalar_str_def is_surrogate_def list_all_iff)

lemma raw_string_plain: "plain_str s \<Longrightarrow> raw_string s = json_string s"
proof -
  assume "plain_str s"
  then have "map raw_char s = map json_char s" by (auto simp: plain_str_def list_all_iff raw_char_def)
  then show ?thesis by (simp only: raw_string_def json_string_def)
qed

fun plain_value :: "json \<Rightarrow> bool" where
  "plain_value (JStr s) = plain_str s"
| "plain_value (JInt n) = True"
| "plain_value _ = False"

lemma raw_dumps_plain:
  assumes "\<forall>(k, v) \<in> set d. plain_str k \<and> plain_value v"
  shows "raw_dumps (JObj d) = json_dumps (JObj d)"
proof -
  have "raw_string k @ 58 # raw_dumps v = json_string k @ 58 # json_dumps v" if "(k, v) \<in> set d" for k v
    using assms that by (cases v) (auto simp: raw_string_plain)
  then have "map (\<lambda>kv. raw_string (fst kv) @ 58 # raw_dumps (snd kv)) d = map (\<lambda>kv. json_string (fst kv) @ 58 # json_dumps (snd kv)) d"
    by auto
  then show ?thesis by (simp only: raw_dumps.simps json_dumps.simps)
qed

lemma utf8_next_pass_ascii: "c < 128 \<Longrightarrow> utf8_next_pass (of_nat c # r) = Some (c, r)"
  by (simp add: utf8_next_pass_def utf8_next_def Let_def unat_of_nat_small)

lemma decode_pass_ascii: "ascii_str s \<Longrightarrow> decode_utf8_pass (map of_nat s) = Inr s"
  by (induction s) (simp_all add: decode_utf8_pass.simps utf8_next_pass_ascii)

lemma json_loads_detected:
  assumes "printable (JObj d)" "d \<noteq> []"
  shows "json_loads_bytes (map of_nat (json_dumps (JObj d))) = Inr (JObj d)"
proof -
  obtain k v e where d: "d = (k, v) # e" using assms(2) by (cases d) auto
  have "\<exists>z. json_dumps (JObj d) = 123 # 34 # z"
    by (cases e) (simp_all add: d json_string_def)
  then obtain z where z: "json_dumps (JObj d) = 123 # 34 # z" by blast
  have a: "ascii_str (json_dumps (JObj d))" by (rule ascii_dumps [OF assms(1)])
  have "decode_detected (map of_nat (json_dumps (JObj d))) = decode_utf8_pass (map of_nat (json_dumps (JObj d)))"
    unfolding z by (simp add: decode_detected_def Let_def)
  then show ?thesis
    by (simp add: json_loads_bytes_def decode_pass_ascii [OF a] json_loads_dumps [OF assms(1)] del: json_dumps.simps)
qed

definition own_names :: "pystr list" where
  "own_names = map str [''AccessKey'', ''timestamp'', ''sign'', ''signature'']"

lemma wake_payload_eq:
  assumes "set (map (\<lambda>kv. str (fst kv)) entries) \<inter> set own_names = {}"
  shows "wake_payload entries cred now nonce =
    map (\<lambda>(k, v). (str k, JStr v)) entries @ [(str ''AccessKey'', JStr (access_key cred)),
      (str ''timestamp'', JInt now), (str ''sign'', JInt nonce)]"
proof -
  have "\<not> has_key (map (\<lambda>(k, v). (str k, JStr v)) entries) n" if "n \<in> set own_names" for n
    using assms that by (fastforce simp: has_key_def)
  then show ?thesis
    by (simp add: wake_payload_def own_names_def update_new has_key_def image_Un)
qed

lemma payload_signature:
  assumes "set (map (\<lambda>kv. str (fst kv)) entries) \<inter> set own_names = {}"
  shows "str ''signature'' \<notin> fst ` set (wake_payload entries cred now nonce)"
  using assms unfolding wake_payload_eq [OF assms] own_names_def by (auto simp: image_iff)

lemma wake_payload_new:
  assumes "set (map (\<lambda>kv. str (fst kv)) entries) \<inter> set own_names = {}"
  shows "AList.update (str ''signature'') g (wake_payload entries cred now nonce) =
    map (\<lambda>(k, v). (str k, JStr v)) entries @ [(str ''AccessKey'', JStr (access_key cred)),
      (str ''timestamp'', JInt now), (str ''sign'', JInt nonce), (str ''signature'', g)]"
  using payload_signature [OF assms, of cred now nonce]
  by (subst update_new) (simp_all add: has_key_def wake_payload_eq [OF assms])

lemma base64_char_plain: "base64_char n < 127"
  by (auto simp: base64_char_def)

lemma base64_plain: "plain_str (base64 bs)"
  by (induction bs rule: base64.induct) (simp_all add: plain_str_def base64_char_plain Let_def)

lemma read_exactly_takes:
  assumes "inbox (conns s ! i) = a @ b" "i < length (conns s)" "0 < d"
  shows "\<exists>t. read_exactly i (length a) d s = (Ret a, t) \<and> inbox (conns t ! i) = b \<and> length (conns t) = length (conns s)"
  using assms by (simp add: read_exactly_def Let_def on_conn_def)

lemma read_framed:
  assumes "inbox (conns s ! i) = be_bytes 4 (length body) @ body @ rest" "i < length (conns s)" "0 < timeout"
    "body \<noteq> []" "length body \<le> MAX_MESSAGE_BYTES" "json_loads_bytes body = Inr (JObj d)"
  shows "\<exists>t. read_message i timeout s = (Ret d, t) \<and> inbox (conns t ! i) = rest"
proof -
  obtain t1 where t1: "read_exactly i 4 timeout s = (Ret (be_bytes 4 (length body)), t1)"
    "inbox (conns t1 ! i) = body @ rest" "i < length (conns t1)"
    using read_exactly_takes [OF assms(1-3)] assms(2) by auto
  obtain t2 where t2: "read_exactly i (length body) timeout t1 = (Ret body, t2)" "inbox (conns t2 ! i) = rest"
    using read_exactly_takes [OF t1(2,3) assms(3)] by blast
  have size: "be_nat (be_bytes 4 (length body)) = length body" using assms(5) by (simp add: be_nat_be_bytes)
  have "read_message i timeout s = (Ret d, t2)"
    using assms(4,5) by (simp add: read_message_def bind_def t1(1) size Let_def catch_def t2(1) assms(6) lift_sum_def)
  with t2(2) show ?thesis by blast
qed


section \<open>All servers together\<close>

lemma combined:
  assumes "combine_outcomes outcomes = Inr w"
  shows "wake_requested w" "\<exists>st. Ret (True, st) \<in> set outcomes" "1 \<le> responsive_servers w"
    "responsive_servers w \<le> length outcomes"
proof -
  let ?f = "\<lambda>r. case r of Ret x \<Rightarrow> [x] | _ \<Rightarrow> []"
  have "length (concat (map ?f outcomes)) \<le> length outcomes"
    by (induction outcomes) (auto split: outcome.split)
  with assms show "wake_requested w" "\<exists>st. Ret (True, st) \<in> set outcomes" "1 \<le> responsive_servers w"
    "responsive_servers w \<le> length outcomes"
    by (auto simp: combine_outcomes_def Let_def list_ex_iff Suc_le_eq split: if_splits outcome.splits)
qed

lemma wake_camera_runs:
  assumes "wake_camera did cred timeout links = (Ret w, links')" "length links = 2"
  obtains r1 t1 r2 t2 where "wake_via_port did cred 32320 timeout (links ! 0) = (r1, t1)"
    "wake_via_port did cred 12320 timeout (links ! 1) = (r2, t2)" "links' = [t1, t2]" "r1 \<noteq> Halt" "r2 \<noteq> Halt"
    "combine_outcomes [r1, r2] = Inr w"
proof -
  obtain l1 l2 where l: "links = [l1, l2]" using assms(2) by (auto simp: length_Suc_conv numeral_2_eq_2)
  obtain r1 t1 where 1: "wake_via_port did cred 32320 timeout l1 = (r1, t1)" by (cases "wake_via_port did cred 32320 timeout l1")
  obtain r2 t2 where 2: "wake_via_port did cred 12320 timeout l2 = (r2, t2)" by (cases "wake_via_port did cred 12320 timeout l2")
  from assms(1) show ?thesis
    by (intro that [of r1 t1 r2 t2]) (auto simp: wake_camera_def l WAKE_PORTS_def 1 2 Let_def split: if_splits sum.splits)
qed


section \<open>Sample exchanges\<close>

definition sample_credentials :: wake_credentials where
  "sample_credentials = \<lparr>access_key = str ''ak'', secret_key = str ''sk''\<rparr>"

definition sample_frame :: "json \<Rightarrow> bytes" where
  "sample_frame j = be_bytes 4 (length (json_dumps j)) @ map of_nat (json_dumps j)"

definition node_answer :: json where
  "node_answer = JObj [(str ''event'', JStr (str ''getDeviceInfo'')), (str ''ret'', JInt 1),
     (str ''node_ip'', JStr (str ''10.0.0.9'')), (str ''node_port'', JInt 32321)]"

definition idle_link :: wake_link where
  "idle_link = \<lparr>ticks = [0, 0, 13], stamps = [(1, 2), (1, 3), (1, 4), (1, 5)],
     dials = [Inr (sample_frame node_answer, IncompleteRead), Inr ([], AsyncTimeout)], drains = [], closings = [],
     conns = [], directory_writer = None, node_writer = None\<rparr>"

definition dead_link :: wake_link where
  "dead_link = idle_link\<lparr>dials := [Inl OSError]\<rparr>"

lemma length_json_string: "length (json_string s) \<le> 12 * length s + 2"
proof -
  have "length (json_char c) \<le> 12" for c by (simp add: json_char_def)
  then have "length (concat (map json_char s)) \<le> 12 * length s"
    by (induction s) (auto intro: add_mono)
  then show ?thesis by (simp add: json_string_def)
qed

lemma length_join_comma: "length (join_comma xs) \<le> sum_list (map length xs) + length xs"
  by (induction xs rule: join_comma.induct) auto

lemma length_base64: "length (base64 bs) \<le> 4 * length bs"
  by (induction bs rule: base64.induct) (auto simp: Let_def)

lemma sum_list_bound: "(\<And>x. x \<in> set xs \<Longrightarrow> f x \<le> c) \<Longrightarrow> sum_list (map f xs) \<le> c * length xs" for c :: nat
proof (induction xs)
  case (Cons x xs)
  have "f x \<le> c" "sum_list (map f xs) \<le> c * length xs" using Cons by simp_all
  then show ?case by simp
qed simp

lemma length_dumps_members:
  assumes "\<forall>(k, v) \<in> set d. length k \<le> 64 \<and> length (json_dumps v) \<le> 4000"
  shows "length (json_dumps (JObj d)) \<le> 2 + 5000 * length d"
proof -
  let ?m = "\<lambda>kv. json_string (fst kv) @ 58 # json_dumps (snd kv)"
  have "length (?m kv) \<le> 4771" if "kv \<in> set d" for kv
    using bspec [OF assms that] length_json_string [of "fst kv"] by (cases kv) simp
  then have "sum_list (map length (map ?m d)) \<le> 4771 * length d"
    unfolding map_map by (intro sum_list_bound) simp
  with length_join_comma [of "map ?m d"] show ?thesis by simp
qed

text \<open>A message with at most three plain entries of ordinary length can always be signed and framed.\<close>

lemma plain_show_int: "plain_str (show_int n)"
  using show_nat_digits by (fastforce simp: plain_str_def show_int_def list_all_iff)

lemma plain_canonical: "\<forall>(k, v) \<in> set p. plain_str k \<and> plain_value v \<Longrightarrow> plain_str (canonical p)"
proof -
  assume p: "\<forall>(k, v) \<in> set p. plain_str k \<and> plain_value v"
  have "plain_str (plain_text v)" if "plain_value v" for v
    using that plain_show_int by (cases v) (simp_all add: plain_text_def)
  with p show ?thesis unfolding canonical_def plain_str_def list_all_iff by fastforce
qed

lemma plain_message:
  assumes "list_all (\<lambda>(k, v). plain_str (str k) \<and> plain_str v \<and> length k \<le> 64 \<and> length v \<le> 256) entries"
    "length entries \<le> 3" "set (map (\<lambda>kv. str (fst kv)) entries) \<inter> set own_names = {}"
    "plain_str (access_key cred)" "length (access_key cred) \<le> 256" "plain_str (secret_key cred)"
    "\<bar>now\<bar> < 10 ^ 20" "\<bar>nonce\<bar> < 10 ^ 20"
  shows "\<exists>m. signed_message entries cred now nonce = Inr m \<and> length m \<le> MAX_MESSAGE_BYTES"
proof -
  let ?p = "wake_payload entries cred now nonce"
  have int: "length (show_int n) \<le> 22" if "\<bar>n\<bar> < 10 ^ 20" for n
  proof -
    have "nat (- n) < 10 ^ 20" "nat n < 10 ^ 20" using that by (auto simp: nat_less_iff)
    from length_show_nat [OF this(1)] length_show_nat [OF this(2)] show ?thesis
      by (auto simp: show_int_def)
  qed
  have dump: "length (json_dumps (JStr v)) \<le> 4000" if "length v \<le> 256" for v
    using length_json_string [of v] that by simp
  have plain: "\<forall>(k, v) \<in> set ?p. plain_str k \<and> plain_value v"
    using assms(1,4) by (fastforce simp: wake_payload_eq [OF assms(3)] list_all_iff plain_str_def str_def)
  obtain canon where canon: "encode_utf8 (canonical ?p) = Inr canon"
    using utf8_of_ascii plain_ascii(1) plain_canonical [OF plain] by blast
  obtain key where key: "encode_utf8 (secret_key cred) = Inr key" using utf8_of_ascii plain_ascii(1) assms(6) by blast
  let ?sig = "base64 (hmac_sha1 key canon)"
  let ?d = "AList.update (str ''signature'') (JStr ?sig) ?p"
  have sig: "length ?sig \<le> 256" using length_base64 [of "hmac_sha1 key canon"] by (simp add: length_hmac)
  have d_plain: "\<forall>(k, v) \<in> set ?d. plain_str k \<and> plain_value v"
    using plain base64_plain by (fastforce dest: set_update_subset simp: plain_str_def str_def)
  have "\<forall>(k, v) \<in> set ?d. length k \<le> 64 \<and> length (json_dumps v) \<le> 4000"
    using assms(1) dump [OF sig] dump [OF assms(5)] dump int [OF assms(7)] int [OF assms(8)]
    by (fastforce simp: wake_payload_new [OF assms(3)] list_all_iff)
  from length_dumps_members [OF this] have "length (json_dumps (JObj ?d)) \<le> 40000"
    using assms(2) by (simp add: wake_payload_new [OF assms(3)])
  moreover have "ascii_str (json_dumps (JObj ?d))"
  proof -
    have "ascii_str (json_dumps v)" if "plain_value v" for v using that by (cases v) simp_all
    then have "list_all ascii_str (map (\<lambda>kv. json_string (fst kv) @ 58 # json_dumps (snd kv)) ?d)"
      using d_plain unfolding list_all_iff by fastforce
    then show ?thesis by (simp add: ascii_join_comma del: map_map)
  qed
  then have "encode_utf8 (raw_dumps (JObj ?d)) = Inr (map of_nat (json_dumps (JObj ?d)))"
    using raw_dumps_plain [OF d_plain] utf8_of_ascii by simp
  ultimately show ?thesis
    by (simp add: signed_message_def Let_def key canon framed_def del: json_dumps.simps raw_dumps.simps)
qed

lemma read_framed_eq:
  assumes "inbox (conns s ! i) = be_bytes 4 (length body) @ body @ rest" "i < length (conns s)" "0 < timeout"
    "body \<noteq> []" "length body \<le> MAX_MESSAGE_BYTES" "json_loads_bytes body = Inr (JObj d)"
  shows "read_message i timeout s = (Ret d, on_conn i (inbox_update (\<lambda>_. rest)) s)"
proof -
  have size: "be_nat (be_bytes 4 (length body)) = length body" using assms(5) by (simp add: be_nat_be_bytes)
  show ?thesis
    using assms size by (simp add: read_message_def bind_def read_exactly_def Let_def catch_def on_conn_def lift_sum_def)
qed

lemma send_signed_eq:
  "stamps s = (now, nonce) # r \<Longrightarrow> signed_message entries cred now nonce = Inr m \<Longrightarrow>
   send_signed i cred entries s = (Ret (), on_conn i (\<lambda>c. c\<lparr>outbox := outbox c @ m\<rparr>) (s\<lparr>stamps := r\<rparr>))"
  by (simp add: send_signed_def bind_def fresh_stamp_def lift_sum_def)

lemma node_answer_reads:
  "json_loads_bytes (map of_nat (json_dumps node_answer)) = Inr node_answer"
  "length (json_dumps node_answer) \<le> MAX_MESSAGE_BYTES" "json_dumps node_answer \<noteq> []"
proof -
  have "printable node_answer"
    by (simp add: node_answer_def str_def scalar_str_def is_surrogate_def show_nat.simps)
  then show "json_loads_bytes (map of_nat (json_dumps node_answer)) = Inr node_answer"
    unfolding node_answer_def by (rule json_loads_detected) simp
  show "length (json_dumps node_answer) \<le> MAX_MESSAGE_BYTES" "json_dumps node_answer \<noteq> []"
    by (simp_all add: node_answer_def json_string_def json_char_def str_def show_int_def show_nat.simps)
qed

lemma idle_link_run:
  "\<exists>t. wake_via_port (str ''VSTA'') sample_credentials 32320 12 idle_link = (Ret (True, []), t)"
proof -
  have msg: "\<exists>m. signed_message entries sample_credentials now nonce = Inr m"
    if "entries \<in> set ([(''event'', str ''getDeviceInfo''), (''did'', str ''VSTA'')] # wake_commands (str ''VSTA''))"
      "\<bar>now\<bar> < 10 ^ 20" "\<bar>nonce\<bar> < 10 ^ 20" for entries now nonce
    using plain_message [of entries sample_credentials now nonce] that
    by (auto simp: wake_commands_def sample_credentials_def own_names_def plain_str_def str_def)
  obtain m0 where m0: "signed_message [(''event'', str ''getDeviceInfo''), (''did'', str ''VSTA'')] sample_credentials 1 2 = Inr m0"
    using msg by force
  obtain m1 where m1: "signed_message [(''event'', str ''register'')] sample_credentials 1 3 = Inr m1"
    using msg by (force simp: wake_commands_def)
  obtain m2 where m2: "signed_message [(''event'', str ''toDevice''), (''did'', str ''VSTA''), (''cmd'', str ''wakeup'')] sample_credentials 1 4 = Inr m2"
    using msg by (force simp: wake_commands_def)
  obtain m3 where m3: "signed_message [(''event'', str ''getStatus''), (''did'', str ''VSTA'')] sample_credentials 1 5 = Inr m3"
    using msg by (force simp: wake_commands_def)
  let ?dir = "open_connection WAKE_HOST 32320 idle_link"
  define c0 where "c0 = \<lparr>conn_host = WAKE_HOST, conn_port = 32320, inbox = sample_frame node_answer,
    beyond_inbox = IncompleteRead, outbox = [], released = False\<rparr>"
  define s1 where "s1 = idle_link\<lparr>dials := [Inr ([], AsyncTimeout)], conns := [c0], directory_writer := Some 0\<rparr>"
  define s2 where "s2 = s1\<lparr>stamps := [(1, 3), (1, 4), (1, 5)], conns := [c0\<lparr>outbox := m0, inbox := []\<rparr>]\<rparr>"
  have step1: "ask_directory_server (str ''VSTA'') sample_credentials 0 12 s1 = (Ret (Some (str ''10.0.0.9'', 32321)), s2)"
  proof -
    let ?u = "s1\<lparr>stamps := [(1, 3), (1, 4), (1, 5)], conns := [c0\<lparr>outbox := m0\<rparr>]\<rparr>"
    have "read_message 0 12 ?u = (Ret (the (as_obj node_answer)), on_conn 0 (inbox_update (\<lambda>_. [])) ?u)"
      by (rule read_framed_eq [where body = "map of_nat (json_dumps node_answer)"])
        (use node_answer_reads in \<open>simp_all add: c0_def sample_frame_def node_answer_def\<close>)
    moreover have "send_signed 0 sample_credentials [(''event'', str ''getDeviceInfo''), (''did'', str ''VSTA'')] s1 = (Ret (), ?u)"
      by (subst send_signed_eq [OF _ m0]) (simp_all add: s1_def idle_link_def on_conn_def c0_def)
    moreover have "answered_node (the (as_obj node_answer)) = Inr (Some (str ''10.0.0.9'', 32321))"
      by (simp add: answered_node_def node_answer_def equals_one_def)
    ultimately show ?thesis
      by (simp add: ask_directory_server_def seq_def bind_def drain_writer_def link_outcome_def lift_sum_def s2_def on_conn_def s1_def idle_link_def)
  qed
  define c1 where "c1 = \<lparr>conn_host = str ''10.0.0.9'', conn_port = 32321, inbox = [], beyond_inbox = AsyncTimeout,
    outbox = [], released = False\<rparr>"
  define d0 where "d0 = c0\<lparr>outbox := m0, inbox := []\<rparr>"
  define s3 where "s3 = s2\<lparr>dials := [], conns := [d0, c1], node_writer := Some 1\<rparr>"
  define s4 where "s4 = s3\<lparr>stamps := [], conns := [d0, c1\<lparr>outbox := m1 @ m2 @ m3\<rparr>]\<rparr>"
  have open1: "open_connection (str ''10.0.0.9'') 32321 s2 = (Ret 1, s2\<lparr>dials := [], conns := [d0, c1]\<rparr>)"
    by (simp add: open_connection_def s2_def s1_def idle_link_def d0_def c1_def)
  have sends: "for_each (wake_commands (str ''VSTA'')) (send_signed 1 sample_credentials) s3 = (Ret (), s4)"
    unfolding wake_commands_def
    by (simp add: seq_def bind_def send_signed_eq [OF _ m1] send_signed_eq [OF _ m2] send_signed_eq [OF _ m3]
      s3_def s2_def s4_def on_conn_def c1_def)
  have ticks: "ticks s4 = [0, 0, 13]" by (simp add: s4_def s3_def s2_def s1_def idle_link_def)
  have round: "status_round 1 12 [] (s4\<lparr>ticks := [0, 13]\<rparr>) = (Ret (Inr []), s4\<lparr>ticks := []\<rparr>)"
    by (simp add: status_round_def bind_def loop_time_def catch_def read_message_late)
  have drained: "drain_writer s4 = (Ret (), s4)"
    by (simp add: drain_writer_def link_outcome_def s4_def s3_def s2_def s1_def idle_link_def)
  have step2: "ask_node (str ''VSTA'') sample_credentials (str ''10.0.0.9'') 32321 12 s2 = (Ret (True, []), s4\<lparr>ticks := []\<rparr>)"
    by (simp add: ask_node_def seq_def bind_def open1 sends drained loop_time_def ticks round del: One_nat_def flip: s3_def)
  have "?dir = (Ret 0, s1\<lparr>directory_writer := None\<rparr>)"
    by (simp add: open_connection_def idle_link_def s1_def c0_def)
  moreover have "s1\<lparr>directory_writer := Some 0\<rparr> = s1" by (simp add: s1_def)
  ultimately have body: "ask_port (str ''VSTA'') sample_credentials 32320 12 idle_link = (Ret (True, []), s4\<lparr>ticks := []\<rparr>)"
    by (simp add: ask_port_def bind_def seq_def step1 step2)
  have quiet: "closings s4 = []" "node_writer s4 = Some 1" "directory_writer s4 = Some 0"
    by (simp_all add: s4_def s3_def s2_def s1_def idle_link_def)
  show ?thesis
    unfolding wake_via_port_def
    by (simp add: try_finally_def body seq_def bind_def quiet close_conn_def catch_def link_outcome_def on_conn_def)
qed

lemma dead_link_run: "\<exists>t. wake_via_port did cred 12320 12 dead_link = (Raise OSError, t)"
  by (simp add: wake_via_port_def try_finally_def ask_port_def bind_def seq_def open_connection_def dead_link_def
    idle_link_def close_conn_def)


theorem wake_releases_connections_witness:
  "\<exists>t. wake_via_port (str ''VSTA'') sample_credentials 12320 12 dead_link = (Raise OSError, t) \<and>
     list_all released (conns t)"
proof -
  obtain t where t: "wake_via_port (str ''VSTA'') sample_credentials 12320 12 dead_link = (Raise OSError, t)"
    using dead_link_run by blast
  have "new_link dead_link" "closes_quietly (closings dead_link)"
    by (simp_all add: idle_link_def dead_link_def new_link_def closes_quietly_def)
  from wake_releases_connections [OF t this] t show ?thesis by simp
qed

theorem wake_port_returns_witness:
  "fst (wake_via_port (str ''VSTA'') sample_credentials 32320 12 idle_link) \<noteq> Halt"
  by (rule wake_port_returns [where x = 0 and rest = "[0, 13]"]) (simp_all add: idle_link_def)


end
