(* ===== verification/App.thy ===== *)
theory App
  imports Account Wakeup Bridge
begin

text \<open>
  The app's entry point (\<open>okam_native_app/app_entrypoint.py\<close>): the status dictionary, the preparation
  of the vendor runtime, the options, the enumeration of the account, the optional acceptance probes
  with their retries, the publication of the bridge and the main program. What the platform answers
  (files, processes, the directory service, names of exception classes) is a record of parameters; the
  state holds the status, what was printed and run, the bridge once published, and the scripts of
  the account service, the wake-up servers and the helper processes. The lock protects single
  dictionary operations and is not modelled further.
\<close>

section \<open>The platform\<close>

record platform =
  arch_name :: pystr
  python_path :: pystr
  os_environ :: "(pystr \<times> pystr) list"
  classes :: unicode
  directory :: opener
  present :: "pystr \<Rightarrow> bool"
  mkdir_result :: "exn option"
  fetch_result :: "exn option"
  loader_output :: "exn + pystr"
  wake_source :: "exn + bytes"
  fresh_secret :: pystr
  class_name :: "exn \<Rightarrow> pystr"

text \<open>\<open>arch_name\<close> is the lower-cased name from the environment or the machine.\<close>

definition runtime_arch :: "platform \<Rightarrow> pystr" where
  "runtime_arch P =
     (let a = arch_name P in
      if a \<in> {str ''x86_64'', str ''x64''} then str ''amd64''
      else if a \<in> {str ''arm64'', str ''armv8''} then str ''aarch64'' else a)"

definition on_amd64 :: "platform \<Rightarrow> bool" where
  "on_amd64 P \<longleftrightarrow> runtime_arch P = str ''amd64''"

definition VENDOR :: pystr where "VENDOR = str ''/data/vendor''"
definition PROBE :: pystr where "PROBE = str ''/opt/okam/okam-hybris-probe''"
definition FFMPEG :: pystr where "FFMPEG = str ''/usr/bin/ffmpeg''"

definition CONNECT_HELPER :: "platform \<Rightarrow> pystr" where
  "CONNECT_HELPER P = (if on_amd64 P then str ''/opt/okam/okam-amd64-connect'' else str ''/opt/okam/okam-hybris-connect'')"

definition LIBRARY :: "platform \<Rightarrow> pystr" where
  "LIBRARY P = (if on_amd64 P then str ''/dev/null'' else VENDOR @ str ''/libOKSMARTPPCS.so'')"

definition hybris_environment :: "(string \<times> string) list" where
  "hybris_environment =
     [(''LD_LIBRARY_PATH'', ''/opt/hybris/lib''),
      (''HYBRIS_LINKER_DIR'', ''/opt/hybris/lib/libhybris/linker''),
      (''HYBRIS_ANDROID_SDK_VERSION'', ''28''),
      (''HYBRIS_LD_LIBRARY_PATH'', ''/opt/android-stubs:/opt/bionic:/data/vendor'')]"

text \<open>\<open>d.update(entries)\<close>.\<close>

definition update_all :: "(pystr \<times> 'v) list \<Rightarrow> (pystr \<times> 'v) list \<Rightarrow> (pystr \<times> 'v) list" where
  "update_all entries d = fold (\<lambda>(k, v). AList.update k v) entries d"

definition hybris_environ :: "platform \<Rightarrow> (pystr \<times> pystr) list" where
  "hybris_environ P = update_all (map (\<lambda>(k, v). (str k, str v)) hybris_environment) (os_environ P)"

definition p2p_environment :: "platform \<Rightarrow> (pystr \<times> pystr) list" where
  "p2p_environment P = (if on_amd64 P then os_environ P else hybris_environ P)"

section \<open>State\<close>

text \<open>The bridge object with its session's settings and what its starter captured.\<close>

record live_bridge =
  served :: bridge
  session_idle :: rat
  camera_did :: pystr
  camera_client :: pystr
  camera_service :: pystr
  camera_secret :: pystr
  camera_credentials :: wake_credentials

record app = http_log +
  status_items :: "(pystr \<times> json) list"
  printed :: "pystr list"
  published :: "live_bridge option"
  option_reads :: "(exn + bytes) option list"
  wakes :: "wake_link list list"
  woken :: "wake_link list list"
  runners :: "runner list"
  sites :: "snapshot_locals list"
  commands :: "pystr list list"
  pauses :: nat

definition initial_status :: "(string \<times> json) list" where
  "initial_status =
     [(''service'', JStr (str ''okam-native-bridge'')), (''loader_ready'', JBool False), (''account_ready'', JBool False),
      (''p2p_ready'', JBool False), (''camera_ready'', JBool False), (''connect_test_enabled'', JBool False),
      (''auth_test_enabled'', JBool False), (''camera_authenticated'', JBool False),
      (''stream_test_enabled'', JBool False), (''h264_ready'', JBool False), (''snapshot_test_enabled'', JBool False),
      (''snapshot_ready'', JBool False), (''configuration_required'', JBool True), (''phase'', JStr (str ''starting''))]"

definition named :: "(string \<times> json) list \<Rightarrow> (pystr \<times> json) list" where
  "named entries = map (\<lambda>(k, v). (str k, v)) entries"

definition set_status :: "(string \<times> json) list \<Rightarrow> ('z app_scheme, unit) eff" where
  "set_status entries = modify (status_items_update (update_all (named entries)))"

definition phase :: "string \<Rightarrow> string \<times> json" where
  "phase name = (''phase'', JStr (str name))"

definition print_line :: "pystr \<Rightarrow> ('z app_scheme, unit) eff" where
  "print_line line = modify (printed_update (\<lambda>ls. ls @ [line]))"

text \<open>What the status handler reports: the dictionary, and the session's state once there is a bridge.\<close>

definition get_status :: "(pystr \<times> json) list \<Rightarrow> (session_status \<times> rat) option \<Rightarrow> (pystr \<times> json) list" where
  "get_status items live = (case live of
      None \<Rightarrow> items
    | Some (st, idle) \<Rightarrow> update_all (named
        [(''stream_running'', JBool (is_running st)), (''stream_viewers'', JInt (int (viewer_count st))),
         (''stream_media_ready'', JBool (is_media_ready st)), (''idle_timeout_seconds'', JInt \<lfloor>idle\<rfloor>),
         (''clean_disconnect'', (case was_clean st of None \<Rightarrow> JNull | Some b \<Rightarrow> JBool b)),
         (''stream_error'', (case reported_error st of None \<Rightarrow> JNull | Some e \<Rightarrow> JStr (str e))),
         phase (if is_running st \<and> is_media_ready st then ''streaming''
                else if is_running st then ''camera_waking'' else ''bridge_ready'')]) items)"

section \<open>The vendor runtime\<close>

definition fail_if :: "exn option \<Rightarrow> ('s, unit) eff" where
  "fail_if e = (case e of None \<Rightarrow> ret () | Some x \<Rightarrow> raise x)"

definition run_command :: "pystr list \<Rightarrow> ('z app_scheme, unit) eff" where
  "run_command argv = modify (commands_update (\<lambda>cs. cs @ [argv]))"

definition required_files :: "platform \<Rightarrow> pystr list" where
  "required_files P = (VENDOR @ str ''/device_wakeup_server.dart'') #
     (if runtime_arch P = str ''aarch64'' then [LIBRARY P, VENDOR @ str ''/libvp_log.so''] else [])"

definition fetch_command :: "platform \<Rightarrow> pystr list" where
  "fetch_command P = [python_path P, str ''/opt/okam/tools/fetch_official_sdk.py'', str ''--destination'', VENDOR] @
     (if on_amd64 P then [str ''--wake-only''] else [])"

text \<open>The verdict on the loader's output.\<close>

definition loader_satisfied :: "json \<Rightarrow> exn + bool" where
  "loader_satisfied result = (case result of
      JObj d \<Rightarrow>
       (if json_get d ''hybris_load'' \<noteq> JBool True then Inr False
        else if \<not> has_key d (str ''symbols'') then Inl KeyError
        else case json_get d ''symbols'' of
          JObj symbols \<Rightarrow> Inr (list_all (\<lambda>kv. truthy (snd kv)) symbols)
        | _ \<Rightarrow> Inl AttributeError)
    | _ \<Rightarrow> Inl AttributeError)"

definition loader_ready :: "platform \<Rightarrow> ('z app_scheme, unit) eff" where
  "loader_ready P =
     seq (set_status [(''loader_ready'', JBool True), phase ''native_loader_ready'', (''runtime_arch'', JStr (runtime_arch P))])
       (print_line (str ''native_loader_ready=true''))"

definition load_vendor_runtime :: "platform \<Rightarrow> ('z app_scheme, unit) eff" where
  "load_vendor_runtime P =
     seq (set_status [phase ''fetching_vendor_sdk''])
     (seq (fail_if (mkdir_result P))
     (seq (when_do (list_ex (\<lambda>f. \<not> present P f) (required_files P))
            (seq (run_command (fetch_command P)) (fail_if (fetch_result P))))
     (if on_amd64 P then
        (if \<not> present P (CONNECT_HELPER P) then raise (RuntimeError ''native amd64 P2P helper is unavailable'')
         else loader_ready P)
      else if runtime_arch P \<noteq> str ''aarch64'' then raise (RuntimeError ''Home Assistant architecture is unsupported'')
      else
        seq (set_status [phase ''loading_arm64_sdk''])
        (seq (run_command [PROBE, LIBRARY P])
        (bind (lift_sum (loader_output P)) (\<lambda>out.
         bind (lift_sum (sbind (json_loads out) loader_satisfied)) (\<lambda>satisfied.
         if satisfied then loader_ready P
         else raise (RuntimeError ''native loader did not satisfy every required symbol''))))))))"

section \<open>Options and the account\<close>

definition load_options :: "('z app_scheme, (pystr \<times> json) list) eff" where
  "load_options = (\<lambda>s. case option_reads s of
      [] \<Rightarrow> (Halt, s)
    | None # r \<Rightarrow> (Ret [], s\<lparr>option_reads := r\<rparr>)
    | Some content # r \<Rightarrow> lift_sum
        (case sbind (read_text content) json_loads of
           Inl e \<Rightarrow> Inl (if e = OSError \<or> e = UnicodeError \<or> e = JSONDecodeError
                         then RuntimeError ''Home Assistant app options are invalid'' else e)
         | Inr (JObj d) \<Rightarrow> Inr d
         | Inr _ \<Rightarrow> Inl (RuntimeError ''Home Assistant app options are invalid'')) (s\<lparr>option_reads := r\<rparr>))"

text \<open>\<open>options.get("camera_id") or "cabin"\<close>.\<close>

definition camera_alias :: "(pystr \<times> json) list \<Rightarrow> json" where
  "camera_alias options =
     (if truthy (json_get options ''camera_id'') then json_get options ''camera_id'' else JStr (str ''cabin''))"

definition text_option :: "(pystr \<times> json) list \<Rightarrow> string \<Rightarrow> pystr option" where
  "text_option options name = (case json_get options name of JStr t \<Rightarrow> if t = [] then None else Some t | _ \<Rightarrow> None)"

definition alias_text :: "(pystr \<times> json) list \<Rightarrow> exn + pystr" where
  "alias_text options = (case camera_alias options of
      JStr a \<Rightarrow> Inr a | _ \<Rightarrow> Inl (RuntimeError ''camera alias is invalid''))"

definition enumerate_account :: "platform \<Rightarrow> ('z app_scheme, account_device option) eff" where
  "enumerate_account P =
     bind load_options (\<lambda>options.
     case (text_option options ''account_username'', text_option options ''account_password'') of
       (Some username, Some password) \<Rightarrow>
         bind (lift_sum (alias_text options)) (\<lambda>alias.
         seq (set_status [phase ''enumerating_account'', (''configuration_required'', JBool False)])
         (bind (enumerate_devices (classes P) username password) (\<lambda>devices.
          case devices of
            [device] \<Rightarrow>
              seq (set_status [(''account_ready'', JBool True), (''device_count'', JInt 1), (''camera_alias'', JStr alias),
                     phase ''account_enumerated''])
              (seq (print_line (str ''account_enumerated=true device_count=1'')) (ret (Some device)))
          | _ \<Rightarrow> raise (AccountError ''O-KAM account must expose exactly one camera''))))
     | _ \<Rightarrow> seq (set_status [(''configuration_required'', JBool True)]) (ret None))"

section \<open>Waking the camera\<close>

definition wake_once :: "pystr \<Rightarrow> wake_credentials \<Rightarrow> ('z app_scheme, wake_result) eff" where
  "wake_once did cred = (\<lambda>s. case wakes s of
      [] \<Rightarrow> (Halt, s)
    | links # r \<Rightarrow> (case wake_camera did cred 12 links of
        (q, links') \<Rightarrow> (q, s\<lparr>wakes := r, woken := woken s @ [links']\<rparr>)))"

fun is_wake_error :: "exn \<Rightarrow> bool" where
  "is_wake_error (WakeError _) = True"
| "is_wake_error _ = False"

definition require_credentials :: "platform \<Rightarrow> exn + wake_credentials" where
  "require_credentials P = sbind (load_wake_credentials (wake_source P)) (\<lambda>c. case c of
      None \<Rightarrow> Inl (WakeError ''official wake configuration was unavailable'') | Some cred \<Rightarrow> Inr cred)"

section \<open>Acceptance probes\<close>

datatype probe_mode = Probe_Connect | Probe_Auth | Probe_Stream | Probe_Snapshot

text \<open>Each test includes those before it; \<open>None\<close> when none is enabled.\<close>

definition enabled_probe :: "(pystr \<times> json) list \<Rightarrow> probe_mode option" where
  "enabled_probe options =
     (let on = (\<lambda>name. json_get options name = JBool True) in
      if on ''run_snapshot_test'' then Some Probe_Snapshot
      else if on ''run_stream_test'' then Some Probe_Stream
      else if on ''run_auth_test'' then Some Probe_Auth
      else if on ''run_connect_test'' then Some Probe_Connect else None)"

definition probe_flags :: "probe_mode option \<Rightarrow> (string \<times> json) list" where
  "probe_flags mode =
     [(''connect_test_enabled'', JBool (mode \<noteq> None)),
      (''auth_test_enabled'', JBool (mode \<noteq> None \<and> mode \<noteq> Some Probe_Connect)),
      (''stream_test_enabled'', JBool (mode = Some Probe_Stream \<or> mode = Some Probe_Snapshot)),
      (''snapshot_test_enabled'', JBool (mode = Some Probe_Snapshot))]"

text \<open>What a probe runs against.\<close>

record target_camera =
  client_id :: pystr
  service_parameter :: pystr
  camera_password :: pystr

text \<open>The next process runner, or for a snapshot the next operating system state.\<close>

definition with_runner :: "(runner \<Rightarrow> exn + 'r) \<Rightarrow> ('z app_scheme, 'r) eff" where
  "with_runner probe = (\<lambda>s. case runners s of
      [] \<Rightarrow> (Halt, s) | run # r \<Rightarrow> lift_sum (probe run) (s\<lparr>runners := r\<rparr>))"

definition with_site :: "(snapshot_locals, 'r) eff \<Rightarrow> ('z app_scheme, 'r) eff" where
  "with_site probe = (\<lambda>s. case sites s of
      [] \<Rightarrow> (Halt, s) | site # r \<Rightarrow> (fst (probe site), s\<lparr>sites := r\<rparr>))"

definition show_flag :: "bool \<Rightarrow> pystr" where
  "show_flag b = str (if b then ''true'' else ''false'')"

definition json_optional :: "int option \<Rightarrow> json" where
  "json_optional i = (case i of None \<Rightarrow> JNull | Some n \<Rightarrow> JInt n)"

definition clean_login :: "'z authentication_result_scheme \<Rightarrow> bool" where
  "clean_login r \<longleftrightarrow> res_connected r \<and> res_authenticated r \<and> res_disconnected r"

definition login_line :: "'z authentication_result_scheme \<Rightarrow> pystr" where
  "login_line r = join_with (str '' '')
     [str ''camera_authentication=false'', str ''connect_state='' @ show_int (res_connect_state r),
      str ''login_sent='' @ show_flag (res_login_sent r),
      str ''login_response_received='' @ show_flag (res_login_response_received r),
      str ''login_command='' @ show_optional ''None'' (res_login_command r),
      str ''login_result='' @ show_optional ''None'' (res_login_result r),
      str ''clean_disconnect='' @ show_flag (res_disconnected r)]"

definition report_login :: "'z authentication_result_scheme \<Rightarrow> evidence \<Rightarrow> ('y app_scheme, unit) eff" where
  "report_login r ev =
     seq (set_status [(''connect_state'', JInt (res_connect_state r)), (''login_sent'', JBool (res_login_sent r)),
            (''login_response_received'', JBool (res_login_response_received r)),
            (''login_result'', json_optional (res_login_result r)), (''clean_disconnect'', JBool (res_disconnected r))])
     (seq (when_do (res_authenticated r) (set_status [(''p2p_ready'', JBool True), (''camera_authenticated'', JBool True)]))
     (when_do (\<not> clean_login r) (seq (print_line (login_line r)) (print_line (diagnostic_line ev)))))"

definition stream_line :: "'z stream_probe_result_scheme \<Rightarrow> pystr" where
  "stream_line r = join_with (str '' '')
     [str ''h264_received=false'', str ''stream_start_sent='' @ show_flag (res_stream_start_sent r),
      str ''stream_stop_sent='' @ show_flag (res_stream_stop_sent r), str ''frames='' @ show_int (res_h264_frames r),
      str ''bytes='' @ show_int (res_h264_bytes r), str ''keyframe_seen='' @ show_flag (res_keyframe_seen r),
      str ''h265_frames='' @ show_int (res_h265_frames r), str ''clean_disconnect='' @ show_flag (res_disconnected r)]"

definition report_stream :: "'z stream_probe_result_scheme \<Rightarrow> ('y app_scheme, unit) eff" where
  "report_stream r = set_status
     [(''stream_start_sent'', JBool (res_stream_start_sent r)), (''stream_stop_sent'', JBool (res_stream_stop_sent r)),
      (''h264_frames'', JInt (res_h264_frames r)), (''h264_bytes'', JInt (res_h264_bytes r)),
      (''keyframe_seen'', JBool (res_keyframe_seen r)), (''h265_frames'', JInt (res_h265_frames r))]"

definition stream_missing :: "'z stream_probe_result_scheme \<Rightarrow> ('y app_scheme, bool) eff" where
  "stream_missing r =
     seq (print_line (stream_line r)) (seq (print_line (diagnostic_line (stream_evidence r))) (ret False))"

text \<open>One probe and its verdict: whether the acceptance is complete.\<close>

definition try_connect :: "platform \<Rightarrow> target_camera \<Rightarrow> nat \<Rightarrow> ('z app_scheme, int \<times> bool) eff" where
  "try_connect P cam turn =
     bind (with_runner (\<lambda>run. run_connect_probe run (CONNECT_HELPER P) (LIBRARY P) (client_id cam) (service_parameter cam)
            (p2p_environment P) 55)) (\<lambda>r.
     if was_connected r \<and> was_disconnected r then
       seq (set_status [(''p2p_ready'', JBool True), phase ''p2p_connected'', (''connect_attempt'', JInt (int turn))])
       (seq (print_line (str ''p2p_connected=true clean_disconnect=true'')) (ret (state_reached r, True)))
     else ret (state_reached r, False))"

definition try_login :: "platform \<Rightarrow> target_camera \<Rightarrow> nat \<Rightarrow> ('z app_scheme, int \<times> bool) eff" where
  "try_login P cam turn =
     bind (with_runner (\<lambda>run. run_authentication_probe run (CONNECT_HELPER P) (LIBRARY P) (client_id cam)
            (service_parameter cam) (camera_password cam) (p2p_environment P) 75)) (\<lambda>r.
     seq (report_login r (authentication_evidence r))
     (if clean_login r then
        seq (set_status [(''p2p_ready'', JBool True), (''camera_authenticated'', JBool True), phase ''camera_authenticated'',
               (''connect_attempt'', JInt (int turn)), (''login_command'', json_optional (res_login_command r)),
               (''login_result'', json_optional (res_login_result r))])
        (seq (print_line (str ''camera_authenticated=true clean_disconnect=true'')) (ret (res_connect_state r, True)))
      else ret (res_connect_state r, False)))"

definition try_stream :: "platform \<Rightarrow> target_camera \<Rightarrow> nat \<Rightarrow> ('z app_scheme, int \<times> bool) eff" where
  "try_stream P cam turn =
     bind (with_runner (\<lambda>run. run_stream_probe run (CONNECT_HELPER P) (LIBRARY P) (client_id cam)
            (service_parameter cam) (camera_password cam) (p2p_environment P) 125)) (\<lambda>r.
     seq (report_login r (stream_evidence r))
     (seq (report_stream r)
     (bind (if res_h264_received r \<and> res_disconnected r then
              seq (set_status [(''h264_ready'', JBool True), phase ''h264_received'', (''connect_attempt'', JInt (int turn))])
              (seq (print_line (str ''h264_received=true frames='' @ show_int (res_h264_frames r) @ str '' bytes='' @
                      show_int (res_h264_bytes r) @ str '' clean_disconnect=true''))
                (ret True))
            else stream_missing r) (\<lambda>complete. ret (res_connect_state r, complete)))))"

definition try_snapshot :: "platform \<Rightarrow> target_camera \<Rightarrow> nat \<Rightarrow> ('z app_scheme, int \<times> bool) eff" where
  "try_snapshot P cam turn =
     bind (with_site (run_snapshot_probe (CONNECT_HELPER P) (LIBRARY P) FFMPEG (client_id cam)
            (service_parameter cam) (camera_password cam))) (\<lambda>r.
     seq (report_login r (stream_evidence r))
     (seq (report_stream r)
     (bind (if res_h264_received r \<and> res_disconnected r then
              seq (set_status [(''h264_ready'', JBool True), (''snapshot_ready'', JBool True),
                     (''snapshot_bytes'', JInt (int (length (res_jpeg r)))), (''snapshot_width'', JInt (int (res_width r))),
                     (''snapshot_height'', JInt (int (res_height r))), phase ''snapshot_created'',
                     (''connect_attempt'', JInt (int turn))])
              (seq (print_line (str ''snapshot_created=true width='' @ show_int (int (res_width r)) @ str '' height='' @
                      show_int (int (res_height r)) @ str '' bytes='' @ show_int (int (length (res_jpeg r))) @
                      str '' clean_disconnect=true''))
                (ret True))
            else stream_missing r) (\<lambda>complete. ret (res_connect_state r, complete)))))"

definition try_probe :: "platform \<Rightarrow> probe_mode \<Rightarrow> target_camera \<Rightarrow> nat \<Rightarrow> ('z app_scheme, int \<times> bool) eff" where
  "try_probe P mode cam turn = (case mode of
      Probe_Connect \<Rightarrow> try_connect P cam turn | Probe_Auth \<Rightarrow> try_login P cam turn
    | Probe_Stream \<Rightarrow> try_stream P cam turn | Probe_Snapshot \<Rightarrow> try_snapshot P cam turn)"

text \<open>One attempt wakes the camera, a failure to do so being tolerated, and probes it; the locals are
  whether a wake-up was ever requested and the largest number of servers that answered.\<close>

definition wake_attempt :: "pystr \<Rightarrow> wake_credentials \<Rightarrow> bool \<times> nat \<Rightarrow> ('z app_scheme, bool \<times> nat) eff" where
  "wake_attempt did cred l =
     catch (bind (wake_once did cred) (\<lambda>w. ret (fst l \<or> wake_requested w, max (snd l) (responsive_servers w))))
       (\<lambda>e. if is_wake_error e then ret l else raise e)"

definition attempt_once ::
    "platform \<Rightarrow> probe_mode \<Rightarrow> pystr \<Rightarrow> wake_credentials \<Rightarrow> target_camera \<Rightarrow> nat \<Rightarrow> bool \<times> nat \<Rightarrow>
      ('z app_scheme, (bool \<times> nat) \<times> int \<times> bool) eff" where
  "attempt_once P mode did cred cam turn l =
     seq (set_status [phase ''waking_camera'', (''connect_attempt'', JInt (int turn))])
     (bind (wake_attempt did cred l) (\<lambda>l'.
     seq (set_status [(''wake_requested'', JBool (fst l')), (''wake_responsive_servers'', JInt (int (snd l'))),
            phase ''connecting_p2p''])
     (bind (try_probe P mode cam turn) (\<lambda>result. ret (l', result)))))"

text \<open>\<open>for attempt in range(1, 4)\<close>, from an attempt on.\<close>

primrec attempts ::
    "platform \<Rightarrow> probe_mode \<Rightarrow> pystr \<Rightarrow> wake_credentials \<Rightarrow> target_camera \<Rightarrow> nat list \<Rightarrow> bool \<times> nat \<Rightarrow> int \<Rightarrow>
      ('z app_scheme, unit) eff" where
  "attempts P mode did cred cam [] l last_state =
     seq (set_status [(''connect_state'', JInt last_state)])
       (raise (P2PError ''camera did not establish a native P2P session''))"
| "attempts P mode did cred cam (turn # rest) l last_state =
     bind (attempt_once P mode did cred cam turn l) (\<lambda>(l', state, complete).
     if complete then ret ()
     else
       seq (when_do (turn < 3) (modify (pauses_update Suc)))
         (attempts P mode did cred cam rest l' state))"

definition target_of :: "platform \<Rightarrow> pystr \<Rightarrow> pystr \<Rightarrow> exn + target_camera" where
  "target_of P did password =
     sbind (resolve_client_id (classes P) (directory P) (JStr did)) (\<lambda>client.
     sbind (get_service_parameter (classes P) (directory P) (JStr client)) (\<lambda>service.
     Inr \<lparr>client_id = client, service_parameter = service, camera_password = password\<rparr>))"

definition run_p2p_acceptance :: "platform \<Rightarrow> account_device \<Rightarrow> ('z app_scheme, unit) eff" where
  "run_p2p_acceptance P device =
     bind load_options (\<lambda>options.
     let mode = enabled_probe options in
     seq (set_status (probe_flags mode))
     (case mode of
        None \<Rightarrow> ret ()
      | Some m \<Rightarrow>
         bind (lift_sum (select_camera_password (JStr (device_password device)) (json_get options ''camera_password'')))
           (\<lambda>password.
         bind (lift_sum (require_credentials P)) (\<lambda>cred.
         bind (lift_sum (target_of P (device_uid device) password)) (\<lambda>cam.
         attempts P m (device_uid device) cred cam [1, 2, 3] (False, 0) (- 1))))))"

section \<open>The bridge\<close>

definition token_option :: "(pystr \<times> json) list \<Rightarrow> pystr option" where
  "token_option options = (case json_get options ''api_token'' of
      JStr t \<Rightarrow> if 16 \<le> length t \<and> length t \<le> 1024 then Some t else None | _ \<Rightarrow> None)"

definition idle_option :: "(pystr \<times> json) list \<Rightarrow> exn + int" where
  "idle_option options =
     (let v = dict_get options (str ''idle_timeout_seconds'') (JInt 120) in
      if is_int v \<and> 10 \<le> as_int v \<and> as_int v \<le> 600 then Inr (as_int v)
      else Inl (RuntimeError ''idle timeout is invalid''))"

definition publish :: "live_bridge \<Rightarrow> ('z app_scheme, unit) eff" where
  "publish b = modify (published_update (\<lambda>_. Some b))"

definition live_settings ::
    "platform \<Rightarrow> account_device \<Rightarrow> (pystr \<times> json) list \<Rightarrow> pystr \<Rightarrow> pystr \<Rightarrow> exn + live_bridge" where
  "live_settings P device options password token =
     sbind (alias_text options) (\<lambda>alias.
     sbind (idle_option options) (\<lambda>idle.
     sbind (require_credentials P) (\<lambda>cred.
     sbind (target_of P (device_uid device) password) (\<lambda>cam.
     Inr \<lparr>served = \<lparr>camera_id = alias, camera_name = device_name device, api_token = token,
            stream_token = fresh_secret P, ffmpeg_path = FFMPEG\<rparr>,
          session_idle = of_int idle, camera_did = device_uid device, camera_client = client_id cam,
          camera_service = service_parameter cam, camera_secret = password, camera_credentials = cred\<rparr>))))"

definition configure_bridge :: "platform \<Rightarrow> account_device \<Rightarrow> ('z app_scheme, live_bridge option) eff" where
  "configure_bridge P device =
     bind load_options (\<lambda>options.
     bind (lift_sum (select_camera_password (JStr (device_password device)) (json_get options ''camera_password'')))
       (\<lambda>password.
     case token_option options of
       None \<Rightarrow>
         seq (set_status [(''configuration_required'', JBool True), (''camera_ready'', JBool False), phase ''api_token_required''])
         (seq (print_line (str ''bridge_ready=false configuration_required=api_token'')) (ret None))
     | Some token \<Rightarrow>
         bind (lift_sum (live_settings P device options password token)) (\<lambda>live.
         seq (publish live)
         (seq (set_status [(''camera_ready'', JBool True), (''configuration_required'', JBool False), phase ''bridge_ready'',
                 (''idle_timeout_seconds'', JInt \<lfloor>session_idle live\<rfloor>)])
         (seq (print_line (str ''bridge_ready=true camera_count=1'')) (ret (Some live)))))))"

text \<open>The starter that the session calls for its first viewer.\<close>

definition start_stream :: "platform \<Rightarrow> live_bridge \<Rightarrow> (app \<times> 'z snapshot_locals_scheme, nat) eff" where
  "start_stream P b =
     seq (on_fst (set_status [phase ''waking_camera_on_demand'']))
     (seq (on_fst (catch
        (bind (wake_once (camera_did b) (camera_credentials b)) (\<lambda>w.
          set_status [(''wake_requested'', JBool (wake_requested w)),
            (''wake_responsive_servers'', JInt (int (responsive_servers w))), phase ''starting_native_stream'']))
        (\<lambda>e. if is_wake_error e then set_status [phase ''starting_native_stream''] else raise e)))
     (on_snd (open_stream_process (CONNECT_HELPER P) (LIBRARY P) (camera_client b) (camera_service b) (camera_secret b))))"

section \<open>The main program\<close>

definition underscored :: "pystr \<Rightarrow> pystr" where
  "underscored s = map (\<lambda>c. if c = 32 then 95 else c) s"

fun error_detail :: "exn \<Rightarrow> pystr option" where
  "error_detail (P2PError m) = Some (underscored (str m))"
| "error_detail _ = None"

definition report_failure :: "platform \<Rightarrow> exn \<Rightarrow> ('z app_scheme, unit) eff" where
  "report_failure P e =
     bind (gets status_items) (\<lambda>items.
     if \<not> has_key items (str ''loader_ready'') then raise KeyError
     else
       seq (set_status [phase (if truthy (json_get items ''loader_ready'') then ''startup_error'' else ''native_loader_error''),
              (''error'', JStr (class_name P e)),
              (''error_detail'', (case error_detail e of None \<Rightarrow> JNull | Some d \<Rightarrow> JStr d))])
         (print_line (str ''startup_ready=false error='' @ class_name P e @
            (case error_detail e of None \<Rightarrow> [] | Some d \<Rightarrow> if d = [] then [] else str '' detail='' @ d))))"

definition start_up :: "platform \<Rightarrow> ('z app_scheme, unit) eff" where
  "start_up P =
     catch
       (seq (load_vendor_runtime P)
       (bind (enumerate_account P) (\<lambda>device.
        case device of
          None \<Rightarrow> ret ()
        | Some d \<Rightarrow> seq (run_p2p_acceptance P d) (bind (configure_bridge P d) (\<lambda>_. ret ())))))
       (report_failure P)"

text \<open>After the start the program waits to be stopped while the server's threads run the session; then it
  closes the session, which terminates a process left behind, and exits with status zero. The server
  socket is opened first.\<close>

definition close_bridge :: "(app \<times> world \<times> 'z os_scheme, unit) eff" where
  "close_bridge = (\<lambda>(a, w, s). case published a of
      None \<Rightarrow> (Ret (), (a, w, s))
    | Some b \<Rightarrow> (case process w of
        None \<Rightarrow> (Ret (), (a, end_session w, s))
      | Some p \<Rightarrow> (case terminate p s of (r, s') \<Rightarrow> (r, (a, end_session w, s')))))"

definition main :: "platform \<Rightarrow> exn option \<Rightarrow> (world \<Rightarrow> world) \<Rightarrow> (app \<times> world \<times> 'z os_scheme, int) eff" where
  "main P bind_error served_until_stop =
     (case bind_error of
        Some e \<Rightarrow> raise e
      | None \<Rightarrow>
         seq (on_fst (start_up P))
         (seq (modify (\<lambda>(a, w, s). (a, served_until_stop w, s)))
         (seq close_bridge (ret 0))))"

section \<open>What the steps leave alone\<close>

lemma map_of_update_all: "map_of (update_all entries d) = map_of d ++ map_of (rev entries)"
proof (induction entries arbitrary: d)
  case (Cons e entries)
  obtain k v where e: "e = (k, v)" by (cases e)
  have "map_of (update_all (e # entries) d) = map_of (update_all entries (AList.update k v d))"
    by (simp add: update_all_def e)
  then show ?case by (simp add: Cons e update_conv' map_add_upd_left map_add_def fun_eq_iff split: option.split)
qed (simp add: update_all_def)

lemma json_get_update_all:
  "json_get (update_all (named entries) d) n =
     (case map_of (rev entries) n of None \<Rightarrow> json_get d n | Some v \<Rightarrow> v)"
proof -
  have "map_of (named es) (str n) = map_of es n" for es :: "(string \<times> json) list"
    by (induction es) (auto simp: named_def)
  moreover have "rev (named entries) = named (rev entries)" by (simp add: named_def rev_map)
  ultimately show ?thesis
    by (simp add: json_get_def dict_get_def map_of_update_all map_add_def split: option.split)
qed

lemma has_key_update_all: "has_key d k \<Longrightarrow> has_key (update_all entries d) k"
  by (auto simp: has_key_iff map_of_update_all map_add_def split: option.split)

text \<open>The part of the state that only the loader and the publication of the bridge change.\<close>

definition looks :: "'z app_scheme \<Rightarrow> live_bridge option \<times> json \<times> bool" where
  "looks s = (published s, json_get (status_items s) ''loader_ready'', has_key (status_items s) (str ''loader_ready''))"

lemma set_status_looks:
  "''loader_ready'' \<notin> fst ` set entries \<Longrightarrow> steps_by (same_on looks) (set_status entries)"
proof -
  assume n: "''loader_ready'' \<notin> fst ` set entries"
  then have "map_of (rev (named entries)) (str ''loader_ready'') = None"
    by (auto simp: named_def map_of_eq_None_iff image_iff)
  moreover have "map_of (rev entries) ''loader_ready'' = None" using n by (auto simp: map_of_eq_None_iff)
  ultimately show ?thesis
    by (simp add: steps_by_def same_on_def set_status_def looks_def json_get_update_all has_key_iff map_of_update_all map_add_def)
qed

lemma more_steps: "steps_by (same_on http_log.more) (urlopen q d)"
  by (auto simp: steps_by_def same_on_def urlopen_def lift_sum_def split: list.split sum.split)

lemma account_more: "steps_by (same_on http_log.more) (enumerate_devices db u p)"
proof -
  note rules = two_state.step_rules [OF two_state_same_on [of http_log.more]] more_steps
  have json: "steps_by (same_on http_log.more) (account_json m q query form)" for m q query form
    unfolding account_json_def account_open_def by (intro rules)
  have "steps_by (same_on http_log.more) (case j of JList items \<Rightarrow> ret (concat (map listed_device items)) | _ \<Rightarrow> raise e)" for j e
    by (auto intro: rules split: json.split)
  then show ?thesis
    unfolding enumerate_devices_def by (intro rules json)
qed

lemma looks_of_more: "http_log.more t = http_log.more s \<Longrightarrow> looks t = looks s"
  by (cases s; cases t) (simp add: looks_def)

lemma app_steps:
  "steps_by (same_on looks) load_options" "steps_by (same_on looks) (wake_once did cred)"
  "steps_by (same_on looks) (with_runner probe)" "steps_by (same_on looks) (with_site site)"
  "steps_by (same_on looks) (print_line line)" "steps_by (same_on looks) (run_command argv)"
  "steps_by (same_on looks) (modify (pauses_update f))" "steps_by (same_on looks) (fail_if e)"
  by (auto simp: steps_by_def same_on_def looks_def load_options_def wake_once_def with_runner_def with_site_def
    print_line_def run_command_def fail_if_def lift_sum_def
    split: list.split option.split sum.split json.split prod.split)

lemma enumerate_devices_looks: "steps_by (same_on looks) (enumerate_devices db u p)"
  using account_more [of db u p] by (auto simp: steps_by_def same_on_def intro!: looks_of_more)

lemmas looks_rules = two_state.step_rules [OF two_state_same_on [of looks]] app_steps enumerate_devices_looks set_status_looks

lemma device_list_step:
  "steps_by R m \<Longrightarrow> (\<And>d. steps_by R (f d)) \<Longrightarrow> steps_by R (case ds of [d] \<Rightarrow> f d | _ \<Rightarrow> m)"
  by (simp split: list.split)

lemma enumerate_account_looks: "steps_by (same_on looks) (enumerate_account P)"
  unfolding enumerate_account_def by (intro looks_rules device_list_step; simp add: phase_def)

lemma report_looks: "steps_by (same_on looks) (report_login r ev)" "steps_by (same_on looks) (report_stream q)"
  "steps_by (same_on looks) (stream_missing q)"
  unfolding report_login_def report_stream_def stream_missing_def by (intro looks_rules; simp)+

lemma try_probe_looks: "steps_by (same_on looks) (try_probe P mode cam n)"
  unfolding try_probe_def try_connect_def try_login_def try_stream_def try_snapshot_def
  by (cases mode; simp; intro looks_rules report_looks; simp add: phase_def)

lemma attempts_looks: "steps_by (same_on looks) (attempts P mode did cred cam ns l st)"
proof (induction ns arbitrary: l st)
  case (Cons n ns)
  have "steps_by (same_on looks) (attempt_once P mode did cred cam n l)"
    unfolding attempt_once_def wake_attempt_def by (intro looks_rules try_probe_looks; simp add: phase_def)
  then show ?case
    unfolding attempts.simps by (intro looks_rules Cons.IH)
qed (simp, intro looks_rules; simp)

lemma acceptance_looks: "steps_by (same_on looks) (run_p2p_acceptance P d)"
  unfolding run_p2p_acceptance_def
  by (intro looks_rules attempts_looks; simp add: probe_flags_def)

text \<open>Whatever happens, the status keeps its loader entry, and only the last step publishes a bridge.\<close>

definition prepares :: "'z app_scheme \<Rightarrow> 'z app_scheme \<Rightarrow> bool" where
  "prepares s t \<longleftrightarrow> published t = published s \<and>
     (has_key (status_items s) (str ''loader_ready'') \<longrightarrow> has_key (status_items t) (str ''loader_ready''))"

lemma two_state_prepares: "two_state prepares"
  by unfold_locales (auto simp: prepares_def)

lemma looks_prepares: "steps_by (same_on looks) m \<Longrightarrow> steps_by prepares m"
  by (auto simp: steps_by_def same_on_def looks_def prepares_def)

lemma set_status_prepares: "steps_by prepares (set_status entries)"
  by (simp add: steps_by_def prepares_def set_status_def has_key_update_all)

lemmas prepares_rules = two_state.step_rules [OF two_state_prepares] set_status_prepares app_steps [THEN looks_prepares]

lemma loader_prepares: "steps_by prepares (load_vendor_runtime P)"
  unfolding load_vendor_runtime_def loader_ready_def by (intro prepares_rules)

lemma loader_ready_Ret: "loader_ready P s = (Ret (), t) \<Longrightarrow> json_get (status_items t) ''loader_ready'' = JBool True"
  by (auto simp: loader_ready_def seq_eq_Ret set_status_def print_line_def json_get_update_all phase_def)

lemma load_vendor_Ret: "load_vendor_runtime P s = (Ret (), t) \<Longrightarrow> json_get (status_items t) ''loader_ready'' = JBool True"
  unfolding load_vendor_runtime_def
  by (auto simp: seq_eq_Ret bind_eq_Ret split: if_splits dest: loader_ready_Ret)

text \<open>A bridge that may be served.\<close>

definition bridge_guarded :: "live_bridge \<Rightarrow> bool" where
  "bridge_guarded b \<longleftrightarrow> 16 \<le> length (api_token (served b)) \<and> length (api_token (served b)) \<le> 1024 \<and>
     10 \<le> session_idle b \<and> session_idle b \<le> 600"

lemma live_settings_guarded:
  "live_settings P d options password token = Inr b \<Longrightarrow> token_option options = Some token \<Longrightarrow> bridge_guarded b"
  by (auto simp: live_settings_def sbind_eq_Inr token_option_def idle_option_def bridge_guarded_def Let_def
    split: json.splits if_splits)

lemma configure_bridge_cases:
  assumes "configure_bridge P d s = (r, t)"
  obtains (None) "looks t = looks s" "\<And>b. r \<noteq> Ret (Some b)"
  | (Some) b where "r = Ret (Some b)" "published t = Some b" "bridge_guarded b" "snd (looks t) = snd (looks s)"
      "json_get (status_items t) ''camera_ready'' = JBool True"
  using assms unfolding configure_bridge_def
proof (cases rule: bind_cases)
  case (Ret options u)
  have u: "looks u = looks s" using steps_byD [OF app_steps(1) Ret(1)] by (simp add: same_on_def)
  let ?pw = "select_camera_password (JStr (device_password d)) (json_get options ''camera_password'')"
  show ?thesis
  proof (cases "token_option options")
    case no: None
    let ?m = "bind (lift_sum ?pw) (\<lambda>password. seq (set_status [(''configuration_required'', JBool True),
        (''camera_ready'', JBool False), phase ''api_token_required''])
      (seq (print_line (str ''bridge_ready=false configuration_required=api_token'')) (ret None)))"
    have run: "?m u = (r, t)" using Ret(2) no by simp
    have "steps_by (same_on looks) ?m" by (intro looks_rules; simp add: phase_def)
    from steps_byD [OF this run] u have "looks t = looks s" by (simp add: same_on_def)
    moreover have "r \<noteq> Ret (Some b)" for b using run by (auto simp: bind_eq_Ret seq_eq_Ret)
    ultimately show ?thesis by (intro None)
  next
    case tok: (Some token)
    show ?thesis
    proof (cases "sbind ?pw (\<lambda>p. live_settings P d options p token)")
      case (Inl e)
      then have "t = u \<and> r = Raise e"
        using Ret(2) tok by (auto simp: lift_sum_def sbind_def split: sum.splits)
      with u None show ?thesis by simp
    next
      case (Inr b)
      then obtain p where p: "?pw = Inr p" and l: "live_settings P d options p token = Inr b" by (auto simp: sbind_eq_Inr)
      note run = Ret(2) [unfolded tok option.case p lift_sum_def sum.case bind_ret l]
      from run have "r = Ret (Some b)" "published t = Some b"
        and st: "status_items t = update_all (named [(''camera_ready'', JBool True), (''configuration_required'', JBool False),
          phase ''bridge_ready'', (''idle_timeout_seconds'', JInt \<lfloor>session_idle b\<rfloor>)]) (status_items u)"
        by (auto simp: seq_def bind_def publish_def set_status_def print_line_def)
      moreover have "json_get (status_items t) ''loader_ready'' = json_get (status_items u) ''loader_ready''"
        by (simp add: st json_get_update_all phase_def)
      moreover have "has_key (status_items t) (str ''loader_ready'') = has_key (status_items u) (str ''loader_ready'')"
        by (simp add: st has_key_iff map_of_update_all named_def phase_def)
      moreover have "snd (looks t) = snd (looks s)"
        using u calculation by (simp add: looks_def)
      moreover have "bridge_guarded b" by (rule live_settings_guarded [OF l tok])
      ultimately show ?thesis
        by (intro Some) (simp_all add: json_get_update_all phase_def)
    qed
  qed
qed (auto simp: same_on_def intro: None dest: steps_byD [OF app_steps(1)])

section \<open>Starting up\<close>

text \<open>The part of the start that may fail.\<close>

definition start_body :: "platform \<Rightarrow> ('z app_scheme, unit) eff" where
  "start_body P =
     seq (load_vendor_runtime P)
     (bind (enumerate_account P) (\<lambda>device.
      case device of
        None \<Rightarrow> ret ()
      | Some d \<Rightarrow> seq (run_p2p_acceptance P d) (bind (configure_bridge P d) (\<lambda>_. ret ()))))"

lemma start_up_eq: "start_up P = catch (start_body P) (report_failure P)"
  by (simp add: start_up_def start_body_def)

lemma start_body_cases:
  assumes "start_body P s = (r, t)"
  obtains (Unpublished) "prepares s t"
  | (Published) b where "r = Ret ()" "published t = Some b" "bridge_guarded b"
      "json_get (status_items t) ''loader_ready'' = JBool True" "json_get (status_items t) ''camera_ready'' = JBool True"
  using assms unfolding start_body_def seq_def
proof (cases rule: bind_cases)
  case (Ret x u)
  have u: "prepares s u" by (rule steps_byD [OF loader_prepares Ret(1)])
  have lr: "json_get (status_items u) ''loader_ready'' = JBool True" by (rule load_vendor_Ret) (use Ret(1) in simp)
  from Ret(2) show ?thesis
  proof (cases rule: bind_cases)
    case device: (Ret device v)
    have v: "looks v = looks u" using steps_byD [OF enumerate_account_looks device(1)] by (simp add: same_on_def)
    show ?thesis
    proof (cases device)
      case None
      with device(2) u v show ?thesis by (intro Unpublished) (auto simp: prepares_def looks_def)
    next
      case (Some d)
      from device(2) [unfolded Some option.case] show ?thesis
      proof (cases rule: bind_cases)
        case acc: (Ret y w)
        have w: "looks w = looks u" using steps_byD [OF acceptance_looks acc(1)] v by (simp add: same_on_def)
        obtain q z where q: "configure_bridge P d w = (q, z)" by (cases "configure_bridge P d w")
        with acc(2) have tz: "t = z" "\<And>x. q = Ret x \<Longrightarrow> r = Ret ()" by (auto simp: bind_def split: outcome.splits)
        from q show ?thesis
        proof (cases rule: configure_bridge_cases)
          case None
          with u w tz show ?thesis by (intro Unpublished) (auto simp: prepares_def looks_def)
        next
          case (Some b)
          with tz w lr show ?thesis by (intro Published [of b]) (auto simp: looks_def)
        qed
      qed (use u v in \<open>auto intro!: Unpublished dest!: steps_byD [OF acceptance_looks] simp: same_on_def prepares_def looks_def\<close>)
    qed
  qed (use u in \<open>auto intro!: Unpublished dest!: steps_byD [OF enumerate_account_looks] simp: same_on_def prepares_def looks_def\<close>)
qed (auto intro!: Unpublished dest: steps_byD [OF loader_prepares])

lemma report_failure_Ret:
  assumes "has_key (status_items s) (str ''loader_ready'')"
  shows "\<exists>t. report_failure P e s = (Ret (), t) \<and> published t = published s"
  using assms by (simp add: report_failure_def bind_gets seq_def bind_def set_status_def print_line_def)

lemma start_up_cases:
  assumes "start_up P s = (r, t)" "has_key (status_items s) (str ''loader_ready'')"
  obtains (Unpublished) "published t = published s" "\<And>e. r \<noteq> Raise e"
  | (Published) b where "r = Ret ()" "published t = Some b" "bridge_guarded b"
      "json_get (status_items t) ''loader_ready'' = JBool True" "json_get (status_items t) ''camera_ready'' = JBool True"
proof -
  obtain q u where q: "start_body P s = (q, u)" by (cases "start_body P s")
  from q show ?thesis
  proof (cases rule: start_body_cases)
    case prep: Unpublished
    with assms(2) have k: "has_key (status_items u) (str ''loader_ready'')" "published u = published s"
      by (auto simp: prepares_def)
    show ?thesis
    proof (cases q)
      case (Raise e)
      obtain t' where "report_failure P e u = (Ret (), t')" "published t' = published u"
        using report_failure_Ret [OF k(1)] by blast
      with assms(1) q k(2) Raise show ?thesis by (intro Unpublished) (auto simp: start_up_eq catch_def)
    qed (use assms(1) q k(2) in \<open>auto simp: start_up_eq catch_def intro: Unpublished\<close>)
  next
    case (Published b)
    with assms(1) q that(2) [of b] show ?thesis by (simp add: start_up_eq catch_def)
  qed
qed



section \<open>The acceptance\<close>

lemma woken_steps:
  "steps_by (same_on woken) load_options" "steps_by (same_on woken) (set_status entries)"
  "steps_by (same_on woken) (with_runner probe)" "steps_by (same_on woken) (with_site site)"
  "steps_by (same_on woken) (print_line line)" "steps_by (same_on woken) (modify (pauses_update f))"
  by (auto simp: steps_by_def same_on_def load_options_def with_runner_def with_site_def set_status_def
    print_line_def lift_sum_def split: list.split option.split sum.split json.split prod.split)

lemmas woken_rules = two_state.step_rules [OF two_state_same_on [of woken]] woken_steps

lemma report_woken: "steps_by (same_on woken) (report_login r ev)" "steps_by (same_on woken) (report_stream q)"
  "steps_by (same_on woken) (stream_missing q)"
  unfolding report_login_def report_stream_def stream_missing_def by (intro woken_rules)+

lemma try_probe_woken: "steps_by (same_on woken) (try_probe P mode cam n)"
  unfolding try_probe_def try_connect_def try_login_def try_stream_def try_snapshot_def
  by (cases mode; simp; intro woken_rules report_woken)

lemma wake_attempt_woken: "wake_attempt did cred l s = (r, t) \<Longrightarrow> length (woken t) \<le> Suc (length (woken s))"
  by (auto simp: wake_attempt_def wake_once_def catch_def bind_def split: list.splits prod.splits outcome.splits if_splits)

lemma attempt_once_woken:
  assumes "attempt_once P mode did cred cam n l s = (r, t)"
  shows "length (woken t) \<le> Suc (length (woken s))"
proof -
  let ?rest = "\<lambda>l'. seq (set_status [(''wake_requested'', JBool (fst l')), (''wake_responsive_servers'', JInt (int (snd l'))),
            phase ''connecting_p2p'']) (bind (try_probe P mode cam n) (\<lambda>result. ret (l', result)))"
  let ?u = "status_items_update (update_all (named [phase ''waking_camera'', (''connect_attempt'', JInt (int n))])) s"
  have run: "bind (wake_attempt did cred l) ?rest ?u = (r, t)"
    using assms by (simp add: attempt_once_def seq_def bind_def set_status_def)
  have rest: "steps_by (same_on woken) (?rest l')" for l' by (intro woken_rules try_probe_woken)
  from run show ?thesis
  proof (cases rule: bind_cases)
    case (Ret l' v)
    with wake_attempt_woken [OF Ret(1)] steps_byD [OF rest Ret(2)] show ?thesis by (simp add: same_on_def)
  qed (auto dest: wake_attempt_woken)
qed

text \<open>The gate of the readiness probe that a successful probe opens.\<close>

fun gate_of :: "probe_mode \<Rightarrow> string" where
  "gate_of Probe_Connect = ''p2p_ready''"
| "gate_of Probe_Auth = ''camera_authenticated''"
| "gate_of Probe_Stream = ''h264_ready''"
| "gate_of Probe_Snapshot = ''snapshot_ready''"

lemma try_probe_complete:
  assumes "try_probe P mode cam n s = (Ret (st, True), t)"
  shows "json_get (status_items t) (gate_of mode) = JBool True"
  using assms
  by (cases mode)
    (auto simp: try_probe_def try_connect_def try_login_def try_stream_def try_snapshot_def stream_missing_def
      bind_eq_Ret seq_eq_Ret set_status_def print_line_def json_get_update_all phase_def split: if_splits)

lemma attempts_cases:
  assumes "attempts P mode did cred cam ns l st s = (r, t)"
  shows "length (woken t) \<le> length (woken s) + length ns \<and>
    (r = Ret () \<longrightarrow> json_get (status_items t) (gate_of mode) = JBool True)"
  using assms
proof (induction ns arbitrary: l st s)
  case Nil
  then show ?case by (auto simp: seq_def bind_def set_status_def)
next
  case (Cons n ns)
  from Cons.prems show ?case
    unfolding attempts.simps
  proof (cases rule: bind_cases)
    case (Ret x u)
    obtain l' state complete where x: "x = (l', state, complete)" by (cases x)
    note w = attempt_once_woken [OF Ret(1)]
    show ?thesis
    proof (cases complete)
      case True
      then have "json_get (status_items u) (gate_of mode) = JBool True"
        using Ret(1) x by (auto simp: attempt_once_def bind_eq_Ret seq_eq_Ret dest: try_probe_complete)
      with Ret(2) x True w show ?thesis by simp
    next
      case False
      let ?v = "if n < 3 then pauses_update Suc u else u"
      have v: "woken ?v = woken u" by simp
      have "attempts P mode did cred cam ns l' state ?v = (r, t)"
        using Ret(2) x False by (simp add: seq_def bind_def when_do_def split: if_splits)
      from Cons.IH [OF this] v w show ?thesis by simp
    qed
  qed (auto dest: attempt_once_woken)
qed

lemma acceptance_cases:
  assumes "run_p2p_acceptance P d s = (r, t)"
  shows "length (woken t) \<le> length (woken s) + 3 \<and> (r = Ret () \<longrightarrow> (\<exists>options u. load_options s = (Ret options, u) \<and>
    (case enabled_probe options of None \<Rightarrow> woken t = woken s | Some m \<Rightarrow> json_get (status_items t) (gate_of m) = JBool True)))"
  using assms unfolding run_p2p_acceptance_def Let_def
proof (cases rule: bind_cases)
  case (Ret options u)
  have u: "woken u = woken s" using steps_byD [OF woken_steps(1) Ret(1)] by (simp add: same_on_def)
  define v where "v = status_items_update (update_all (named (probe_flags (enabled_probe options)))) u"
  have v: "woken v = woken s" by (simp add: v_def u)
  show ?thesis
  proof (cases "enabled_probe options")
    case None
    with Ret(2) u v show ?thesis using Ret(1) by (auto simp: seq_def bind_def set_status_def v_def)
  next
    case (Some m)
    let ?password = "select_camera_password (JStr (device_password d)) (json_get options ''camera_password'')"
    show ?thesis
    proof (cases "sbind ?password (\<lambda>p. sbind (require_credentials P) (\<lambda>cred. sbind (target_of P (device_uid d) p) (\<lambda>cam. Inr (cred, cam))))")
      case (Inl e)
      then have "r = Raise e \<and> t = v"
        using Ret(2) Some by (auto simp: seq_def bind_def set_status_def v_def lift_sum_def sbind_def split: sum.splits)
      with v show ?thesis by simp
    next
      case (Inr a)
      then obtain cred cam where "attempts P m (device_uid d) cred cam [1, 2, 3] (False, 0) (- 1) v = (r, t)"
        using Ret(2) Some by (auto simp: seq_def bind_def set_status_def v_def lift_sum_def sbind_def split: sum.splits)
      from attempts_cases [OF this] v Ret(1) Some show ?thesis by auto
    qed
  qed
qed (auto dest!: steps_byD [OF woken_steps(1)] simp: same_on_def)

text \<open>C25: The acceptance wakes the camera at most three times, and it succeeds only if no probe is enabled by
  the options, in which case it wakes nothing, or if the readiness flag that the enabled probe stands for has been set.\<close>

theorem acceptance_bounded:
  assumes "run_p2p_acceptance P d s = (r, t)"
  shows "length (woken t) \<le> length (woken s) + 3 \<and> (r = Ret () \<longrightarrow> (\<exists>options u. load_options s = (Ret options, u) \<and>
    (case enabled_probe options of None \<Rightarrow> woken t = woken s | Some m \<Rightarrow> json_get (status_items t) (gate_of m) = JBool True)))"
  by (rule acceptance_cases [OF assms])

section \<open>The order of the probes\<close>

text \<open>Each probe includes the ones below it.\<close>

primrec probe_rank :: "probe_mode \<Rightarrow> nat" where
  "probe_rank Probe_Connect = 0"
| "probe_rank Probe_Auth = 1"
| "probe_rank Probe_Stream = 2"
| "probe_rank Probe_Snapshot = 3"

instantiation probe_mode :: linorder
begin

definition less_eq_probe_mode :: "probe_mode \<Rightarrow> probe_mode \<Rightarrow> bool" where
  "less_eq_probe_mode m n \<longleftrightarrow> probe_rank m \<le> probe_rank n"

definition less_probe_mode :: "probe_mode \<Rightarrow> probe_mode \<Rightarrow> bool" where
  "less_probe_mode m n \<longleftrightarrow> probe_rank m < probe_rank n"

instance
proof
  fix m n :: probe_mode
  show "m \<le> n \<Longrightarrow> n \<le> m \<Longrightarrow> m = n"
    by (cases m; cases n; simp add: less_eq_probe_mode_def)
qed (auto simp: less_eq_probe_mode_def less_probe_mode_def)

end

text \<open>The flags that a probe raises are those of all the probes up to it, and of several options the highest wins.\<close>

lemma probe_flags_mono:
  "m \<le> n \<Longrightarrow> (name, JBool True) \<in> set (probe_flags (Some m)) \<Longrightarrow> (name, JBool True) \<in> set (probe_flags (Some n))"
  by (cases m; cases n; auto simp: probe_flags_def less_eq_probe_mode_def)

fun option_of :: "probe_mode \<Rightarrow> string" where
  "option_of Probe_Connect = ''run_connect_test''"
| "option_of Probe_Auth = ''run_auth_test''"
| "option_of Probe_Stream = ''run_stream_test''"
| "option_of Probe_Snapshot = ''run_snapshot_test''"

lemma enabled_probe_highest:
  "enabled_probe options = Some m \<longleftrightarrow>
     json_get options (option_of m) = JBool True \<and> (\<forall>n. json_get options (option_of n) = JBool True \<longrightarrow> n \<le> m)"
proof -
  have all: "(\<forall>n. P n) \<longleftrightarrow> P Probe_Connect \<and> P Probe_Auth \<and> P Probe_Stream \<and> P Probe_Snapshot" for P
    by (metis probe_mode.exhaust)
  show ?thesis
    by (cases m) (auto simp: enabled_probe_def Let_def all less_eq_probe_mode_def)
qed

section \<open>A start on a configured host\<close>

definition sample_options :: "(pystr \<times> json) list" where
  "sample_options = [(str ''account_username'', JStr (str ''owner'')), (str ''account_password'', JStr (str ''secret'')),
     (str ''api_token'', JStr (str ''0123456789abcdef''))]"

definition sample_platform :: platform where
  "sample_platform = \<lparr>arch_name = str ''x86_64'', python_path = str ''/usr/bin/python3'', os_environ = [],
     classes = no_unicode, directory = (\<lambda>_ _. Inr (map of_nat (json_dumps (JList [JStr (str ''ABCDEFGHIJKLMNOP'')])))),
     present = (\<lambda>_. True), mkdir_result = None, fetch_result = None, loader_output = Inl OSError,
     wake_source = Inr (map of_nat (str ''secretKey='' @ [39] @ str ''k'' @ [39] @ str ''data['' @ [39] @ str ''AccessKey'' @
       [39] @ str '']='' @ [39] @ str ''a'' @ [39])), fresh_secret = str ''s'', class_name = (\<lambda>_. str ''Exception'')\<rparr>"

definition sample_app :: app where
  "sample_app = \<lparr>requests = [], answers = answers account_session, status_items = named initial_status, printed = [],
     published = None, option_reads = replicate 3 (Some (Inr (map of_nat (json_dumps (JObj sample_options))))),
     wakes = [], woken = [], runners = [], sites = [], commands = [], pauses = 0\<rparr>"

lemma newlines_id: "13 \<notin> set s \<Longrightarrow> newlines s = s"
  by (induction s rule: newlines.induct) auto

lemma read_ascii: "ascii_str s \<Longrightarrow> 13 \<notin> set s \<Longrightarrow> read_text (Inr (map of_nat s)) = Inr s"
  using decode_encode_utf8 [OF utf8_of_ascii] by (simp add: read_text_def newlines_id)

lemma load_options_dumps:
  assumes "printable (JObj d)" "13 \<notin> set (json_dumps (JObj d))"
    "option_reads s = Some (Inr (map of_nat (json_dumps (JObj d)))) # r"
  shows "load_options s = (Ret d, s\<lparr>option_reads := r\<rparr>)"
  using read_ascii [OF ascii_dumps [OF assms(1)] assms(2)] json_loads_dumps [OF assms(1)] assms(3)
  by (simp add: load_options_def lift_sum_def)

lemma sample_options_text: "printable (JObj sample_options)" "13 \<notin> set (json_dumps (JObj sample_options))"
  by (simp_all add: sample_options_def str_def json_string_def json_char_def scalar_str_def is_surrogate_def)

lemma sample_options_get:
  "json_get sample_options ''account_username'' = JStr (str ''owner'')"
  "json_get sample_options ''account_password'' = JStr (str ''secret'')"
  "json_get sample_options ''api_token'' = JStr (str ''0123456789abcdef'')"
  "n \<notin> {''account_username'', ''account_password'', ''api_token''} \<Longrightarrow> json_get sample_options n = JNull"
  "dict_get sample_options (str ''idle_timeout_seconds'') (JInt 120) = JInt 120"
  by (auto simp: sample_options_def json_get_def dict_get_def)

lemma sample_credentials_read: "\<exists>c. require_credentials sample_platform = Inr c"
proof -
  let ?t = "str ''secretKey='' @ [39] @ str ''k'' @ [39] @ str ''data['' @ [39] @ str ''AccessKey'' @ [39] @ str '']='' @ [39] @ str ''a'' @ [39]"
  have "read_text (Inr (map of_nat ?t)) = Inr ?t"
    by (rule read_ascii) (simp_all add: ascii_str_def str_def)
  moreover have "search_quoted (str ''secretKey'') ?t \<noteq> None"
    "search_quoted (str ''data['' @ [39] @ str ''AccessKey'' @ [39] @ str '']'') ?t \<noteq> None"
    by (simp_all add: str_def quoted_at_def re_space_def header_space_def)
  ultimately show ?thesis
    by (auto simp: require_credentials_def load_wake_credentials_def sample_platform_def)
qed

lemma sample_target: "\<exists>cam. target_of sample_platform (str ''VSTA000001'') p = Inr cam"
proof -
  have r: "resolve_client_id no_unicode op (JStr (str ''VSTA000001'')) = Inr (str ''VSTA000001'')" for op
    by (simp add: resolve_client_id_def virtual_id_def str_def ascii_alpha_def is_decimal_def decimal_of_def ascii_digit_def)
  have "encode_ascii (json_dumps (JObj [(str ''uid'', JList [JStr (str ''VSTA'')])])) \<noteq> Inl e" for e
    by (simp add: encode_ascii_def str_def json_string_def json_char_def)
  then obtain body where b: "encode_ascii (json_dumps (JObj [(str ''uid'', JList [JStr (str ''VSTA'')])])) = Inr body"
    by (meson sum.exhaust)
  have "json_loads_utf8 (map of_nat (json_dumps (JList [JStr (str ''ABCDEFGHIJKLMNOP'')]))) = Inr (JList [JStr (str ''ABCDEFGHIJKLMNOP'')])"
    by (rule json_loads_encoded) (simp add: str_def scalar_str_def is_surrogate_def)
  then have "get_service_parameter no_unicode (directory sample_platform) (JStr (str ''VSTA000001'')) = Inr (str ''ABCDEFGHIJKLMNOP'')"
    using b by (simp add: get_service_parameter_def ask_directory_def sample_platform_def isalnum_def ascii_alpha_def str_def
        del: json_dumps.simps)
  then show ?thesis using r by (simp add: target_of_def sample_platform_def)
qed

lemma sample_loader:
  "\<exists>t. load_vendor_runtime sample_platform sample_app = (Ret (), t) \<and> answers t = answers account_session \<and>
     option_reads t = option_reads sample_app \<and> published t = None"
proof -
  have "on_amd64 sample_platform" by (simp add: on_amd64_def runtime_arch_def sample_platform_def)
  then show ?thesis
    by (simp add: load_vendor_runtime_def loader_ready_def seq_def bind_def set_status_def print_line_def fail_if_def
      sample_platform_def sample_app_def when_do_def list_ex_iff)
qed

lemma sample_options_read:
  "option_reads s = Some (Inr (map of_nat (json_dumps (JObj sample_options)))) # r \<Longrightarrow>
     load_options s = (Ret sample_options, s\<lparr>option_reads := r\<rparr>)"
  by (rule load_options_dumps [OF sample_options_text])

definition sample_device :: account_device where
  "sample_device = \<lparr>device_uid = str ''VSTA000001'', device_name = str ''O-KAM camera'', device_password = str ''888888''\<rparr>"

lemma sample_enumeration:
  assumes "answers s = answers account_session" "option_reads s = Some (Inr (map of_nat (json_dumps (JObj sample_options)))) # r"
  shows "\<exists>t. enumerate_account sample_platform s = (Ret (Some sample_device), t) \<and> option_reads t = r \<and> published t = published s"
proof -
  let ?s = "s\<lparr>option_reads := r\<rparr>"
  let ?u = "status_items_update (update_all (named [phase ''enumerating_account'', (''configuration_required'', JBool False)])) ?s"
  have "answers ?u = answers account_session" using assms(1) by simp
  from account_answers_run [OF this, of no_unicode] obtain v where
    v: "enumerate_devices no_unicode (str ''owner'') (str ''secret'') ?u = (Ret [sample_device], v)"
    by (auto simp: sample_device_def)
  from steps_byD [OF account_more v] have m: "option_reads v = r" "published v = published s"
    by (cases v; cases s; simp add: same_on_def)+
  have o: "text_option sample_options ''account_username'' = Some (str ''owner'')"
    "text_option sample_options ''account_password'' = Some (str ''secret'')" "alias_text sample_options = Inr (str ''cabin'')"
    by (simp_all add: text_option_def alias_text_def camera_alias_def sample_options_get) (simp_all add: str_def)
  have "classes sample_platform = no_unicode" by (simp add: sample_platform_def)
  with v m o show ?thesis
    unfolding enumerate_account_def
    by (simp add: bind_def sample_options_read [OF assms(2)] lift_sum_def seq_def set_status_def print_line_def)
qed

lemma sample_acceptance:
  assumes "option_reads s = Some (Inr (map of_nat (json_dumps (JObj sample_options)))) # r"
  shows "\<exists>t. run_p2p_acceptance sample_platform sample_device s = (Ret (), t) \<and> option_reads t = r \<and> published t = published s"
proof -
  have "enabled_probe sample_options = None" by (simp add: enabled_probe_def sample_options_get)
  then show ?thesis
    by (simp add: run_p2p_acceptance_def bind_def sample_options_read [OF assms] Let_def seq_def set_status_def)
qed

lemma sample_configuration:
  assumes "option_reads s = Some (Inr (map of_nat (json_dumps (JObj sample_options)))) # r"
  shows "\<exists>b t. configure_bridge sample_platform sample_device s = (Ret (Some b), t) \<and> published t = Some b"
proof -
  have password: "select_camera_password (JStr (device_password sample_device)) (json_get sample_options ''camera_password'') = Inr (str ''888888'')"
    using utf8_of_ascii [of "str ''888888''"]
    by (simp add: select_camera_password_def sample_options_get sample_device_def p2p_field_def ascii_str_def str_def)
  have token: "token_option sample_options = Some (str ''0123456789abcdef'')"
    by (simp add: token_option_def sample_options_get)
  obtain c where c: "require_credentials sample_platform = Inr c" using sample_credentials_read by blast
  obtain cam where cam: "target_of sample_platform (device_uid sample_device) (str ''888888'') = Inr cam"
    using sample_target by (auto simp: sample_device_def)
  have "\<exists>b. live_settings sample_platform sample_device sample_options (str ''888888'') (str ''0123456789abcdef'') = Inr b"
    by (simp add: live_settings_def c cam alias_text_def camera_alias_def idle_option_def sample_options_get Let_def)
  then obtain b where "live_settings sample_platform sample_device sample_options (str ''888888'') (str ''0123456789abcdef'') = Inr b" ..
  then show ?thesis
    by (simp add: configure_bridge_def bind_def sample_options_read [OF assms] lift_sum_def password token seq_def publish_def
      set_status_def print_line_def)
qed

lemma sample_start_up: "\<exists>b t. start_up sample_platform sample_app = (Ret (), t) \<and> published t = Some b"
proof -
  let ?o = "Some (Inr (map of_nat (json_dumps (JObj sample_options))))"
  obtain s1 where 1: "load_vendor_runtime sample_platform sample_app = (Ret (), s1)" "answers s1 = answers account_session"
    "option_reads s1 = ?o # [?o, ?o]"
    using sample_loader by (auto simp: sample_app_def numeral_3_eq_3)
  obtain s2 where 2: "enumerate_account sample_platform s1 = (Ret (Some sample_device), s2)" "option_reads s2 = ?o # [?o]"
    using sample_enumeration [OF 1(2,3)] by auto
  obtain s3 where 3: "run_p2p_acceptance sample_platform sample_device s2 = (Ret (), s3)" "option_reads s3 = ?o # []"
    using sample_acceptance [OF 2(2)] by auto
  obtain b s4 where 4: "configure_bridge sample_platform sample_device s3 = (Ret (Some b), s4)" "published s4 = Some b"
    using sample_configuration [OF 3(2)] by auto
  then show ?thesis by (simp add: start_up_eq start_body_def catch_def seq_def bind_def 1 2 3 4)
qed

lemma sample_app_loader: "has_key (status_items sample_app) (str ''loader_ready'')" "published sample_app = None"
  by (simp_all add: sample_app_def has_key_iff named_def initial_status_def)



theorem acceptance_bounded_witness:
  "\<exists>t. run_p2p_acceptance sample_platform sample_device sample_app = (Ret (), t) \<and> length (woken t) \<le> 3 \<and>
     (\<exists>options u. load_options sample_app = (Ret options, u) \<and> enabled_probe options = None)"
proof -
  have o: "option_reads sample_app = Some (Inr (map of_nat (json_dumps (JObj sample_options)))) # tl (option_reads sample_app)"
    by (simp add: sample_app_def numeral_3_eq_3)
  obtain t where t: "run_p2p_acceptance sample_platform sample_device sample_app = (Ret (), t)"
    using sample_acceptance [OF o] by blast
  from acceptance_bounded [OF t] t sample_options_read [OF o] show ?thesis
    by (auto simp: sample_app_def enabled_probe_def sample_options_get)
qed

end
