(* ===== verification/Capture.thy ===== *)
theory Capture
  imports JSON "HOL-Library.List_Lexorder" "HOL-Library.Log_Nat"
begin

text \<open>
  The summary of a packet capture (\<open>tools/pcap_summary.py\<close>): the parser of the capture file, the
  counters, and the printed summary, which names endpoints by their rank and shows of a payload only
  its length and its packet type. The file's bytes, the limit on the rows and the names of the packet
  types, a dictionary of texts, are the inputs; times are double precision floats, kept as the
  rationals they denote. The reading of the command line is not modelled.
\<close>

section \<open>Floating point numbers\<close>

text \<open>\<open>round(x)\<close>, and the double nearest to a rational in the range of the time stamps.\<close>

definition round_half_even :: "rat \<Rightarrow> int" where
  "round_half_even x =
     (let n = \<lfloor>x\<rfloor>; d = x - of_int n in
      if d < 1 / 2 then n else if 1 / 2 < d then n + 1 else if even n then n else n + 1)"

definition to_double :: "rat \<Rightarrow> rat" where
  "to_double x =
     (if x = 0 then 0
      else
        let (p, q) = quotient_of \<bar>x\<bar>;
            k = int (floorlog 2 (nat p)) - int (floorlog 2 (nat q));
            scale = 2 powi ((if 2 powi k \<le> \<bar>x\<bar> then k else k - 1) - 52)
        in sgn x * of_int (round_half_even (\<bar>x\<bar> / scale)) * scale)"

section \<open>Reading the capture\<close>

type_synonym endpoint4 = "bytes \<times> nat"

record sniffed =
  sent_at :: rat
  sender :: endpoint4
  recipient :: endpoint4
  content :: bytes
  wire_length :: int
  is_udp :: bool

fun LINK_OFFSETS :: "nat \<Rightarrow> nat option" where
  "LINK_OFFSETS link = (if link = 1 then Some 14 else if link = 113 then Some 16 else if link = 276 then Some 20 else None)"

definition little_endian_magic :: "bytes list" where
  "little_endian_magic = [[0xd4, 0xc3, 0xb2, 0xa1], [0x4d, 0x3c, 0xb2, 0xa1]]"

definition big_endian_magic :: "bytes list" where
  "big_endian_magic = [[0xa1, 0xb2, 0xc3, 0xd4], [0xa1, 0xb2, 0x3c, 0x4d]]"

text \<open>The byte order and whether the stamps count nanoseconds.\<close>

definition pcap_format :: "bytes \<Rightarrow> (bool \<times> bool) option" where
  "pcap_format magic =
     (let nano = magic \<in> {[0x4d, 0x3c, 0xb2, 0xa1], [0xa1, 0xb2, 0x3c, 0x4d]} in
      if magic \<in> set little_endian_magic then Some (True, nano)
      else if magic \<in> set big_endian_magic then Some (False, nano) else None)"

definition unpack_word :: "bool \<Rightarrow> bytes \<Rightarrow> nat" where
  "unpack_word little bs = (if little then le_nat bs else be_nat bs)"

text \<open>The packet in a frame, unless it is skipped.\<close>

definition sniff :: "nat \<Rightarrow> rat \<Rightarrow> nat \<Rightarrow> bytes \<Rightarrow> sniffed option" where
  "sniff offset time original frame =
     (if length frame < offset + 20 then None
      else
        let ip = drop offset frame in
        if drop_bit 4 (ip ! 0) \<noteq> 4 \<or> ip ! 9 \<notin> {6, 17} then None
        else
          let header = unat (ip ! 0 AND 0x0F) * 4 in
          if length ip < header + 8 then None
          else
            let udp = ip ! 9 = 17 in
            if \<not> udp \<and> length ip < header + 20 then None
            else
              let transport = (if udp then 8 else unat (drop_bit 4 (ip ! (header + 12)) AND 0x0F) * 4) in
              Some \<lparr>sent_at = time,
                sender = (pyslice 12 16 ip, be_nat (pyslice header (header + 2) ip)),
                recipient = (pyslice 16 20 ip, be_nat (pyslice (header + 2) (header + 4) ip)),
                content = drop (header + transport) ip,
                wire_length = max 0 (int original - int offset - int header - int transport), is_udp = udp\<rparr>)"

text \<open>The records from the cursor on.\<close>

function packet_records :: "bool \<Rightarrow> bool \<Rightarrow> nat \<Rightarrow> bytes \<Rightarrow> sniffed list" where
  "packet_records little nano offset rest =
     (if length rest < 16 then []
      else
        let seconds = unpack_word little (pyslice 0 4 rest); fraction = unpack_word little (pyslice 4 8 rest);
            captured = unpack_word little (pyslice 8 12 rest); original = unpack_word little (pyslice 12 16 rest);
            frame = take captured (drop 16 rest);
            time = to_double (of_nat seconds + to_double (of_nat fraction / (if nano then 1000000000 else 1000000)))
        in (case sniff offset time original frame of None \<Rightarrow> [] | Some p \<Rightarrow> [p]) @
           packet_records little nano offset (drop (16 + captured) rest))"
  by pat_completeness auto
termination
  by (relation "measure (\<lambda>(_, _, _, rest). length rest)") auto

declare packet_records.simps [simp del]

definition packets :: "bytes \<Rightarrow> sniffed list" where
  "packets blob =
     (if length blob < 24 then []
      else case pcap_format (take 4 blob) of
        None \<Rightarrow> []
      | Some (little, nano) \<Rightarrow>
          (case LINK_OFFSETS (unpack_word little (pyslice 20 24 blob)) of
             None \<Rightarrow> []
           | Some offset \<Rightarrow> packet_records little nano offset (drop 24 blob)))"

section \<open>Counters\<close>

text \<open>A \<open>Counter\<close> after a sequence of additions, its most common key, and its items by descending count;
  \<open>sorted\<close> and \<open>max\<close> keep the order of insertion among equal counts.\<close>

definition bump :: "'k \<times> int \<Rightarrow> ('k \<times> int) list \<Rightarrow> ('k \<times> int) list" where
  "bump kn d = AList.update (fst kn) (dict_get d (fst kn) 0 + snd kn) d"

definition tally :: "('k \<times> int) list \<Rightarrow> ('k \<times> int) list" where
  "tally kns = fold bump kns []"

fun most_common_key :: "('k \<times> int) list \<Rightarrow> 'k \<times> int" where
  "most_common_key [kn] = kn"
| "most_common_key (kn # kns) = (let best = most_common_key kns in if snd kn < snd best then best else kn)"

definition by_count :: "('k \<times> int) list \<Rightarrow> ('k \<times> int) list" where
  "by_count d = sort_key (\<lambda>kn. - snd kn) d"

section \<open>The summary\<close>

definition remote_of :: "bytes \<Rightarrow> sniffed \<Rightarrow> endpoint4" where
  "remote_of host r = (if fst (sender r) = host then recipient r else sender r)"

definition local_host :: "sniffed list \<Rightarrow> bytes" where
  "local_host records =
     fst (most_common_key (tally (concat (map (\<lambda>r. [(fst (sender r), 1), (fst (recipient r), 1)]) records))))"

definition flow_of :: "bytes \<Rightarrow> sniffed list \<Rightarrow> sniffed list" where
  "flow_of host records = filter (\<lambda>r. host = fst (sender r) \<or> host = fst (recipient r)) records"

definition packet_type :: "sniffed \<Rightarrow> pystr" where
  "packet_type r = (if 2 \<le> length (content r) then str (hex_bytes (take 2 (content r))) else str ''--'')"

definition kind_of :: "(pystr \<times> pystr) list \<Rightarrow> sniffed \<Rightarrow> pystr" where
  "kind_of types r = (if is_udp r then dict_get types (packet_type r) (packet_type r) else str ''tcp'')"

definition peer_label :: "endpoint4 list \<Rightarrow> endpoint4 \<Rightarrow> pystr" where
  "peer_label ranked e =
     (case map_of (zip ranked [0..<length ranked]) e of Some i \<Rightarrow> str ''peer'' @ show_nat i | None \<Rightarrow> [])"

definition elapsed_ms :: "rat \<Rightarrow> rat \<Rightarrow> int" where
  "elapsed_ms start time = round_half_even (to_double (to_double (time - start) * 1000))"

record row =
  at_ms :: int
  direction :: pystr
  row_kind :: pystr
  row_length :: int
  row_peer :: pystr

definition row_of :: "(pystr \<times> pystr) list \<Rightarrow> bytes \<Rightarrow> endpoint4 list \<Rightarrow> rat \<Rightarrow> sniffed \<Rightarrow> row" where
  "row_of types host ranked start r =
     \<lparr>at_ms = elapsed_ms start (sent_at r),
      direction = (if fst (sender r) = host then str ''out'' else str ''in ''),
      row_kind = kind_of types r, row_length = wire_length r, row_peer = peer_label ranked (remote_of host r)\<rparr>"

text \<open>\<open>direction.strip()\<close> of one of the two directions.\<close>

definition total_name :: "row \<Rightarrow> pystr" where
  "total_name w = row_peer w @ 95 # takeWhile (\<lambda>c. c \<noteq> 32) (direction w) @ 95 # row_kind w"

definition widen :: "row \<Rightarrow> (pystr \<times> int \<times> int) list \<Rightarrow> (pystr \<times> int \<times> int) list" where
  "widen w d =
     (let (low, high) = dict_get d (total_name w) (row_length w, row_length w) in
      AList.update (total_name w) (min low (row_length w), max high (row_length w)) d)"

definition total_lines :: "row list \<Rightarrow> pystr list" where
  "total_lines ws =
     (let totals = tally (map (\<lambda>w. (total_name w, 1)) ws); spans = fold widen ws [] in
      map (\<lambda>(name, n). name @ 61 # show_int n @ str '' len='' @
             (case dict_get spans name (0, 0) of (low, high) \<Rightarrow>
                if low = high then show_int low else show_int low @ str ''..'' @ show_int high))
        (sort_key fst totals))"

definition endpoint_line :: "endpoint4 list \<Rightarrow> (endpoint4 \<times> int) list \<Rightarrow> endpoint4 \<times> int \<Rightarrow> pystr" where
  "endpoint_line ranked remotes ev =
     peer_label ranked (fst ev) @ str '' packets='' @ show_int (dict_get remotes (fst ev) 0) @
     str '' payload_bytes='' @ show_int (snd ev)"

text \<open>Consecutive rows with the same direction, kind and peer, up to a number of runs; and the rest.\<close>

definition same_run :: "row \<Rightarrow> row \<Rightarrow> bool" where
  "same_run w v \<longleftrightarrow> direction v = direction w \<and> row_kind v = row_kind w \<and> row_peer v = row_peer w"

fun runs :: "nat \<Rightarrow> row list \<Rightarrow> (row \<times> row list) list \<times> row list" where
  "runs (Suc n) (w # ws) =
     (case runs n (dropWhile (same_run w) ws) of (rs, rest) \<Rightarrow> ((w, takeWhile (same_run w) ws) # rs, rest))"
| "runs n ws = ([], ws)"

definition pad_left :: "nat \<Rightarrow> pystr \<Rightarrow> pystr" where
  "pad_left n s = replicate (n - length s) 32 @ s"

definition run_line :: "row \<times> row list \<Rightarrow> pystr" where
  "run_line run = (case run of (w, ws) \<Rightarrow>
     pad_left 7 (show_int (at_ms w)) @ 32 # row_peer w @ 32 # direction w @ 32 # row_kind w @ str '' len='' @
     show_int (row_length w) @
     (if ws = [] then []
      else str '' x'' @ show_nat (Suc (length ws)) @ str '' bytes='' @ show_int (row_length w + sum_list (map row_length ws))))"

definition row_lines :: "int \<Rightarrow> row list \<Rightarrow> pystr list" where
  "row_lines limit ws = (case runs (nat limit) ws of (rs, rest) \<Rightarrow>
     map run_line rs @
     (if rest = [] then [] else [str ''... '' @ show_nat (length rest) @ str '' further packets omitted'']))"

definition capture_summary :: "(pystr \<times> pystr) list \<Rightarrow> int \<Rightarrow> sniffed list \<Rightarrow> pystr list \<times> int" where
  "capture_summary types limit records =
     (if records = [] then ([str ''no UDP packets parsed''], 1)
      else
        let host = local_host records;
            flow = flow_of host records;
            remotes = tally (map (\<lambda>r. (remote_of host r, 1)) flow);
            volume = by_count (tally (map (\<lambda>r. (remote_of host r, wire_length r)) flow));
            ranked = map fst (by_count remotes);
            start = sent_at (hd flow);
            focus = set (map fst (take 3 volume));
            row = row_of types host ranked start
        in ([str ''packets='' @ show_nat (length flow) @ str '' span_ms='' @ show_int (elapsed_ms start (sent_at (last flow))),
             str ''--- endpoints by volume ---''] @
            map (endpoint_line ranked remotes) (take 8 volume) @
            [str ''--- totals by peer, direction, and type ---''] @ total_lines (map row flow) @
            [str ''--- ordered sequence (run-length encoded) ---''] @
            row_lines limit (map row (filter (\<lambda>r. remote_of host r \<in> focus) flow)), 0))"

definition pcap_main :: "(pystr \<times> pystr) list \<Rightarrow> int \<Rightarrow> bytes \<Rightarrow> pystr list \<times> int" where
  "pcap_main types limit blob = capture_summary types limit (packets blob)"

section \<open>Counters under a renaming of their keys\<close>

lemma map_of_renamed: "inj f \<Longrightarrow> map_of (map (apfst f) d) (f k) = map_of d k"
  by (induction d) (auto simp: inj_eq)

lemma update_renamed: "inj f \<Longrightarrow> AList.update (f k) v (map (apfst f) d) = map (apfst f) (AList.update k v d)"
  by (induction d) (auto simp: inj_eq)

lemma bump_renamed: "inj f \<Longrightarrow> bump (apfst f kn) (map (apfst f) d) = map (apfst f) (bump kn d)"
  by (cases kn) (simp add: bump_def dict_get_def map_of_renamed update_renamed)

lemma fold_bump_renamed:
  "inj f \<Longrightarrow> fold bump (map (apfst f) kns) (map (apfst f) d) = map (apfst f) (fold bump kns d)"
  by (induction kns arbitrary: d) (simp_all add: bump_renamed)

lemma tally_renamed: "inj f \<Longrightarrow> tally (map (apfst f) kns) = map (apfst f) (tally kns)"
  using fold_bump_renamed [of f kns "[]"] by (simp add: tally_def)

lemma most_common_renamed: "d \<noteq> [] \<Longrightarrow> most_common_key (map (apfst f) d) = apfst f (most_common_key d)"
  by (induction d rule: most_common_key.induct) (auto simp: Let_def)

lemma insort_renamed:
  "insort_key (\<lambda>kn. - snd kn :: int) (apfst f kn) (map (apfst f) d) = map (apfst f) (insort_key (\<lambda>kn. - snd kn) kn d)"
  by (induction d) auto

lemma by_count_renamed: "by_count (map (apfst f) d) = map (apfst f) (by_count d)"
  by (induction d) (simp_all add: by_count_def insort_renamed)

lemma fold_bump_nonempty: "d \<noteq> [] \<or> kns \<noteq> [] \<Longrightarrow> fold bump kns d \<noteq> []"
proof (induction kns arbitrary: d)
  case (Cons kn kns)
  have "bump kn d \<noteq> []" by (cases d) (auto simp: bump_def)
  then show ?case using Cons.IH by simp
qed simp

lemma tally_nonempty: "kns \<noteq> [] \<Longrightarrow> tally kns \<noteq> []"
  by (simp add: tally_def fold_bump_nonempty)

lemma peer_label_renamed: "inj f \<Longrightarrow> peer_label (map f ranked) (f e) = peer_label ranked e"
proof -
  assume f: "inj f"
  have "zip (map f ranked) [0..<length ranked] = map (apfst f) (zip ranked [0..<length ranked])"
    by (simp add: zip_map1 apfst_def map_prod_def case_prod_beta)
  then show ?thesis by (simp add: peer_label_def map_of_renamed [OF f])
qed

section \<open>Records that differ in what must not be shown\<close>

text \<open>Another capture of the same traffic: the hosts and endpoints are renamed and the payloads are other
  ones of the same wire length and, over UDP, the same packet type.\<close>

definition veiled :: "(bytes \<Rightarrow> bytes) \<Rightarrow> (endpoint4 \<Rightarrow> endpoint4) \<Rightarrow> sniffed \<Rightarrow> sniffed \<Rightarrow> bool" where
  "veiled f g r v \<longleftrightarrow> sent_at v = sent_at r \<and> wire_length v = wire_length r \<and> is_udp v = is_udp r \<and>
     sender v = g (sender r) \<and> recipient v = g (recipient r) \<and> (is_udp r \<longrightarrow> packet_type v = packet_type r)"

definition renaming :: "(bytes \<Rightarrow> bytes) \<Rightarrow> (endpoint4 \<Rightarrow> endpoint4) \<Rightarrow> bool" where
  "renaming f g \<longleftrightarrow> inj f \<and> inj g \<and> (\<forall>e. fst (g e) = f (fst e))"

lemma renamingD: "renaming f g \<Longrightarrow> inj f" "renaming f g \<Longrightarrow> inj g" "renaming f g \<Longrightarrow> fst (g e) = f (fst e)"
  unfolding renaming_def by blast+

lemma veiled_hosts:
  assumes "renaming f g" "list_all2 (veiled f g) rs vs"
  shows "concat (map (\<lambda>r. [(fst (sender r), 1), (fst (recipient r), 1)]) vs) =
    map (apfst f) (concat (map (\<lambda>r. [(fst (sender r), 1 :: int), (fst (recipient r), 1)]) rs))"
  using assms(2) by (induction rule: list_all2_induct) (simp_all add: veiled_def renamingD(3) [OF assms(1)])

lemma veiled_local:
  assumes "renaming f g" "list_all2 (veiled f g) rs vs" "rs \<noteq> []"
  shows "local_host vs = f (local_host rs)"
proof -
  have "concat (map (\<lambda>r. [(fst (sender r), 1 :: int), (fst (recipient r), 1)]) rs) \<noteq> []" using assms(3) by (cases rs) auto
  then show ?thesis
    by (simp add: local_host_def veiled_hosts [OF assms(1,2)] tally_renamed [OF renamingD(1) [OF assms(1)]]
      most_common_renamed tally_nonempty)
qed

lemma veiled_flow:
  assumes "renaming f g" "list_all2 (veiled f g) rs vs"
  shows "list_all2 (veiled f g) (flow_of h rs) (flow_of (f h) vs)"
  using assms(2)
  by (induction rule: list_all2_induct)
    (auto simp: flow_of_def veiled_def renamingD(3) [OF assms(1)] inj_eq [OF renamingD(1) [OF assms(1)]])

lemma veiled_remote: "renaming f g \<Longrightarrow> veiled f g r v \<Longrightarrow> remote_of (f h) v = g (remote_of h r)"
  by (simp add: remote_of_def veiled_def renamingD(3) inj_eq [OF renamingD(1)])

lemma veiled_tally:
  assumes "renaming f g" "list_all2 (veiled f g) rs vs" "\<And>r v. veiled f g r v \<Longrightarrow> n v = n r"
  shows "tally (map (\<lambda>r. (remote_of (f h) r, n r)) vs) = map (apfst g) (tally (map (\<lambda>r. (remote_of h r, n r)) rs))"
proof -
  have "map (\<lambda>r. (remote_of (f h) r, n r)) vs = map (apfst g) (map (\<lambda>r. (remote_of h r, n r)) rs)"
    using assms(2) by (induction rule: list_all2_induct) (simp_all add: veiled_remote [OF assms(1)] assms(3))
  then show ?thesis by (simp add: tally_renamed [OF renamingD(2) [OF assms(1)]] del: map_map)
qed

lemma veiled_row:
  assumes "renaming f g" "veiled f g r v"
  shows "row_of types (f h) (map g ranked) start v = row_of types h ranked start r"
  using assms(2)
  by (simp add: row_of_def veiled_remote [OF assms] peer_label_renamed [OF renamingD(2) [OF assms(1)]])
    (auto simp: veiled_def renamingD(3) [OF assms(1)] inj_eq [OF renamingD(1) [OF assms(1)]] kind_of_def)

lemma veiled_rows:
  assumes "renaming f g" "list_all2 (veiled f g) rs vs"
  shows "map (row_of types (f h) (map g ranked) start) vs = map (row_of types h ranked start) rs"
  using assms(2) by (induction rule: list_all2_induct) (simp_all add: veiled_row [OF assms(1)])

lemma veiled_focus:
  assumes "renaming f g" "list_all2 (veiled f g) rs vs"
  shows "list_all2 (veiled f g) (filter (\<lambda>r. remote_of h r \<in> A) rs) (filter (\<lambda>r. remote_of (f h) r \<in> g ` A) vs)"
  using assms(2)
  by (induction rule: list_all2_induct)
    (simp_all add: veiled_remote [OF assms(1)] inj_image_mem_iff [OF renamingD(2) [OF assms(1)]])

lemma veiled_endpoint:
  "renaming f g \<Longrightarrow> endpoint_line (map g ranked) (map (apfst g) remotes) (apfst g ev) = endpoint_line ranked remotes ev"
  by (cases ev) (simp add: endpoint_line_def peer_label_renamed renamingD(2) dict_get_def map_of_renamed)

lemma veiled_ends:
  assumes "list_all2 (veiled f g) rs vs" "rs \<noteq> []"
  shows "sent_at (hd vs) = sent_at (hd rs)" "sent_at (last vs) = sent_at (last rs)"
proof -
  from assms have v: "vs \<noteq> []" "length vs = length rs" by (auto dest: list_all2_lengthD)
  from assms v show "sent_at (hd vs) = sent_at (hd rs)"
    using list_all2_nthD [OF assms(1), of 0] by (simp add: hd_conv_nth veiled_def)
  from assms v show "sent_at (last vs) = sent_at (last rs)"
    using list_all2_nthD [OF assms(1), of "length rs - 1"] by (simp add: last_conv_nth veiled_def)
qed

lemma most_common_in: "d \<noteq> [] \<Longrightarrow> most_common_key d \<in> set d"
  by (induction d rule: most_common_key.induct) (auto simp: Let_def)

lemma bump_keys: "fst ` set (bump kn d) = insert (fst kn) (fst ` set d)"
  by (simp add: bump_def dom_update)

lemma tally_keys: "fst ` set (tally kns) = fst ` set kns"
proof -
  have "fst ` set (fold bump kns d) = fst ` set kns \<union> fst ` set d" for d
    by (induction kns arbitrary: d) (auto simp: bump_keys)
  from this [of "[]"] show ?thesis by (simp add: tally_def)
qed

lemma flow_nonempty: "rs \<noteq> [] \<Longrightarrow> flow_of (local_host rs) rs \<noteq> []"
proof -
  assume rs: "rs \<noteq> []"
  let ?h = "concat (map (\<lambda>r. [(fst (sender r), 1 :: int), (fst (recipient r), 1)]) rs)"
  have "?h \<noteq> []" using rs by (cases rs) auto
  from most_common_in [OF tally_nonempty [OF this]] have "fst (most_common_key (tally ?h)) \<in> fst ` set (tally ?h)"
    by (rule imageI)
  then have "local_host rs \<in> fst ` set ?h" by (simp only: local_host_def tally_keys)
  then show ?thesis by (auto simp: flow_of_def filter_empty_conv)
qed


definition two_hosts :: "sniffed list" where
  "two_hosts = map (\<lambda>(out, n, p).
     (let a = ([10, 0, 0, 1], 7) :: endpoint4; b = ([192, 0, 2, 9], 8) in
      \<lparr>sent_at = 0, sender = if out then a else b, recipient = if out then b else a, content = p,
       wire_length = n, is_udp = True\<rparr>)) [(True, 4, [0xf1, 0xe0, 0, 0]), (False, 4, [0xf1, 0xe1, 0, 0]), (False, 9, [])]"


section \<open>Rows\<close>

lemma runs_parts: "concat (map (\<lambda>(w, ws). w # ws) (fst (runs n rows))) @ snd (runs n rows) = rows"
  by (induction n rows rule: runs.induct) (simp_all add: case_prod_beta)

lemma runs_count: "length (fst (runs n rows)) \<le> n \<and> (snd (runs n rows) \<noteq> [] \<longrightarrow> length (fst (runs n rows)) = n)"
  by (induction n rows rule: runs.induct) (simp_all add: case_prod_beta)

lemma runs_alike: "list_all (\<lambda>(w, ws). list_all (same_run w) ws) (fst (runs n rows))"
  by (induction n rows rule: runs.induct) (auto simp: list_all_iff split: prod.splits dest: set_takeWhileD)

text \<open>The sequence that is printed accounts for every row: the runs, each of rows with the same direction,
  kind and peer, and the rows counted as omitted make up the rows in order; rows are only omitted when the limit on
  the lines is exhausted, and a run is printed in one line.\<close>

theorem printed_runs_complete:
  "concat (map (\<lambda>(w, ws). w # ws) (fst (runs (nat limit) rows))) @ snd (runs (nat limit) rows) = rows \<and>
   list_all (\<lambda>(w, ws). list_all (same_run w) ws) (fst (runs (nat limit) rows)) \<and>
   length (fst (runs (nat limit) rows)) \<le> nat limit \<and>
   length (row_lines limit rows) =
     length (fst (runs (nat limit) rows)) + (if snd (runs (nat limit) rows) = [] then 0 else 1) \<and>
   (snd (runs (nat limit) rows) \<noteq> [] \<longrightarrow> length (fst (runs (nat limit) rows)) = nat limit)"
  using runs_parts [of "nat limit" rows] runs_alike runs_count [of "nat limit" rows]
  by (simp add: row_lines_def case_prod_beta)

section \<open>The parser\<close>

text \<open>A record is within the bounds of its formats.\<close>

definition plausible :: "nat \<Rightarrow> sniffed \<Rightarrow> bool" where
  "plausible n r \<longleftrightarrow> length (fst (sender r)) = 4 \<and> length (fst (recipient r)) = 4 \<and> snd (sender r) < 65536 \<and>
     snd (recipient r) < 65536 \<and> 0 \<le> wire_length r \<and> wire_length r < 2 ^ 32 \<and> length (content r) \<le> n"

lemma unpack_word_bound: "length bs = 4 \<Longrightarrow> unpack_word little bs < 2 ^ 32"
  using le_nat_bound [of bs] be_nat_bound [of bs] by (simp add: unpack_word_def)

lemma be_nat_port: "length bs = 2 \<Longrightarrow> be_nat bs < 65536"
  using be_nat_bound [of bs] by simp

lemma sniff_plausible:
  assumes "sniff offset time original frame = Some p" "original < 2 ^ 32" "length frame \<le> n"
  shows "plausible n p"
proof -
  have "int original - int offset - int a - int b < 2 ^ 32" for a b using assms(2) by simp
  then have "max 0 (int original - int offset - int a - int b) < 2 ^ 32" for a b by simp
  with assms show ?thesis
    by (auto simp: sniff_def Let_def plausible_def be_nat_port simp del: of_nat_unat of_nat_add of_nat_mult split: if_splits)
qed

lemma packet_records_plausible: "list_all (plausible (length rest)) (packet_records little nano offset rest)"
proof (induction little nano offset rest rule: packet_records.induct)
  case (1 little nano offset rest)
  show ?case
  proof (cases "length rest < 16")
    case False
    let ?captured = "unpack_word little (pyslice 8 12 rest)" let ?original = "unpack_word little (pyslice 12 16 rest)"
    have o: "?original < 2 ^ 32" using False by (intro unpack_word_bound) simp
    have "plausible n p \<Longrightarrow> n \<le> length rest \<Longrightarrow> plausible (length rest) p" for n p by (auto simp: plausible_def)
    then have tail: "list_all (plausible (length rest)) (packet_records little nano offset (drop (16 + ?captured) rest))"
      using 1 [OF False refl refl refl refl refl refl] by (fastforce simp: list_all_iff)
    show ?thesis
      using False tail sniff_plausible [OF _ o, of offset _ "take ?captured (drop 16 rest)" _ "length rest"]
      by (subst packet_records.simps) (auto simp: Let_def split: option.splits)
  qed (simp add: packet_records.simps)
qed

text \<open>Whatever the file contains, its reading ends and every record that is read has addresses of four bytes,
  ports of sixteen bits, a wire length of at most 32 bits that is never negative, and no payload longer than the file.\<close>

theorem capture_records_bounded: "list_all (plausible (length blob)) (packets blob)"
proof -
  have "plausible n p \<Longrightarrow> n \<le> length blob \<Longrightarrow> plausible (length blob) p" for n p by (auto simp: plausible_def)
  then have "list_all (plausible (length blob)) (packet_records little nano offset (drop 24 blob))" for little nano offset
    using packet_records_plausible [of "drop 24 blob" little nano offset] by (fastforce simp: list_all_iff)
  then show ?thesis by (simp add: packets_def split: option.split prod.split)
qed

end
