(* ===== verification/Placeholder.thy ===== *)
theory Placeholder
  imports Prelude
begin

text \<open>
  The placeholder pictures that the Home Assistant camera shows while the real one sleeps or wakes
  (\<open>custom_components/okam/placeholders.py\<close>): a font, shapes drawn pixel by pixel into a byte buffer,
  and the PNG file around it. The deflate compressor of \<open>zlib\<close> is a parameter; the theorems that read
  the file back assume that its decompressor inverts it.
\<close>

section \<open>The font\<close>

definition WIDTH :: int where [simp]: "WIDTH = 960"
definition HEIGHT :: int where [simp]: "HEIGHT = 540"

definition FONT :: "(char \<times> string list) list" where
  "FONT =
     [(CHR '' '', [''00000'', ''00000'', ''00000'', ''00000'', ''00000'', ''00000'', ''00000'']),
      (CHR ''-'', [''00000'', ''00000'', ''00000'', ''11111'', ''00000'', ''00000'', ''00000'']),
      (CHR ''0'', [''01110'', ''10001'', ''10011'', ''10101'', ''11001'', ''10001'', ''01110'']),
      (CHR ''2'', [''01110'', ''10001'', ''00001'', ''00010'', ''00100'', ''01000'', ''11111'']),
      (CHR ''3'', [''11110'', ''00001'', ''00001'', ''01110'', ''00001'', ''00001'', ''11110'']),
      (CHR ''A'', [''01110'', ''10001'', ''10001'', ''11111'', ''10001'', ''10001'', ''10001'']),
      (CHR ''C'', [''01110'', ''10001'', ''10000'', ''10000'', ''10000'', ''10001'', ''01110'']),
      (CHR ''D'', [''11110'', ''10001'', ''10001'', ''10001'', ''10001'', ''10001'', ''11110'']),
      (CHR ''E'', [''11111'', ''10000'', ''10000'', ''11110'', ''10000'', ''10000'', ''11111'']),
      (CHR ''G'', [''01110'', ''10001'', ''10000'', ''10111'', ''10001'', ''10001'', ''01110'']),
      (CHR ''I'', [''11111'', ''00100'', ''00100'', ''00100'', ''00100'', ''00100'', ''11111'']),
      (CHR ''K'', [''10001'', ''10010'', ''10100'', ''11000'', ''10100'', ''10010'', ''10001'']),
      (CHR ''L'', [''10000'', ''10000'', ''10000'', ''10000'', ''10000'', ''10000'', ''11111'']),
      (CHR ''M'', [''10001'', ''11011'', ''10101'', ''10101'', ''10001'', ''10001'', ''10001'']),
      (CHR ''N'', [''10001'', ''11001'', ''10101'', ''10011'', ''10001'', ''10001'', ''10001'']),
      (CHR ''O'', [''01110'', ''10001'', ''10001'', ''10001'', ''10001'', ''10001'', ''01110'']),
      (CHR ''P'', [''11110'', ''10001'', ''10001'', ''11110'', ''10000'', ''10000'', ''10000'']),
      (CHR ''R'', [''11110'', ''10001'', ''10001'', ''11110'', ''10100'', ''10010'', ''10001'']),
      (CHR ''S'', [''01111'', ''10000'', ''10000'', ''01110'', ''00001'', ''00001'', ''11110'']),
      (CHR ''T'', [''11111'', ''00100'', ''00100'', ''00100'', ''00100'', ''00100'', ''00100'']),
      (CHR ''U'', [''10001'', ''10001'', ''10001'', ''10001'', ''10001'', ''10001'', ''01110'']),
      (CHR ''V'', [''10001'', ''10001'', ''10001'', ''10001'', ''10001'', ''01010'', ''00100'']),
      (CHR ''W'', [''10001'', ''10001'', ''10001'', ''10101'', ''10101'', ''10101'', ''01010''])]"

section \<open>Drawing\<close>

type_synonym colour = "byte \<times> byte \<times> byte"
type_synonym point = "int \<times> int"

definition colour_bytes :: "colour \<Rightarrow> bytes" where
  "colour_bytes c = (case c of (r, g, b) \<Rightarrow> [r, g, b])"

definition pixel :: "colour \<Rightarrow> point \<Rightarrow> bytes \<Rightarrow> bytes" where
  "pixel c p pixels = (case p of (x, y) \<Rightarrow>
     if 0 \<le> x \<and> x < WIDTH \<and> 0 \<le> y \<and> y < HEIGHT then
       let offset = nat ((y * WIDTH + x) * 3) in take offset pixels @ colour_bytes c @ drop (offset + 3) pixels
     else pixels)"

definition draw :: "colour \<Rightarrow> point list \<Rightarrow> bytes \<Rightarrow> bytes" where
  "draw c points pixels = fold (pixel c) points pixels"

text \<open>\<open>range(a, b)\<close>.\<close>

definition range_of :: "int \<Rightarrow> int \<Rightarrow> int list" where
  "range_of a b = [a..b - 1]"

text \<open>The points of each shape, in the order they are drawn.\<close>

definition rectangle :: "int \<Rightarrow> int \<Rightarrow> int \<Rightarrow> int \<Rightarrow> int \<Rightarrow> point list" where
  "rectangle x1 y1 x2 y2 width = concat (map (\<lambda>step.
     concat (map (\<lambda>x. [(x, y1 + step), (x, y2 - step)]) (range_of (x1 + step) (x2 - step + 1))) @
     concat (map (\<lambda>y. [(x1 + step, y), (x2 - step, y)]) (range_of (y1 + step) (y2 - step + 1)))) (range_of 0 width))"

definition circle :: "int \<Rightarrow> int \<Rightarrow> int \<Rightarrow> int \<Rightarrow> point list" where
  "circle cx cy radius width =
     (let outer = radius * radius; inner = (max 0 (radius - width))\<^sup>2 in
      filter (\<lambda>(x, y). let distance = (x - cx)\<^sup>2 + (y - cy)\<^sup>2 in inner \<le> distance \<and> distance \<le> outer)
        (concat (map (\<lambda>y. map (\<lambda>x. (x, y)) (range_of (cx - radius) (cx + radius + 1)))
          (range_of (cy - radius) (cy + radius + 1)))))"

definition glyph_points :: "int \<Rightarrow> int \<Rightarrow> int \<Rightarrow> string list \<Rightarrow> point list" where
  "glyph_points left y scale glyph = concat (map (\<lambda>(r, pattern).
     concat (map (\<lambda>(column, enabled).
       if enabled = CHR ''1'' then
         concat (map (\<lambda>dy. map (\<lambda>dx. (left + column * scale + dx, y + r * scale + dy)) (range_of 0 scale)) (range_of 0 scale))
       else []) (zip (map int [0..<length pattern]) pattern)))
     (zip (map int [0..<length glyph]) glyph))"

primrec glyphs :: "int \<Rightarrow> int \<Rightarrow> int \<Rightarrow> string \<Rightarrow> exn + point list" where
  "glyphs left y scale [] = Inr []"
| "glyphs left y scale (c # cs) = (case map_of FONT c of
     None \<Rightarrow> Inl KeyError
   | Some glyph \<Rightarrow> sbind (glyphs (left + 5 * scale + scale) y scale cs) (\<lambda>ps. Inr (glyph_points left y scale glyph @ ps)))"

definition text_points :: "string \<Rightarrow> int \<Rightarrow> int \<Rightarrow> exn + point list" where
  "text_points message y scale =
     (let glyph_width = 5 * scale; spacing = scale;
          total = int (length message) * (glyph_width + spacing) - spacing
      in glyphs ((WIDTH - total) div 2) y scale message)"

definition wedge :: "point list" where
  "wedge = concat (map (\<lambda>y.
     let extent = (if y < 153 then (y - 115) div 3 else (190 - y) div 3); e = max 0 extent in
     map (\<lambda>x. (x, y)) (filter (\<lambda>x. x \<in> {571, 572, 590 + e, 591 + e}) (range_of 571 (591 + e)))) (range_of 115 191))"

definition rays :: "point list" where
  "rays = concat (map (\<lambda>(x1, y1, x2, y2).
     concat (map (\<lambda>y. map (\<lambda>x. (x, y)) (range_of x1 (x2 + 1))) (range_of (y1 - 3) (y2 + 4))))
     [(349, 108, 369, 108), (349, 150, 369, 150), (349, 192, 369, 192),
      (601, 108, 621, 108), (611, 150, 631, 150), (601, 192, 621, 192)])"

section \<open>The file\<close>

text \<open>\<open>zlib.crc32\<close>.\<close>

definition crc_shift :: "32 word \<Rightarrow> 32 word" where
  "crc_shift c = (if bit c 0 then drop_bit 1 c XOR 0xEDB88320 else drop_bit 1 c)"

definition crc_byte :: "byte \<Rightarrow> 32 word \<Rightarrow> 32 word" where
  "crc_byte b c = (crc_shift ^^ 8) (c XOR ucast b)"

definition crc32 :: "bytes \<Rightarrow> 32 word" where
  "crc32 data = NOT (fold crc_byte data (NOT 0))"

definition pack_u32 :: "nat \<Rightarrow> exn + bytes" where
  "pack_u32 n = (if n < 2 ^ 32 then Inr (be_bytes 4 n) else Inl StructError)"

definition png_chunk :: "bytes \<Rightarrow> bytes \<Rightarrow> exn + bytes" where
  "png_chunk name payload =
     sbind (pack_u32 (length payload)) (\<lambda>size.
     sbind (pack_u32 (unat (crc32 (name @ payload)))) (\<lambda>crc.
     Inr (size @ name @ payload @ crc)))"

definition ascii_bytes :: "string \<Rightarrow> bytes" where
  "ascii_bytes s = map (\<lambda>c. of_nat (of_char c)) s"

definition scanlines :: "bytes \<Rightarrow> bytes" where
  "scanlines pixels =
     (let stride = nat WIDTH * 3 in
      concat (map (\<lambda>y. 0 # pyslice (y * stride) ((y + 1) * stride) pixels) [0..<nat HEIGHT]))"

definition png_signature :: bytes where
  "png_signature = [0x89, 0x50, 0x4E, 0x47, 0x0D, 0x0A, 0x1A, 0x0A]"

definition png_header :: bytes where
  "png_header = be_bytes 4 (nat WIDTH) @ be_bytes 4 (nat HEIGHT) @ [8, 2, 0, 0, 0]"

definition png_file :: "(bytes \<Rightarrow> bytes) \<Rightarrow> bytes \<Rightarrow> exn + bytes" where
  "png_file compress pixels =
     sbind (png_chunk (ascii_bytes ''IHDR'') png_header) (\<lambda>ihdr.
     sbind (png_chunk (ascii_bytes ''IDAT'') (compress (scanlines pixels))) (\<lambda>idat.
     sbind (png_chunk (ascii_bytes ''IEND'') []) (\<lambda>iend.
     Inr (png_signature @ ihdr @ idat @ iend))))"

section \<open>The pictures\<close>

definition background :: "bool \<Rightarrow> colour" where
  "background waking = (if waking then (16, 32, 51) else (16, 24, 39))"

definition accent :: "bool \<Rightarrow> colour" where
  "accent waking = (if waking then (255, 200, 92) else (101, 169, 255))"

definition foreground :: colour where "foreground = (244, 247, 251)"
definition muted :: colour where "muted = (184, 196, 214)"

definition title :: "bool \<Rightarrow> string" where
  "title waking = (if waking then ''CAMERA WAKING UP'' else ''CAMERA SLEEPING'')"

definition subtitle :: "bool \<Rightarrow> string" where
  "subtitle waking = (if waking then ''PLEASE WAIT 20-30 SECONDS'' else ''OPEN LIVE VIEW TO WAKE'')"

text \<open>Everything in the accent colour.\<close>

definition icon :: "bool \<Rightarrow> point list" where
  "icon waking = rectangle 380 82 570 218 7 @ circle 475 150 36 7 @ wedge @ (if waking then rays else [])"

definition blank :: "colour \<Rightarrow> bytes" where
  "blank c = concat (replicate (nat (WIDTH * HEIGHT)) (colour_bytes c))"

definition picture :: "bool \<Rightarrow> exn + bytes" where
  "picture waking =
     (let drawn = draw (accent waking) (icon waking) (blank (background waking)) in
      sbind (text_points (title waking) 282 7) (\<lambda>large.
      sbind (text_points (subtitle waking) 374 4) (\<lambda>small.
      Inr (draw muted small (draw foreground large drawn)))))"

definition make_placeholder :: "(bytes \<Rightarrow> bytes) \<Rightarrow> bool \<Rightarrow> exn + bytes" where
  "make_placeholder compress waking = sbind (picture waking) (png_file compress)"

section \<open>The buffer as a picture\<close>

definition SIZE :: nat where "SIZE = 1555200"

definition on_screen :: "point \<Rightarrow> bool" where
  "on_screen p \<longleftrightarrow> (case p of (x, y) \<Rightarrow> 0 \<le> x \<and> x < WIDTH \<and> 0 \<le> y \<and> y < HEIGHT)"

definition colour_at :: "bytes \<Rightarrow> point \<Rightarrow> colour" where
  "colour_at pixels p = (case p of (x, y) \<Rightarrow>
     let offset = nat ((y * WIDTH + x) * 3) in (pixels ! offset, pixels ! (offset + 1), pixels ! (offset + 2)))"

text \<open>The number of a point, whose three bytes the buffer holds.\<close>

definition slot :: "point \<Rightarrow> nat" where
  "slot p = nat (snd p * WIDTH + fst p)"

lemma slot_bound: "on_screen p \<Longrightarrow> 3 * slot p + 3 \<le> SIZE"
proof -
  assume p: "on_screen p"
  obtain x y where xy: "p = (x, y)" by (cases p)
  with p have "0 \<le> y * 960 + x" "y * 960 + x \<le> 539 * 960 + 959" by (auto simp: on_screen_def)
  then have "nat (y * 960 + x) \<le> 518399" by simp
  then show ?thesis by (simp add: slot_def SIZE_def xy)
qed

lemma slot_inject: "on_screen p \<Longrightarrow> on_screen q \<Longrightarrow> slot p = slot q \<longleftrightarrow> p = q"
proof
  assume on: "on_screen p" "on_screen q" and s: "slot p = slot q"
  obtain x y u v where xy: "p = (x, y)" "q = (u, v)" by (cases p, cases q)
  from on xy have b: "0 \<le> x" "x < 960" "0 \<le> u" "u < 960" "0 \<le> y" "0 \<le> v" by (auto simp: on_screen_def)
  with s xy have e: "y * 960 + x = v * 960 + u" by (simp add: slot_def eq_nat_nat_iff)
  have "(y * 960 + x) mod 960 = x" "(v * 960 + u) mod 960 = u" using b by simp_all
  with e have "x = u" by simp
  with e xy show "p = q" by simp
qed simp

lemma offset_slot: "on_screen (x, y) \<Longrightarrow> nat ((y * WIDTH + x) * 3) = 3 * slot (x, y)"
  by (simp add: slot_def on_screen_def nat_mult_distrib)

lemma colour_at_slot: "on_screen p \<Longrightarrow> colour_at px p = (px ! (3 * slot p), px ! (3 * slot p + 1), px ! (3 * slot p + 2))"
  by (cases p) (simp only: colour_at_def prod.case offset_slot Let_def)

lemma pixel_slot:
  "pixel c p px = (if on_screen p then take (3 * slot p) px @ colour_bytes c @ drop (3 * slot p + 3) px else px)"
proof (cases "on_screen p")
  case True
  obtain x y where p: "p = (x, y)" by (cases p)
  with True have b: "0 \<le> x \<and> x < WIDTH \<and> 0 \<le> y \<and> y < HEIGHT" by (simp add: on_screen_def)
  show ?thesis using True unfolding p pixel_def prod.case if_P [OF b] Let_def by (simp only: offset_slot if_True)
next
  case False
  obtain x y where p: "p = (x, y)" by (cases p)
  with False have b: "\<not> (0 \<le> x \<and> x < WIDTH \<and> 0 \<le> y \<and> y < HEIGHT)" by (simp add: on_screen_def)
  show ?thesis using False unfolding p pixel_def prod.case if_not_P [OF b] by simp
qed

lemma length_colour_bytes [simp]: "length (colour_bytes c) = 3"
  by (simp add: colour_bytes_def split: prod.split)

lemma length_pixel: "length px = SIZE \<Longrightarrow> length (pixel c p px) = SIZE"
proof (cases "on_screen p")
  case True
  assume "length px = SIZE"
  with slot_bound [OF True] show ?thesis by (simp add: pixel_slot True)
qed (simp add: pixel_slot)

lemma length_draw: "length px = SIZE \<Longrightarrow> length (draw c ps px) = SIZE"
  unfolding draw_def by (induction ps arbitrary: px) (simp_all add: length_pixel)

lemma nth_splice:
  assumes "3 * i + 3 \<le> length px" "length bs = 3" "k < 3"
  shows "(take (3 * i) px @ bs @ drop (3 * i + 3) px) ! (3 * j + k) = (if i = j then bs ! k else px ! (3 * j + k))"
proof -
  have t: "length (take (3 * i) px) = 3 * i" using assms(1) by simp
  consider "j < i" | "j = i" | d where "j = Suc (i + d)" by (metis less_iff_Suc_add linorder_neqE_nat)
  then show ?thesis
  proof cases
    case 1
    with assms(3) have "3 * j + k < 3 * i" by linarith
    with 1 t show ?thesis by (simp add: nth_append)
  next
    case 2
    with assms(2,3) t show ?thesis by (simp add: nth_append)
  next
    case 3
    with assms t show ?thesis by (simp add: nth_append ac_simps)
  qed
qed

lemma colour_at_pixel:
  assumes "length px = SIZE" "on_screen q"
  shows "colour_at (pixel c p px) q = (if p = q then c else colour_at px q)"
proof (cases "on_screen p")
  case True
  have l: "3 * slot p + 3 \<le> length px" using slot_bound [OF True] assms(1) by simp
  note at = nth_splice [OF l length_colour_bytes [of c]]
  show ?thesis
    using at [of 0 "slot q"] at [of 1 "slot q"] at [of 2 "slot q"] slot_inject [OF True assms(2)]
    by (cases c) (simp add: colour_at_slot [OF assms(2)] pixel_slot True colour_bytes_def)
qed (use assms(2) in \<open>auto simp: pixel_slot\<close>)

lemma colour_at_draw:
  "length px = SIZE \<Longrightarrow> on_screen q \<Longrightarrow> colour_at (draw c ps px) q = (if q \<in> set ps then c else colour_at px q)"
  unfolding draw_def by (induction ps arbitrary: px) (auto simp: length_pixel colour_at_pixel)

lemma length_replicate_colour: "length (concat (replicate n (colour_bytes c))) = 3 * n"
  by (induction n) simp_all

lemma length_blank: "length (blank c) = SIZE"
  by (simp only: blank_def length_replicate_colour) (simp add: SIZE_def)

lemma nth_blank: "k < 3 \<Longrightarrow> i < n \<Longrightarrow> concat (replicate n (colour_bytes c)) ! (3 * i + k) = colour_bytes c ! k"
proof (induction n arbitrary: i)
  case (Suc n)
  then show ?case by (cases i) (simp_all add: nth_append)
qed simp

lemma colour_at_blank: "on_screen q \<Longrightarrow> colour_at (blank c) q = c"
proof -
  assume q: "on_screen q"
  have i: "slot q < nat (WIDTH * HEIGHT)" using slot_bound [OF q] by (simp add: SIZE_def)
  have "blank c ! (3 * slot q + k) = colour_bytes c ! k" if "k < 3" for k
    unfolding blank_def by (rule nth_blank [OF that i])
  from this [of 0] this [of 1] this [of 2] show ?thesis
    by (cases c) (simp add: colour_at_slot [OF q] colour_bytes_def)
qed

section \<open>The text is drawn\<close>

lemma glyphs_ok: "list_all (\<lambda>c. map_of FONT c \<noteq> None) cs \<Longrightarrow> \<exists>ps. glyphs left y scale cs = Inr ps"
proof (induction cs arbitrary: left)
  case (Cons c cs)
  then obtain ps where "glyphs (left + 5 * scale + scale) y scale cs = Inr ps" by auto
  with Cons.prems show ?case by auto
qed simp

lemma captions_ok: "\<exists>ps. text_points (title waking) y scale = Inr ps" "\<exists>ps. text_points (subtitle waking) y scale = Inr ps"
  unfolding text_points_def Let_def
  by (rule glyphs_ok, simp add: title_def subtitle_def FONT_def)+

text \<open>C33: Both pictures are drawn without error into a buffer of exactly three bytes for each of the 960 by 540
  points, and the buffer is the picture that is meant: each point has the colour of the last shape
  drawn over it, the subtitle over the title over the icon over the background, and no shape that
  sticks out of the screen touches any other point.\<close>

theorem picture_painted:
  "\<exists>px large small. picture waking = Inr px \<and> text_points (title waking) 282 7 = Inr large \<and>
     text_points (subtitle waking) 374 4 = Inr small \<and> length px = SIZE \<and>
     (\<forall>q. on_screen q \<longrightarrow> colour_at px q =
        (if q \<in> set small then muted else if q \<in> set large then foreground
         else if q \<in> set (icon waking) then accent waking else background waking))"
proof -
  obtain large small where t: "text_points (title waking) 282 7 = Inr large" "text_points (subtitle waking) 374 4 = Inr small"
    using captions_ok by blast
  then show ?thesis
    by (auto simp: picture_def Let_def length_draw length_blank colour_at_draw colour_at_blank)
qed

theorem picture_painted_witness:
  "\<exists>px. picture True = Inr px \<and> colour_at px (0, 0) \<in> {background True, accent True, foreground, muted}"
proof -
  have "on_screen (0, 0)" by (simp add: on_screen_def)
  then show ?thesis using picture_painted [of True] by (metis insertI1 insertI2)
qed

section \<open>Reading the file back\<close>

text \<open>A decoder of the chunks that checks their sums, and of a file of 8 bit RGB scanlines without filters.\<close>

definition read_chunk :: "bytes \<Rightarrow> (bytes \<times> bytes \<times> bytes) option" where
  "read_chunk bs =
     (let n = be_nat (take 4 bs); name = pyslice 4 8 bs; payload = pyslice 8 (8 + n) bs in
      if n + 12 \<le> length bs \<and> be_nat (pyslice (8 + n) (12 + n) bs) = unat (crc32 (name @ payload))
      then Some (name, payload, drop (12 + n) bs) else None)"

definition read_line :: "nat \<Rightarrow> bytes \<Rightarrow> nat \<Rightarrow> bytes option" where
  "read_line width rows y = (case pyslice (y * (3 * width + 1)) ((y + 1) * (3 * width + 1)) rows of
      f # line \<Rightarrow> if f = 0 then Some line else None | [] \<Rightarrow> None)"

definition read_png :: "(bytes \<Rightarrow> bytes) \<Rightarrow> bytes \<Rightarrow> (nat \<times> nat \<times> bytes) option" where
  "read_png decompress file =
     (if take 8 file \<noteq> png_signature then None
      else case read_chunk (drop 8 file) of
        Some (n1, h, r1) \<Rightarrow>
          (case read_chunk r1 of
             Some (n2, z, r2) \<Rightarrow>
               (case read_chunk r2 of
                  Some (n3, e, r3) \<Rightarrow>
                    let width = be_nat (take 4 h); height = be_nat (pyslice 4 8 h);
                        rows = map (read_line width (decompress z)) [0..<height]
                    in if n1 = ascii_bytes ''IHDR'' \<and> drop 8 h = [8, 2, 0, 0, 0] \<and> n2 = ascii_bytes ''IDAT'' \<and>
                          n3 = ascii_bytes ''IEND'' \<and> e = [] \<and> r3 = [] \<and> None \<notin> set rows \<and>
                          length (decompress z) = height * (3 * width + 1)
                       then Some (width, height, concat (map the rows)) else None
                | None \<Rightarrow> None)
           | None \<Rightarrow> None)
      | None \<Rightarrow> None)"

lemma read_chunk_png:
  assumes "png_chunk name payload = Inr bs" "length name = 4"
  shows "read_chunk (bs @ rest) = Some (name, payload, rest)"
proof -
  let ?c = "unat (crc32 (name @ payload))"
  have n: "length payload < 2 ^ 32" "?c < 2 ^ 32"
    and bs: "bs = be_bytes 4 (length payload) @ name @ payload @ be_bytes 4 ?c"
    using assms(1) by (auto simp: png_chunk_def pack_u32_def sbind_eq_Inr split: if_splits)
  have "be_nat (be_bytes 4 (length payload)) = length payload" "be_nat (be_bytes 4 ?c) = ?c"
    using n by (simp_all add: be_nat_be_bytes)
  then show ?thesis
    using assms(2) by (simp add: read_chunk_def bs pyslice_def)
qed

lemma png_chunk_ok: "length payload < 2 ^ 32 \<Longrightarrow> \<exists>bs. png_chunk name payload = Inr bs"
  using unsigned_less [of "crc32 (name @ payload)"] by (simp add: png_chunk_def pack_u32_def)

text \<open>Blocks of one length, taken apart again.\<close>

lemma length_blocks: "(\<And>y. y < h \<Longrightarrow> length (f y) = n) \<Longrightarrow> length (concat (map f [0..<h])) = h * n"
  by (induction h) simp_all

lemma block_slice:
  assumes "\<And>y. y < h \<Longrightarrow> length (f y) = n" "y < h"
  shows "pyslice (y * n) ((y + 1) * n) (concat (map f [0..<h])) = f y"
  using assms
proof (induction h)
  case (Suc h)
  have l: "length (concat (map f [0..<h])) = h * n" using Suc.prems(1) by (intro length_blocks) simp
  show ?case
  proof (cases "y = h")
    case True
    with l Suc.prems(1) [of h] show ?thesis by (simp add: pyslice_append_right pyslice_all)
  next
    case False
    then have y: "y < h" using Suc.prems(2) by simp
    then have "(y + 1) * n \<le> h * n" by (intro mult_le_mono) auto
    with l Suc.IH [OF _ y] Suc.prems(1) show ?thesis by (simp add: pyslice_append_left)
  qed
qed simp

lemma concat_slices: "length px = h * n \<Longrightarrow> concat (map (\<lambda>y. pyslice (y * n) ((y + 1) * n) px) [0..<h]) = px"
proof (induction h arbitrary: px)
  case (Suc h)
  have "pyslice (y * n) ((y + 1) * n) px = pyslice (y * n) ((y + 1) * n) (take (h * n) px)" if "y < h" for y
  proof -
    have "(y + 1) * n \<le> h * n" using that by (intro mult_le_mono) auto
    then have "pyslice (y * n) ((y + 1) * n) (take (h * n) px @ drop (h * n) px) = pyslice (y * n) ((y + 1) * n) (take (h * n) px)"
      using Suc.prems by (intro pyslice_append_left) simp
    then show ?thesis by simp
  qed
  then have e: "map (\<lambda>y. pyslice (y * n) ((y + 1) * n) px) [0..<h] = map (\<lambda>y. pyslice (y * n) ((y + 1) * n) (take (h * n) px)) [0..<h]"
    by (intro map_cong refl) simp
  have c: "concat (map (\<lambda>y. pyslice (y * n) ((y + 1) * n) (take (h * n) px)) [0..<h]) = take (h * n) px"
    using Suc.prems by (intro Suc.IH) simp
  have "pyslice (h * n) ((h + 1) * n) px = drop (h * n) px" using Suc.prems by (simp add: pyslice_def)
  with e c have "concat (map (\<lambda>y. pyslice (y * n) ((y + 1) * n) px) [0..<h]) @ pyslice (h * n) ((h + 1) * n) px = px"
    by (simp only: append_take_drop_id)
  then show ?case by simp
qed simp

definition scanline :: "bytes \<Rightarrow> nat \<Rightarrow> bytes" where
  "scanline px y = 0 # pyslice (y * 2880) ((y + 1) * 2880) px"

lemma scanlines_blocks: "scanlines px = concat (map (scanline px) [0..<540])"
  by (simp add: scanlines_def scanline_def [abs_def])

lemma length_scanline: "length px = SIZE \<Longrightarrow> y < 540 \<Longrightarrow> length (scanline px y) = 2881"
  by (simp add: scanline_def SIZE_def)

lemma read_scanline: "length px = SIZE \<Longrightarrow> y < 540 \<Longrightarrow>
    read_line 960 (scanlines px) y = Some (pyslice (y * 2880) ((y + 1) * 2880) px)"
  using block_slice [of 540 "scanline px" 2881 y] length_scanline [of px]
  by (simp add: read_line_def scanlines_blocks) (simp add: scanline_def)

lemma length_scanlines: "length px = SIZE \<Longrightarrow> length (scanlines px) = 540 * 2881"
  unfolding scanlines_blocks by (rule length_blocks) (rule length_scanline)

lemma read_scanlines:
  assumes "length px = SIZE"
  shows "map (read_line 960 (scanlines px)) [0..<540] = map (\<lambda>y. Some (pyslice (y * 2880) ((y + 1) * 2880) px)) [0..<540]"
  by (intro map_cong refl read_scanline [OF assms]) simp

text \<open>C32: The file that is built for a picture is a well-formed one: whatever the compressor, as long as the
  decompressor inverts it and its output fits the length field, a decoder that checks the chunk sums finds the header,
  the data and the end, 960 by 540 points in eight bit RGB without filters, and the very bytes of the picture.\<close>

theorem placeholder_reads_back:
  assumes "decompress (compress (scanlines px)) = scanlines px" "length (compress (scanlines px)) < 2 ^ 32"
    "picture waking = Inr px"
  shows "\<exists>file. make_placeholder compress waking = Inr file \<and> read_png decompress file = Some (960, 540, px)"
proof -
  have px: "length px = SIZE"
    using assms(3) by (auto simp: picture_def Let_def sbind_eq_Inr length_draw length_blank)
  have h: "length png_header < 2 ^ 32" by (simp add: png_header_def)
  obtain ihdr where i: "png_chunk (ascii_bytes ''IHDR'') png_header = Inr ihdr" using png_chunk_ok [OF h] by blast
  obtain idat where d: "png_chunk (ascii_bytes ''IDAT'') (compress (scanlines px)) = Inr idat"
    using png_chunk_ok [OF assms(2)] by blast
  obtain iend where e: "png_chunk (ascii_bytes ''IEND'') [] = Inr iend" using png_chunk_ok [of "[]"] by auto
  have whole: "make_placeholder compress waking = Inr (png_signature @ ihdr @ idat @ iend)"
    by (simp add: make_placeholder_def assms(3) png_file_def i d e)
  have n: "length (ascii_bytes ''IHDR'') = 4" "length (ascii_bytes ''IDAT'') = 4" "length (ascii_bytes ''IEND'') = 4"
    by (simp_all add: ascii_bytes_def)
  have r: "read_chunk (ihdr @ idat @ iend) = Some (ascii_bytes ''IHDR'', png_header, idat @ iend)"
    "read_chunk (idat @ iend) = Some (ascii_bytes ''IDAT'', compress (scanlines px), iend)"
    "read_chunk iend = Some (ascii_bytes ''IEND'', [], [])"
    using read_chunk_png [OF i n(1)] read_chunk_png [OF d n(2)] read_chunk_png [OF e n(3), of "[]"] by simp_all
  have w: "be_nat (take 4 png_header) = 960" "be_nat (pyslice 4 8 png_header) = 540" "drop 8 png_header = [8, 2, 0, 0, 0]"
    by (simp_all add: png_header_def pyslice_def be_nat_be_bytes)
  have s: "take 8 (png_signature @ bs) = png_signature" "drop 8 (png_signature @ bs) = bs" for bs
    by (simp_all add: png_signature_def)
  have rows: "concat (map the (map (read_line 960 (scanlines px)) [0..<540])) = px"
    "None \<notin> set (map (read_line 960 (scanlines px)) [0..<540])"
    using concat_slices [of px 540 2880] px
    by (simp_all only: read_scanlines [OF px]) (simp add: comp_def SIZE_def, auto)
  have "read_png decompress (png_signature @ ihdr @ idat @ iend) = Some (960, 540, px)"
    unfolding read_png_def s
    by (simp only: r option.case prod.case w Let_def assms(1) rows length_scanlines [OF px]) simp
  with whole show ?thesis by blast
qed

theorem placeholder_reads_back_witness:
  "\<exists>px file. picture False = Inr px \<and> make_placeholder (\<lambda>b. b) False = Inr file \<and> read_png (\<lambda>b. b) file = Some (960, 540, px)"
proof -
  obtain large small where "text_points (title False) 282 7 = Inr large" "text_points (subtitle False) 374 4 = Inr small"
    using captions_ok by blast
  then obtain px where px: "picture False = Inr px" by (auto simp: picture_def Let_def)
  then have "length px = SIZE" by (auto simp: picture_def Let_def sbind_eq_Inr length_draw length_blank)
  then have "length (scanlines px) < 2 ^ 32" by (simp add: length_scanlines)
  from placeholder_reads_back [where compress = "\<lambda>b. b" and decompress = "\<lambda>b. b", OF refl this px] px show ?thesis by blast
qed

text \<open>The outer of the two columns of the lens' right edge lies just behind the range it is looked for in: it is
  never drawn.\<close>

lemma wedge_outer_edge_missing:
  "(x, y) \<in> set wedge \<Longrightarrow> x \<noteq> 591 + max 0 (if y < 153 then (y - 115) div 3 else (190 - y) div 3)"
  by (auto simp: wedge_def range_of_def Let_def)

end
