(* ===== verification/Integration.thy ===== *)
theory Integration
  imports Bridge Placeholder
begin

text \<open>
  The Home Assistant integration (\<open>custom_components/okam\<close>): the client of the bridge's API, the
  validation of a configuration and its forms, the status coordinator, and the camera entity with its
  wake watcher. The HTTP library is a parameter: what each call gave (status, content type, decoded
  and raw body, or an exception) is a script, and so are the readings of the event loop's clock. The
  framework's own entities, registries and forms are represented by what the code asks of them.
\<close>

section \<open>The client of the bridge\<close>

record reply =
  reply_status :: int
  status_error :: "exn option"
  json_typed :: bool
  reply_json :: "exn + json"
  reply_raw :: "exn + bytes"

record api_call =
  call_verb :: string
  call_url :: pystr
  bearer :: "pystr option"
  total_timeout :: nat
  call_json :: "json option"

record api_log =
  calls :: "api_call list"
  replies :: "(exn + reply) list"

record api_client =
  base_url :: pystr
  client_token :: pystr

datatype api_result = Parsed json | Raw bytes

definition new_client :: "pystr \<Rightarrow> pystr \<Rightarrow> api_client" where
  "new_client given token = \<lparr>base_url = rev (dropWhile (\<lambda>c. c = 47) (rev given)), client_token = token\<rparr>"

definition session_request :: "api_call \<Rightarrow> ('z api_log_scheme, reply) eff" where
  "session_request q = (\<lambda>s. case replies s of
      [] \<Rightarrow> (Halt, s)
    | r # rs \<Rightarrow> lift_sum r (s\<lparr>calls := calls s @ [q], replies := rs\<rparr>))"

definition raise_for_status :: "reply \<Rightarrow> ('s, unit) eff" where
  "raise_for_status r = (case status_error r of None \<Rightarrow> ret () | Some e \<Rightarrow> raise e)"

text \<open>\<open>except (ClientError, TimeoutError)\<close>.\<close>

definition unreachable :: "exn \<Rightarrow> ('s, 'a) eff" where
  "unreachable e = (if e = ClientError \<or> e = AsyncTimeout then raise (ApiError ''unable to reach O-KAM bridge'') else raise e)"

definition api_request ::
    "api_client \<Rightarrow> string \<Rightarrow> pystr \<Rightarrow> nat \<Rightarrow> json option \<Rightarrow> ('z api_log_scheme, api_result) eff" where
  "api_request c how path timeout body =
     catch
       (bind (session_request \<lparr>call_verb = how, call_url = base_url c @ path,
                bearer = Some (str ''Bearer '' @ client_token c), total_timeout = timeout, call_json = body\<rparr>) (\<lambda>r.
        if reply_status r = 401 then raise (ApiAuthError ''invalid bridge API token'')
        else
          seq (raise_for_status r)
            (if json_typed r then bind (lift_sum (reply_json r)) (\<lambda>j. ret (Parsed j))
             else bind (lift_sum (reply_raw r)) (\<lambda>bs. ret (Raw bs)))))
       unreachable"

definition api_health :: "api_client \<Rightarrow> ('z api_log_scheme, json) eff" where
  "api_health c =
     catch
       (bind (session_request \<lparr>call_verb = ''GET'', call_url = base_url c @ str ''/health'', bearer = None,
                total_timeout = 15, call_json = None\<rparr>) (\<lambda>r.
        seq (raise_for_status r) (lift_sum (reply_json r))))
       unreachable"

definition api_devices :: "api_client \<Rightarrow> ('z api_log_scheme, api_result) eff" where
  "api_devices c = api_request c ''GET'' (str ''/api/devices'') 15 None"

definition camera_path :: "pystr \<Rightarrow> string \<Rightarrow> pystr" where
  "camera_path camera suffix = str ''/api/cameras/'' @ camera @ str suffix"

definition api_status :: "api_client \<Rightarrow> pystr \<Rightarrow> ('z api_log_scheme, api_result) eff" where
  "api_status c camera = api_request c ''GET'' (camera_path camera ''/status'') 15 None"

definition api_snapshot :: "api_client \<Rightarrow> pystr \<Rightarrow> ('z api_log_scheme, api_result) eff" where
  "api_snapshot c camera = api_request c ''GET'' (camera_path camera ''/snapshot.jpg'') 90 None"

definition api_configure :: "api_client \<Rightarrow> pystr \<Rightarrow> int \<Rightarrow> ('z api_log_scheme, unit) eff" where
  "api_configure c camera idle =
     bind (api_request c ''PATCH'' (camera_path camera ''/config'') 15
       (Some (JObj [(str ''idle_timeout_seconds'', JInt idle)]))) (\<lambda>_. ret ())"

text \<open>\<open>str(value)\<close>; how floats and containers print is a parameter.\<close>

definition text_of :: "(json \<Rightarrow> pystr) \<Rightarrow> json \<Rightarrow> pystr" where
  "text_of shown j = (case j of JStr s \<Rightarrow> s | JInt n \<Rightarrow> show_int n | JBool b \<Rightarrow> str (if b then ''True'' else ''False'')
     | JNull \<Rightarrow> str ''None'' | _ \<Rightarrow> shown j)"

definition api_stream_source :: "(json \<Rightarrow> pystr) \<Rightarrow> api_client \<Rightarrow> pystr \<Rightarrow> ('z api_log_scheme, pystr) eff" where
  "api_stream_source shown c camera =
     bind (api_request c ''GET'' (camera_path camera ''/stream/source'') 15 None) (\<lambda>result. case result of
       Parsed (JObj d) \<Rightarrow>
         if has_key d (str ''stream_url'') then ret (text_of shown (json_get d ''stream_url'')) else raise KeyError
     | _ \<Rightarrow> raise TypeError)"

section \<open>Configuration\<close>

text \<open>\<open>devices[0]["camera_id"] if devices else ""\<close>.\<close>

definition first_camera :: "api_result \<Rightarrow> exn + json" where
  "first_camera devices = (case devices of
      Parsed (JList (JObj d # _)) \<Rightarrow> if has_key d (str ''camera_id'') then Inr (json_get d ''camera_id'') else Inl KeyError
    | Parsed (JObj (_ # _)) \<Rightarrow> Inl KeyError
    | Parsed j \<Rightarrow> if truthy j then Inl TypeError else Inr (JStr [])
    | Raw bs \<Rightarrow> if bs = [] then Inr (JStr []) else Inl TypeError)"

definition same_json :: "json \<Rightarrow> json \<Rightarrow> bool" where
  "same_json i j \<longleftrightarrow> i = j \<and> i \<noteq> JFloat (str ''NaN'')"

text \<open>\<open>any(item.get("camera_id") == camera_id for item in devices)\<close>.\<close>

primrec lists_camera :: "json \<Rightarrow> json list \<Rightarrow> exn + bool" where
  "lists_camera camera [] = Inr False"
| "lists_camera camera (item # items) = (case item of
      JObj d \<Rightarrow> if same_json (json_get d ''camera_id'') camera then Inr True else lists_camera camera items
    | _ \<Rightarrow> Inl AttributeError)"

definition known_camera :: "json \<Rightarrow> api_result \<Rightarrow> exn + bool" where
  "known_camera camera devices = (case devices of
      Parsed (JList items) \<Rightarrow> lists_camera camera items
    | Parsed (JObj d) \<Rightarrow> if d = [] then Inr False else Inl AttributeError
    | Parsed (JStr s) \<Rightarrow> if s = [] then Inr False else Inl AttributeError
    | Parsed _ \<Rightarrow> Inl TypeError
    | Raw bs \<Rightarrow> if bs = [] then Inr False else Inl AttributeError)"

definition choose_camera :: "(pystr \<times> json) list \<Rightarrow> api_result \<Rightarrow> exn + (pystr \<times> json) list" where
  "choose_camera form devices =
     (let given = json_get form ''camera_id'' in
      sbind (if truthy given then Inr given else first_camera devices) (\<lambda>camera.
      sbind (if truthy camera then known_camera camera devices else Inr False) (\<lambda>known.
      if known then Inr (AList.update (str ''camera_id'') camera form) else Inl ValueError)))"

text \<open>The form's schema makes the URL and the token texts.\<close>

definition text_field :: "(pystr \<times> json) list \<Rightarrow> string \<Rightarrow> pystr" where
  "text_field form name = (case json_get form name of JStr s \<Rightarrow> s | _ \<Rightarrow> [])"

definition validate :: "(pystr \<times> json) list \<Rightarrow> ('z api_log_scheme, (pystr \<times> json) list) eff" where
  "validate form =
     (let c = new_client (text_field form ''bridge_url'') (text_field form ''api_token'') in
      bind (api_health c) (\<lambda>_. bind (api_devices c) (\<lambda>devices. lift_sum (choose_camera form devices))))"

fun flow_error :: "exn \<Rightarrow> string option" where
  "flow_error (ApiAuthError _) = Some ''invalid_auth''"
| "flow_error (ApiError _) = Some ''cannot_connect''"
| "flow_error e = (if is_value_error e then Some ''camera_not_found'' else None)"

datatype flow_result =
    Form string "(string \<times> string) list"
  | Created pystr "(pystr \<times> json) list"
  | Aborted
  | Updated "(pystr \<times> json) list"

text \<open>What a step does with its input: the three steps differ in what they do once it is valid.\<close>

definition step_with ::
    "string \<Rightarrow> (pystr \<times> json) list option \<Rightarrow> ((pystr \<times> json) list \<Rightarrow> flow_result) \<Rightarrow> ('z api_log_scheme, flow_result) eff" where
  "step_with name input accepted = (case input of
      None \<Rightarrow> ret (Form name [])
    | Some form \<Rightarrow> catch (bind (validate form) (\<lambda>valid. ret (accepted valid)))
        (\<lambda>e. case flow_error e of Some m \<Rightarrow> ret (Form name [(''base'', m)]) | None \<Rightarrow> raise e))"

definition step_user ::
    "(pystr \<Rightarrow> pystr) \<Rightarrow> (pystr \<Rightarrow> bool) \<Rightarrow> (pystr \<times> json) list option \<Rightarrow> ('z api_log_scheme, flow_result) eff" where
  "step_user lower configured input = step_with ''user'' input (\<lambda>form.
     let unique = lower (text_field form ''bridge_url'') in if configured unique then Aborted else Created unique form)"

definition step_reconfigure :: "(pystr \<times> json) list option \<Rightarrow> ('z api_log_scheme, flow_result) eff" where
  "step_reconfigure input = step_with ''reconfigure'' input Updated"

definition step_reauth ::
    "(pystr \<times> json) list \<Rightarrow> (pystr \<times> json) list option \<Rightarrow> ('z api_log_scheme, flow_result) eff" where
  "step_reauth entry input = step_with ''reauth_confirm'' (map_option (\<lambda>user. fold (\<lambda>(k, v). AList.update k v) user entry) input) Updated"

section \<open>The coordinator\<close>

definition update_interval :: "int \<Rightarrow> int" where
  "update_interval seconds = max 60 seconds"

definition update_data :: "api_client \<Rightarrow> pystr \<Rightarrow> ('z api_log_scheme, api_result) eff" where
  "update_data c camera = catch (api_status c camera) (\<lambda>e. case e of
      ApiError m \<Rightarrow> raise (UpdateFailed m) | ApiAuthError m \<Rightarrow> raise (UpdateFailed m) | _ \<Rightarrow> raise e)"

section \<open>The camera entity\<close>

datatype watcher = No_Watcher | Watching | Watcher_Done

datatype picture_shown = Sleeping_Placeholder | Waking_Placeholder | Snapshot api_result

record camera_entity = api_log +
  bridge_state :: pystr
  wake_watcher :: watcher
  watchers_started :: nat
  last_snapshot :: "api_result option"
  content_type :: string
  state_writes :: nat
  clock :: "rat list"

definition publish_bridge_state :: "pystr \<Rightarrow> ('z camera_entity_scheme, unit) eff" where
  "publish_bridge_state state = modify (\<lambda>s.
     if state = bridge_state s then s else s\<lparr>bridge_state := state, state_writes := Suc (state_writes s)\<rparr>)"

definition ensure_wake_watcher :: "('z camera_entity_scheme, unit) eff" where
  "ensure_wake_watcher = modify (\<lambda>s.
     if wake_watcher s = Watching then s else s\<lparr>wake_watcher := Watching, watchers_started := Suc (watchers_started s)\<rparr>)"

definition cancel_wake_watcher :: "('z camera_entity_scheme, unit) eff" where
  "cancel_wake_watcher = modify (wake_watcher_update (\<lambda>_. No_Watcher))"

text \<open>\<open>str(status.get("state", "waking"))\<close>.\<close>

definition state_of :: "(json \<Rightarrow> pystr) \<Rightarrow> api_result \<Rightarrow> exn + pystr" where
  "state_of shown result = (case result of
      Parsed (JObj d) \<Rightarrow> Inr (text_of shown (dict_get d (str ''state'') (JStr (str ''waking''))))
    | _ \<Rightarrow> Inl AttributeError)"

definition loop_clock :: "('z camera_entity_scheme, rat) eff" where
  "loop_clock = (\<lambda>s. case clock s of [] \<Rightarrow> (Halt, s) | t # ts \<Rightarrow> (Ret t, s\<lparr>clock := ts\<rparr>))"

text \<open>One round of the watcher: \<open>Inr\<close> when it is done. Only the call of the API is guarded.\<close>

definition watch_round ::
    "(json \<Rightarrow> pystr) \<Rightarrow> api_client \<Rightarrow> pystr \<Rightarrow> rat \<Rightarrow> unit \<Rightarrow> ('z camera_entity_scheme, unit + unit) eff" where
  "watch_round shown c camera deadline = (\<lambda>_.
     bind loop_clock (\<lambda>now.
     if \<not> now < deadline then ret (Inr ())
     else
       bind (catch (bind (api_status c camera) (\<lambda>r. ret (Some r))) (\<lambda>_. ret None)) (\<lambda>answer.
       case answer of
         None \<Rightarrow> ret (Inl ())
       | Some result \<Rightarrow>
           bind (lift_sum (state_of shown result)) (\<lambda>state.
           seq (publish_bridge_state state)
             (ret (if state = str ''streaming'' then Inr () else Inl ()))))))"

definition watch_until_streaming :: "(json \<Rightarrow> pystr) \<Rightarrow> api_client \<Rightarrow> pystr \<Rightarrow> ('z camera_entity_scheme, unit) eff" where
  "watch_until_streaming shown c camera =
     bind loop_clock (\<lambda>start.
     bind (gets (\<lambda>s. Suc (length (clock s)))) (\<lambda>fuel.
     loop fuel (watch_round shown c camera (start + 90)) ()))"

definition show_as :: "string \<Rightarrow> picture_shown \<Rightarrow> ('z camera_entity_scheme, picture_shown) eff" where
  "show_as mime shot = seq (modify (content_type_update (\<lambda>_. mime))) (ret shot)"

definition current_image :: "(json \<Rightarrow> pystr) \<Rightarrow> api_client \<Rightarrow> pystr \<Rightarrow> ('z camera_entity_scheme, picture_shown) eff" where
  "current_image shown c camera =
     bind (api_status c camera) (\<lambda>result.
     bind (lift_sum (state_of shown result)) (\<lambda>state.
     seq (publish_bridge_state state)
     (if state = str ''idle'' then show_as ''image/png'' Sleeping_Placeholder
      else if state = str ''waking'' then seq ensure_wake_watcher (show_as ''image/png'' Waking_Placeholder)
      else bind (api_snapshot c camera) (\<lambda>shot.
        seq (modify (last_snapshot_update (\<lambda>_. Some shot))) (show_as ''image/jpeg'' (Snapshot shot))))))"

definition camera_image :: "(json \<Rightarrow> pystr) \<Rightarrow> api_client \<Rightarrow> pystr \<Rightarrow> ('z camera_entity_scheme, picture_shown) eff" where
  "camera_image shown c camera =
     catch (current_image shown c camera) (\<lambda>_.
       bind (gets last_snapshot) (\<lambda>held. case held of
         Some shot \<Rightarrow> show_as ''image/jpeg'' (Snapshot shot)
       | None \<Rightarrow> seq ensure_wake_watcher (show_as ''image/png'' Waking_Placeholder)))"

definition entity_stream_source :: "(json \<Rightarrow> pystr) \<Rightarrow> api_client \<Rightarrow> pystr \<Rightarrow> ('z camera_entity_scheme, pystr) eff" where
  "entity_stream_source shown c camera = seq ensure_wake_watcher (api_stream_source shown c camera)"

section \<open>What a call does\<close>

definition bearer_call :: "api_client \<Rightarrow> string \<Rightarrow> pystr \<Rightarrow> nat \<Rightarrow> json option \<Rightarrow> api_call" where
  "bearer_call c how path timeout body = \<lparr>call_verb = how, call_url = base_url c @ path,
     bearer = Some (str ''Bearer '' @ client_token c), total_timeout = timeout, call_json = body\<rparr>"

lemma api_request_cases:
  assumes "api_request c how path timeout body s = (r, t)"
  obtains "r = Halt" "t = s" "replies s = []"
  | a where "replies s = a # replies t" "t = s\<lparr>calls := calls s @ [bearer_call c how path timeout body], replies := replies t\<rparr>"
      "r \<noteq> Halt"
proof (cases "replies s")
  case Nil
  with assms show ?thesis
    by (intro that(1)) (auto simp: api_request_def session_request_def bind_def catch_def)
next
  case (Cons a rs)
  let ?t = "s\<lparr>calls := calls s @ [bearer_call c how path timeout body], replies := rs\<rparr>"
  have "t = ?t \<and> r \<noteq> Halt"
    using assms Cons
    by (cases a) (auto simp: api_request_def session_request_def bearer_call_def bind_def seq_def catch_def raise_for_status_def
      unreachable_def lift_sum_def split: option.splits sum.splits if_splits outcome.splits)
  then show ?thesis by (intro that(2) [of a]) (simp_all add: Cons)
qed

lemma api_request_calls:
  assumes "api_request c how path timeout body s = (r, t)" "r \<noteq> Halt"
  shows "calls t = calls s @ [bearer_call c how path timeout body]" "api_log.more t = api_log.more s"
    "length (replies s) = Suc (length (replies t))"
proof -
  obtain a where "replies s = a # replies t" "t = s\<lparr>calls := calls s @ [bearer_call c how path timeout body], replies := replies t\<rparr>"
    using assms by (cases rule: api_request_cases) auto
  then have "calls t = calls (s\<lparr>calls := calls s @ [bearer_call c how path timeout body], replies := replies t\<rparr>)"
    "api_log.more t = api_log.more (s\<lparr>calls := calls s @ [bearer_call c how path timeout body], replies := replies t\<rparr>)"
    "length (replies s) = Suc (length (replies t))" by (metis, metis, simp)
  then show "calls t = calls s @ [bearer_call c how path timeout body]" "api_log.more t = api_log.more s"
    "length (replies s) = Suc (length (replies t))" by simp_all
qed

section \<open>The picture of the camera\<close>

definition status_call :: "api_client \<Rightarrow> pystr \<Rightarrow> api_call" where
  "status_call c camera = bearer_call c ''GET'' (camera_path camera ''/status'') 15 None"

definition snapshot_call :: "api_client \<Rightarrow> pystr \<Rightarrow> api_call" where
  "snapshot_call c camera = bearer_call c ''GET'' (camera_path camera ''/snapshot.jpg'') 90 None"

text \<open>The bridge was asked for its state and gave one in which the camera is up.\<close>

definition awake :: "(json \<Rightarrow> pystr) \<Rightarrow> api_client \<Rightarrow> pystr \<Rightarrow> 'z api_log_scheme \<Rightarrow> bool" where
  "awake shown c camera s \<longleftrightarrow> (\<exists>result u state. api_status c camera s = (Ret result, u) \<and>
     state_of shown result = Inr state \<and> state \<noteq> str ''idle'' \<and> state \<noteq> str ''waking'')"

lemma held_of_more: "api_log.more t = api_log.more s \<Longrightarrow> last_snapshot t = last_snapshot s"
  by (cases s; cases t) simp

lemma current_image_cases:
  assumes "current_image shown c camera s = (r, t)"
  obtains (Quiet) "r \<noteq> Halt" "calls t = calls s @ [status_call c camera]" "last_snapshot t = last_snapshot s"
      "\<And>i. r = Ret i \<Longrightarrow> i \<in> {Sleeping_Placeholder, Waking_Placeholder} \<and> content_type t = ''image/png''"
  | (Asked) "r \<noteq> Halt" "awake shown c camera s" "calls t = calls s @ [status_call c camera, snapshot_call c camera]"
      "(\<exists>x. r = Ret (Snapshot x) \<and> content_type t = ''image/jpeg'' \<and> last_snapshot t = Some x) \<or>
       (\<exists>e. r = Raise e \<and> last_snapshot t = last_snapshot s)"
  | (Ended) "r = Halt" "length (replies s) < 2"
  using assms unfolding current_image_def
proof (cases rule: bind_cases)
  case (Ret result u)
  have u: "calls u = calls s @ [status_call c camera]" "last_snapshot u = last_snapshot s" "length (replies s) = Suc (length (replies u))"
    using api_request_calls [OF Ret(1) [unfolded api_status_def]] held_of_more by (simp_all add: status_call_def)
  show ?thesis
  proof (cases "state_of shown result")
    case (Inl e)
    with Ret(2) u show ?thesis by (intro Quiet) (auto simp: lift_sum_def)
  next
    case (Inr state)
    let ?v = "if state = bridge_state u then u else u\<lparr>bridge_state := state, state_writes := Suc (state_writes u)\<rparr>"
    have v: "calls ?v = calls u" "last_snapshot ?v = last_snapshot u" "replies ?v = replies u" by simp_all
    consider "state = str ''idle''" | "state = str ''waking''" | "state \<noteq> str ''idle''" "state \<noteq> str ''waking''" by blast
    then show ?thesis
    proof cases
      case 1
      with Ret(2) Inr u v show ?thesis
        by (intro Quiet) (auto simp: lift_sum_def seq_def bind_def publish_bridge_state_def show_as_def split: if_splits)
    next
      case 2
      then have "state \<noteq> str ''idle''" by (simp add: str_def)
      with 2 Ret(2) Inr u v show ?thesis
        by (intro Quiet) (auto simp: lift_sum_def seq_def bind_def publish_bridge_state_def ensure_wake_watcher_def show_as_def split: if_splits)
    next
      case 3
      have a: "awake shown c camera s" using Ret(1) Inr 3 unfolding awake_def by blast
      have run: "bind (api_snapshot c camera) (\<lambda>shot.
          seq (modify (last_snapshot_update (\<lambda>_. Some shot))) (show_as ''image/jpeg'' (Snapshot shot))) ?v = (r, t)"
        using Ret(2) Inr 3 by (simp add: lift_sum_def seq_modify publish_bridge_state_def)
      from run show ?thesis
      proof (cases rule: bind_cases)
        case (Ret x w)
        from api_request_calls [OF Ret(1) [unfolded api_snapshot_def]] v u
        have "calls w = calls s @ [status_call c camera, snapshot_call c camera]" by (simp add: snapshot_call_def)
        with Ret(2) a show ?thesis
          by (intro Asked) (auto simp: seq_def bind_def show_as_def)
      next
        case (Raise e)
        note w = api_request_calls [OF Raise(1) [unfolded api_snapshot_def]]
        have "calls t = calls s @ [status_call c camera, snapshot_call c camera]"
          using w(1) v(1) u(1) by (simp add: snapshot_call_def)
        moreover have "last_snapshot t = last_snapshot s"
          using held_of_more [OF w(2)] v(2) u(2) by simp
        ultimately show ?thesis using Raise(2) a by (intro Asked) simp_all
      next
        case Halt
        then have "replies ?v = []" by (cases rule: api_request_cases [OF Halt(1) [unfolded api_snapshot_def]]) auto
        with Halt u v show ?thesis by (intro Ended) auto
      qed
    qed
  qed
next
  case (Raise e)
  have "calls t = calls s @ [status_call c camera]" "last_snapshot t = last_snapshot s"
    using api_request_calls [OF Raise(1) [unfolded api_status_def]] held_of_more by (simp_all add: status_call_def)
  with Raise show ?thesis by (intro Quiet) auto
next
  case Halt
  then have "replies s = []" by (cases rule: api_request_cases [OF Halt(1) [unfolded api_status_def]]) auto
  with Halt show ?thesis by (intro Ended) auto
qed

lemma camera_image_result:
  assumes "camera_image shown c camera s = (r, t)" "2 \<le> length (replies s)"
  shows "(\<exists>i. r = Ret i \<and> (case i of
       Snapshot x \<Rightarrow> content_type t = ''image/jpeg'' \<and> last_snapshot t = Some x
     | _ \<Rightarrow> content_type t = ''image/png'')) \<and>
    (calls t = calls s @ [status_call c camera] \<or>
     awake shown c camera s \<and> calls t = calls s @ [status_call c camera, snapshot_call c camera])"
proof -
  obtain q u where q: "current_image shown c camera s = (q, u)" by (cases "current_image shown c camera s")
  have handler: "\<exists>i. r = Ret i \<and> (case i of
       Snapshot x \<Rightarrow> content_type t = ''image/jpeg'' \<and> last_snapshot t = Some x
     | _ \<Rightarrow> content_type t = ''image/png'') \<and> calls t = calls u" if "q = Raise e" for e
    using assms(1) q that
    by (auto simp: camera_image_def catch_def bind_def seq_def show_as_def ensure_wake_watcher_def split: option.splits)
  have whole: "r = q \<and> t = u" if "\<And>e. q \<noteq> Raise e"
    using assms(1) q that by (cases q) (auto simp: camera_image_def catch_def)
  from q show ?thesis
  proof (cases rule: current_image_cases)
    case Quiet
    show ?thesis
    proof (cases q)
      case (Ret i)
      with Quiet whole show ?thesis by auto
    qed (use Quiet handler in auto)
  next
    case Asked
    show ?thesis
    proof (cases q)
      case (Ret i)
      with Asked whole show ?thesis by auto
    qed (use Asked handler in auto)
  qed (use assms(2) in simp)
qed


section \<open>An idle camera\<close>

text \<open>The characters that percent-encoding leaves alone.\<close>

definition unreserved :: "nat \<Rightarrow> bool" where
  "unreserved c \<longleftrightarrow> ascii_alpha c \<or> ascii_digit c \<or> c \<in> {45, 46, 95, 126}"

lemma unreserved_ascii: "unreserved c \<Longrightarrow> c < 128 \<and> c \<noteq> 32 \<and> quoted_char c"
  by (auto simp: unreserved_def ascii_alpha_def ascii_digit_def quoted_char_def)

lemma quote_unreserved: "list_all unreserved s \<Longrightarrow> quote s = Inr s"
proof -
  assume u: "list_all unreserved s"
  then have a: "ascii_str s" using unreserved_ascii by (auto simp: ascii_str_def list_all_iff)
  have "quote_octet (of_nat c) = [c]" if "unreserved c" for c
    using that unreserved_ascii [OF that]
    by (auto simp: quote_octet_def quote_byte_def Let_def unat_of_nat_small unreserved_def)
  then have "concat (map (quote_octet \<circ> of_nat) s) = s"
    using u by (induction s) auto
  then show ?thesis by (simp add: quote_def utf8_of_ascii [OF a])
qed

lemma split_path:
  assumes "path = 47 # p" "p \<noteq> []" "hd p \<noteq> 47" "list_all (\<lambda>c. quoted_char c \<or> c = 47) p"
  shows "urlsplit refused path = Inr (path, [])"
proof -
  have apart: "list_all (\<lambda>c. c \<notin> {9, 10, 13, 35, 58, 63}) path" "hd path = 47"
    using assms(1,4) by (auto simp: list_all_iff dest!: bspec quoted_apart)
  then have f: "filter (\<lambda>c. c \<notin> {9, 10, 13}) (dropWhile (\<lambda>c. c \<le> 32) path) = path"
    using assms(1) by (auto simp: list_all_iff filter_id_conv)
  have d: "drop_scheme path = path"
    using assms(1) by (simp add: drop_scheme_def Let_def ascii_alpha_def)
  have t: "take 2 path \<noteq> [47, 47]" using assms(1,2,3) by (cases p) simp_all
  have b: "before [35] path = path" "before [63] path = path" "from_first [63] path = []"
    by (rule before_stop(2) before_stop(2) from_stop(2), use apart(1) in \<open>simp add: list_all_iff\<close>)+
  show ?thesis unfolding urlsplit_def Let_def f d using t by (simp add: b)
qed

lemma status_request_routed:
  assumes "target req = camera_path (camera_id b) ''/status''" "authorization req = Some (str ''Bearer '' @ api_token b)"
    "ascii_str (api_token b)" "list_all unreserved (camera_id b)"
  shows "do_GET refused payload (Some b) starter req = send_status b"
proof -
  let ?p = "str ''api/cameras/'' @ camera_id b @ str ''/status''"
  have path: "target req = 47 # ?p" using assms(1) by (simp add: camera_path_def str_def)
  have "list_all (\<lambda>c. quoted_char c \<or> c = 47) (camera_id b)"
    using assms(4) unreserved_ascii by (auto simp: list_all_iff)
  then have c: "list_all (\<lambda>c. quoted_char c \<or> c = 47) ?p"
    by (auto simp: str_def quoted_char_def ascii_alpha_def)
  have u: "urlsplit refused (target req) = Inr (target req, [])"
    by (rule split_path [OF path _ _ c]) (simp_all add: str_def)
  have prefix: "camera_prefix b = Inr (str ''/api/cameras/'' @ camera_id b)"
    by (simp add: camera_prefix_def quote_unreserved [OF assms(4)])
  have auth: "authenticated b (authorization req) = Inr True"
    using assms(2,3) by (simp add: authenticated_def compare_digest_def ascii_str_def str_def)
  have other: "target req \<noteq> str ''/health''" "target req \<noteq> str ''/ready''" "target req \<noteq> str ''/api/devices''"
    "target req \<noteq> (str ''/api/cameras/'' @ camera_id b) @ str ''/stream.h264''"
    "target req \<noteq> (str ''/api/cameras/'' @ camera_id b) @ str ''/stream.ts''"
    "target req = (str ''/api/cameras/'' @ camera_id b) @ str ''/status''"
    by (simp_all add: assms(1) camera_path_def str_def)
  show ?thesis
    using other(1-5) by (simp add: do_GET_def u lift_sum_def prefix auth get_resource_def other(6) [THEN eqTrueI] del: append_assoc)
qed

lemma keys_insort: "distinct (map fst (insort_key fst kv d)) \<longleftrightarrow> fst kv \<notin> fst ` set d \<and> distinct (map fst d)"
  by (induction d) (auto simp: set_insort_key)

lemma keys_sort: "distinct (map fst (sort_key fst d)) \<longleftrightarrow> distinct (map fst d)"
  by (induction d) (simp_all add: keys_insort)

lemma map_of_sort_key: "distinct (map fst d) \<Longrightarrow> map_of (sort_key fst d) = map_of d"
  by (rule map_of_eqI) (auto simp: keys_sort)

lemma map_of_sort_json: "map_of (map (\<lambda>(k, v). (k, sort_json v)) d) k = map_option sort_json (map_of d k)"
  by (induction d) auto

lemma sort_json_printable: "printable j \<Longrightarrow> printable (sort_json j)"
  by (induction j rule: sort_json.induct) (auto simp: keys_sort comp_def case_prod_beta)

lemma sort_json_get:
  "distinct (map fst d) \<Longrightarrow> dict_get (sort_key fst (map (\<lambda>(k, v). (k, sort_json v)) d)) k x =
     (case map_of d k of None \<Rightarrow> x | Some v \<Rightarrow> sort_json v)"
proof -
  assume d: "distinct (map fst d)"
  let ?m = "map (\<lambda>(k, v). (k, sort_json v)) d"
  have "map fst ?m = map fst d" by (induction d) auto
  with d have "map_of (sort_key fst ?m) = map_of ?m" by (intro map_of_sort_key) (simp only:)
  then show ?thesis by (simp only: dict_get_def map_of_sort_json) (simp split: option.split)
qed

text \<open>The client receives what the bridge sent: the documented behaviour of the HTTP library for a reply of
  one header and one body.\<close>

definition carried :: "part list \<Rightarrow> reply \<Rightarrow> bool" where
  "carried parts r \<longleftrightarrow> (case parts of
      [Head code hs, Body bs] \<Rightarrow> reply_status r = code \<and> (code < 400 \<longrightarrow> status_error r = None) \<and>
        json_typed r = ((''Content-Type'', str ''application/json'') \<in> set hs) \<and>
        reply_json r = json_loads_utf8 bs \<and> reply_raw r = Inr bs
    | _ \<Rightarrow> False)"

lemma carried_json:
  assumes "carried [json_head 200 p, Body (json_body p)] r" "printable p"
  shows "reply_status r = 200" "status_error r = None" "json_typed r" "reply_json r = Inr (sort_json p)"
  using assms json_loads_encoded [OF sort_json_printable [OF assms(2)]] by (auto simp: carried_def json_head_def json_body_def)

lemma api_request_json:
  assumes "replies s = Inr r # rs" "reply_status r = 200" "status_error r = None" "json_typed r" "reply_json r = Inr j"
  shows "api_request c how path timeout body s =
    (Ret (Parsed j), s\<lparr>calls := calls s @ [bearer_call c how path timeout body], replies := rs\<rparr>)"
  using assms by (simp add: api_request_def session_request_def bearer_call_def bind_def seq_def catch_def raise_for_status_def lift_sum_def)

lemma send_json_quiet:
  "client_errors \<sigma> = [] \<Longrightarrow> send_json code p (w, \<sigma>) = (Ret (), (w, \<sigma>\<lparr>sent := sent \<sigma> @ [json_head code p, Body (json_body p)]\<rparr>))"
  by (simp add: send_json_def seq_def bind_def send_part_def on_snd_def)

lemma state_of_sorted:
  "distinct (map fst d) \<Longrightarrow> map_of d (str ''state'') = Some (JStr x) \<Longrightarrow>
     state_of shown (Parsed (sort_json (JObj d))) = Inr x"
  by (simp only: sort_json.simps state_of_def api_result.case json.case sort_json_get) (simp add: text_of_def)

lemma bridge_status_state:
  assumes "printable (bridge_status b (status w) idle)" "process w = None"
  shows "state_of shown (Parsed (sort_json (bridge_status b (status w) idle))) = Inr (str ''idle'')"
proof -
  obtain d where d: "bridge_status b (status w) idle = JObj d" by (simp add: bridge_status_def)
  have "map_of d (str ''state'') = Some (JStr (str ''idle''))"
    using d assms(2) by (auto simp: bridge_status_def status_def)
  moreover have "distinct (map fst d)" using assms(1) d by simp
  ultimately show ?thesis unfolding d by (intro state_of_sorted)
qed


section \<open>The watcher ends\<close>

definition watch_ready :: "rat \<Rightarrow> 'z camera_entity_scheme \<Rightarrow> bool" where
  "watch_ready deadline s \<longleftrightarrow> (\<exists>x \<in> set (clock s). deadline \<le> x) \<and> length (clock s) \<le> length (replies s)"

lemma entity_fields_of_more: "api_log.more t = api_log.more s \<Longrightarrow> clock t = clock s"
  by (cases s; cases t) simp

lemma watch_round_cases:
  assumes "clock s = x # r" "watch_ready deadline s" "watch_round shown c camera deadline l s = (q, t)"
  shows "q = Ret (Inr ()) \<or> (\<exists>e. q = Raise e) \<or> q = Ret (Inl ()) \<and> watch_ready deadline t \<and> clock t = r"
proof (cases "x < deadline")
  case False
  with assms(1,3) show ?thesis by (auto simp: watch_round_def bind_def loop_clock_def)
next
  case True
  let ?s = "s\<lparr>clock := r\<rparr>"
  have late: "\<exists>x \<in> set r. deadline \<le> x" and n: "Suc (length r) \<le> length (replies s)"
    using assms(1,2) True by (auto simp: watch_ready_def)
  obtain a u where a: "api_status c camera ?s = (a, u)" by (cases "api_status c camera ?s")
  have h: "a \<noteq> Halt" and u: "length (replies s) = Suc (length (replies u))" "clock u = r"
  proof -
    show h: "a \<noteq> Halt"
      using n by (cases rule: api_request_cases [OF a [unfolded api_status_def]]) auto
    from api_request_calls [OF a [unfolded api_status_def] h] entity_fields_of_more [of u ?s]
    show "length (replies s) = Suc (length (replies u))" "clock u = r" by simp_all
  qed
  then have ready: "watch_ready deadline u" using late n by (simp add: watch_ready_def)
  show ?thesis
  proof (cases a)
    case (Raise e)
    with a True assms(1,3) ready u show ?thesis
      by (auto simp: watch_round_def bind_def loop_clock_def catch_def)
  next
    case (Ret result)
    define v where "v = (\<lambda>state. if state = bridge_state u then u else u\<lparr>bridge_state := state, state_writes := Suc (state_writes u)\<rparr>)"
    have v: "watch_ready deadline (v state)" "clock (v state) = r" for state
      using ready u by (simp_all add: watch_ready_def v_def)
    have "(case state_of shown result of Inl e \<Rightarrow> (Raise e, u)
        | Inr state \<Rightarrow> (Ret (if state = str ''streaming'' then Inr () else Inl ()), v state)) = (q, t)"
      using a Ret True assms(1,3)
      by (auto simp: watch_round_def bind_def loop_clock_def catch_def lift_sum_def seq_def publish_bridge_state_def v_def split: sum.splits)
    then show ?thesis using v by (cases "state_of shown result") (auto split: if_splits)
  qed (use h in simp)
qed

lemma watch_loop_returns:
  "watch_ready deadline s \<Longrightarrow> length (clock s) \<le> n \<Longrightarrow> fst (loop n (watch_round shown c camera deadline) l s) \<noteq> Halt"
proof (induction n arbitrary: l s)
  case (Suc n)
  obtain x r where x: "clock s = x # r" using Suc.prems(1) by (cases "clock s") (auto simp: watch_ready_def)
  obtain q t where q: "watch_round shown c camera deadline l s = (q, t)" by (cases "watch_round shown c camera deadline l s")
  from watch_round_cases [OF x Suc.prems(1) q] Suc.IH [of t] Suc.prems(2) x q show ?case
    by (auto simp: bind_def)
qed (auto simp: watch_ready_def)

text \<open>C29: The wake watcher does not watch for ever: once the clock of the event loop has a reading 90 seconds after
  its start, and as long as every poll of the bridge gets an answer or an error, it ends.\<close>

theorem wake_watcher_ends:
  assumes "clock s = start # ts" "\<exists>x \<in> set ts. start + 90 \<le> x" "length ts \<le> length (replies s)"
  shows "fst (watch_until_streaming shown c camera s) \<noteq> Halt"
proof -
  have "watch_ready (start + 90) (s\<lparr>clock := ts\<rparr>)" using assms by (simp add: watch_ready_def)
  from watch_loop_returns [OF this, of "Suc (length ts)"] show ?thesis
    by (simp add: watch_until_streaming_def bind_def loop_clock_def assms(1) del: loop.simps)
qed

section \<open>Validated configurations\<close>

lemma api_request_Ret:
  assumes "api_request c how path timeout body s = (Ret x, t)"
  obtains r where "replies s = Inr r # replies t" "reply_status r \<noteq> 401" "status_error r = None"
    "if json_typed r then \<exists>j. reply_json r = Inr j \<and> x = Parsed j else \<exists>bs. reply_raw r = Inr bs \<and> x = Raw bs"
    "calls t = calls s @ [bearer_call c how path timeout body]"
  using assms
  by (auto simp: api_request_def session_request_def bearer_call_def bind_def seq_def catch_def raise_for_status_def
      unreachable_def lift_sum_def split: list.splits option.splits sum.splits if_splits outcome.splits prod.splits)

lemma lists_camera_True: "lists_camera camera items = Inr True \<Longrightarrow> \<exists>d. JObj d \<in> set items \<and> json_get d ''camera_id'' = camera"
  by (induction items) (auto simp: same_json_def split: json.splits if_splits)

lemma known_camera_True:
  "known_camera camera devices = Inr True \<Longrightarrow>
     \<exists>items d. devices = Parsed (JList items) \<and> JObj d \<in> set items \<and> json_get d ''camera_id'' = camera"
  by (auto simp: known_camera_def dest!: lists_camera_True split: api_result.splits json.splits if_splits)

definition health_call :: "api_client \<Rightarrow> api_call" where
  "health_call c = \<lparr>call_verb = ''GET'', call_url = base_url c @ str ''/health'', bearer = None, total_timeout = 15, call_json = None\<rparr>"

definition devices_call :: "api_client \<Rightarrow> api_call" where
  "devices_call c = bearer_call c ''GET'' (str ''/api/devices'') 15 None"

lemma api_health_Ret:
  assumes "api_health c s = (Ret j, t)"
  shows "calls t = calls s @ [health_call c]" "\<exists>r. replies s = Inr r # replies t \<and> status_error r = None"
  using assms
  by (auto simp: api_health_def session_request_def health_call_def bind_def seq_def catch_def raise_for_status_def
      unreachable_def lift_sum_def split: list.splits option.splits sum.splits if_splits outcome.splits prod.splits)

text \<open>A form that was confirmed: the bridge answered the health check, accepted the token, and listed the camera.\<close>

definition confirmed_form :: "(pystr \<times> json) list \<Rightarrow> 'z api_log_scheme \<Rightarrow> 'z api_log_scheme \<Rightarrow> (pystr \<times> json) list \<Rightarrow> bool" where
  "confirmed_form form s t valid \<longleftrightarrow>
     (let c = new_client (text_field form ''bridge_url'') (text_field form ''api_token'') in
      calls t = calls s @ [health_call c, devices_call c] \<and>
      (\<exists>h r items d camera. replies s = Inr h # Inr r # replies t \<and> status_error h = None \<and> status_error r = None \<and>
         reply_status r \<noteq> 401 \<and> reply_json r = Inr (JList items) \<and> JObj d \<in> set items \<and>
         json_get d ''camera_id'' = camera \<and> truthy camera \<and>
         (truthy (json_get form ''camera_id'') \<longrightarrow> camera = json_get form ''camera_id'') \<and>
         valid = AList.update (str ''camera_id'') camera form))"

lemma choose_camera_Inr:
  assumes "choose_camera form devices = Inr valid"
  obtains items d where "devices = Parsed (JList items)" "JObj d \<in> set items" "truthy (json_get d ''camera_id'')"
    "truthy (json_get form ''camera_id'') \<Longrightarrow> json_get d ''camera_id'' = json_get form ''camera_id''"
    "valid = AList.update (str ''camera_id'') (json_get d ''camera_id'') form"
proof -
  obtain camera where camera: "(if truthy (json_get form ''camera_id'') then Inr (json_get form ''camera_id'') else first_camera devices) = Inr camera"
    and k: "truthy camera" "known_camera camera devices = Inr True" "valid = AList.update (str ''camera_id'') camera form"
    using assms by (auto simp: choose_camera_def Let_def sbind_eq_Inr split: if_splits)
  from known_camera_True [OF k(2)] camera k(1,3) that show ?thesis by (auto split: if_splits)
qed

lemma validate_confirmed:
  assumes "validate form s = (Ret valid, t)"
  shows "confirmed_form form s t valid"
proof -
  let ?c = "new_client (text_field form ''bridge_url'') (text_field form ''api_token'')"
  obtain j u devices v where h: "api_health ?c s = (Ret j, u)" and d: "api_devices ?c u = (Ret devices, v)"
    and choose: "lift_sum (choose_camera form devices) v = (Ret valid, t)"
    using assms by (auto simp: validate_def Let_def bind_eq_Ret)
  from choose have vt: "v = t" and ch: "choose_camera form devices = Inr valid" by (auto simp: lift_sum_def split: sum.splits)
  from choose_camera_Inr [OF ch] obtain items x where x: "devices = Parsed (JList items)" "JObj x \<in> set items"
    "truthy (json_get x ''camera_id'')" "truthy (json_get form ''camera_id'') \<Longrightarrow> json_get x ''camera_id'' = json_get form ''camera_id''"
    "valid = AList.update (str ''camera_id'') (json_get x ''camera_id'') form" by blast
  from api_request_Ret [OF d [unfolded api_devices_def]] obtain r where r: "replies u = Inr r # replies v" "reply_status r \<noteq> 401"
    "status_error r = None" "if json_typed r then \<exists>j. reply_json r = Inr j \<and> devices = Parsed j else \<exists>bs. reply_raw r = Inr bs \<and> devices = Raw bs"
    "calls v = calls u @ [devices_call ?c]" by (metis devices_call_def)
  from api_health_Ret [OF h] obtain k where k: "replies s = Inr k # replies u" "status_error k = None" "calls u = calls s @ [health_call ?c]"
    by blast
  have "reply_json r = Inr (JList items)" using r(4) x(1) by (auto split: if_splits)
  with k r x vt show ?thesis
    unfolding confirmed_form_def Let_def by auto
qed

text \<open>C34: The set-up creates an entry only for a confirmed configuration: the bridge at the given address answered its
  health check and, with the given token, a list of devices that names the camera of the entry, which is the one asked
  for if one was; exactly these two requests were made, and the entry is new.\<close>

theorem setup_confirmed:
  assumes "step_user lower configured (Some form) s = (Ret (Created unique valid), t)"
  shows "confirmed_form form s t valid \<and> unique = lower (text_field valid ''bridge_url'') \<and> \<not> configured unique"
proof -
  obtain x u where x: "validate form s = (x, u)" by (cases "validate form s")
  show ?thesis
  proof (cases x)
    case (Ret v)
    with assms x have "u = t" "unique = lower (text_field v ''bridge_url'')" "\<not> configured unique" "valid = v"
      by (auto simp: step_user_def step_with_def catch_def bind_def Let_def split: if_splits)
    with Ret x validate_confirmed show ?thesis by blast
  qed (use assms x in \<open>auto simp: step_user_def step_with_def catch_def bind_def split: option.splits\<close>)
qed

text \<open>A reply of the bridge that is no JSON is reported as a missing camera: \<open>JSONDecodeError\<close> is a
  \<open>ValueError\<close>, and the forms take every \<open>ValueError\<close> for their own.\<close>

lemma garbled_reply_misreported:
  "replies s = [Inr r] \<Longrightarrow> status_error r = None \<Longrightarrow> reply_json r = Inl JSONDecodeError \<Longrightarrow>
     fst (step_user lower configured (Some form) s) = Ret (Form ''user'' [(''base'', ''camera_not_found'')])"
  by (simp add: step_user_def step_with_def validate_def Let_def api_health_def session_request_def bind_def catch_def
    seq_def raise_for_status_def lift_sum_def unreachable_def)

text \<open>The client does not encode the camera's identifier in its paths, the bridge does: a camera whose
  identifier contains a slash is not found under the client's path.\<close>

lemma camera_path_unencoded:
  "47 \<in> set (camera_id b) \<Longrightarrow> camera_prefix b = Inr prefix \<Longrightarrow> camera_path (camera_id b) suffix \<noteq> prefix @ str suffix"
proof
  assume s: "47 \<in> set (camera_id b)" and p: "camera_prefix b = Inr prefix"
    and e: "camera_path (camera_id b) suffix = prefix @ str suffix"
  from p obtain q where q: "quote (camera_id b) = Inr q" "prefix = str ''/api/cameras/'' @ q"
    by (auto simp: camera_prefix_def sbind_eq_Inr)
  with e have "camera_id b = q" by (simp add: camera_path_def)
  with s have "quoted_char 47" using quote_chars [OF q(1)] by (auto simp: list_all_iff)
  then show False by (simp add: quoted_char_def ascii_alpha_def ascii_digit_def)
qed

section \<open>Examples\<close>

definition sample_client :: api_client where
  "sample_client = \<lparr>base_url = str ''http://ha:8099'', client_token = str ''secret''\<rparr>"

definition sample_entity :: "(exn + reply) list \<Rightarrow> rat list \<Rightarrow> camera_entity" where
  "sample_entity rs ts = \<lparr>calls = [], replies = rs, bridge_state = str ''idle'', wake_watcher = No_Watcher,
     watchers_started = 0, last_snapshot = None, content_type = [], state_writes = 0, clock = ts\<rparr>"


theorem wake_watcher_ends_witness:
  "fst (watch_until_streaming (\<lambda>_. []) sample_client (str ''cabin'') (sample_entity [Inl ClientError, Inl AsyncTimeout] [0, 89, 91])) \<noteq> Halt"
  by (rule wake_watcher_ends [where start = 0 and ts = "[89, 91]"]) (simp_all add: sample_entity_def)

definition json_reply :: "json \<Rightarrow> reply" where
  "json_reply j = \<lparr>reply_status = 200, status_error = None, json_typed = True, reply_json = Inr j, reply_raw = Inr []\<rparr>"

definition sample_form :: "(pystr \<times> json) list" where
  "sample_form = [(str ''bridge_url'', JStr (str ''http://ha:8099/'')), (str ''api_token'', JStr (str ''secret''))]"

theorem setup_confirmed_witness:
  "\<exists>unique valid t. step_user (\<lambda>u. u) (\<lambda>_. False) (Some sample_form)
      (sample_entity (map Inr [json_reply (JObj []), json_reply (JList [JObj [(str ''camera_id'', JStr (str ''cabin''))]])]) []) =
     (Ret (Created unique valid), t) \<and> json_get valid ''camera_id'' = JStr (str ''cabin'') \<and> length (calls t) = 2"
proof -
  let ?s = "sample_entity (map Inr [json_reply (JObj []), json_reply (JList [JObj [(str ''camera_id'', JStr (str ''cabin''))]])]) []"
  let ?run = "step_user (\<lambda>u. u) (\<lambda>_. False) (Some sample_form) ?s"
  have "\<exists>unique valid t. ?run = (Ret (Created unique valid), t)"
    by (simp add: step_user_def step_with_def validate_def Let_def api_health_def api_devices_def api_request_def session_request_def
      bind_def catch_def seq_def raise_for_status_def lift_sum_def sample_entity_def json_reply_def choose_camera_def sample_form_def
      json_get_def dict_get_def first_camera_def has_key_iff known_camera_def same_json_def sbind_def) (simp add: str_def)
  then obtain unique valid t where run: "?run = (Ret (Created unique valid), t)" by blast
  from setup_confirmed [OF run] have c: "confirmed_form sample_form ?s t valid" by blast
  then have "json_get valid ''camera_id'' = JStr (str ''cabin'')"
    by (auto simp: confirmed_form_def Let_def sample_entity_def json_reply_def json_get_def dict_get_def update_conv')
  moreover have "length (calls t) = 2" using c by (simp add: confirmed_form_def Let_def sample_entity_def)
  ultimately show ?thesis using run by blast
qed

definition cabin_bridge :: bridge where
  "cabin_bridge = home_bridge\<lparr>camera_id := str ''cabin''\<rparr>"

definition cabin_request :: request where
  "cabin_request = (plain_request [])\<lparr>target := camera_path (str ''cabin'') ''/status'', authorization := Some (str ''Bearer secret'')\<rparr>"


end
