(* ===== verification/VendorSdk.thy ===== *)
theory VendorSdk
  imports Digest Http
begin

text \<open>
  The fetcher of the vendor's SDK (\<open>tools/fetch_official_sdk.py\<close>): the download, the checksum of the
  archive, the search for the wanted members and the files it leaves. What \<open>zipfile\<close> finds in an
  archive is a parameter: its members in order, each with a name and the outcome of reading it. The
  manifest's entry and the command line are arguments; names quoted by an error message are left out
  of it.
\<close>

section \<open>Archives\<close>

record zip_entry =
  entry_name :: pystr
  entry_data :: "exn + bytes"

type_synonym unzip = "bytes \<Rightarrow> exn + zip_entry list"

definition AAR_NAME :: string where "AAR_NAME = ''app_p2p_api-5.0.2.aar''"
definition LOG_AAR_NAME :: string where "LOG_AAR_NAME = ''vp_log-5.0.0.aar''"
definition SO_MEMBER :: string where "SO_MEMBER = ''jni/arm64-v8a/libOKSMARTPPCS.so''"
definition LOG_SO_MEMBER :: string where "LOG_SO_MEMBER = ''jni/arm64-v8a/libvp_log.so''"
definition WAKE_SOURCE_SUFFIX :: string where "WAKE_SOURCE_SUFFIX = ''flutter-sdk-demo/lib/device_wakeup_server.dart''"

text \<open>A \<open>PurePosixPath\<close>: its parts without the root, and its name.\<close>

definition path_parts :: "pystr \<Rightarrow> pystr list" where
  "path_parts p = filter (\<lambda>c. c \<noteq> [] \<and> c \<noteq> str ''.'') (split_text 47 p)"

definition path_name :: "pystr \<Rightarrow> pystr" where
  "path_name p = (if path_parts p = [] then [] else last (path_parts p))"

definition slashed :: "pystr \<Rightarrow> pystr" where
  "slashed p = map (\<lambda>c. if c = 92 then 47 else c) p"

definition unsafe_member :: "zip_entry \<Rightarrow> bool" where
  "unsafe_member e \<longleftrightarrow> take 1 (slashed (entry_name e)) = [47] \<or> str ''..'' \<in> set (path_parts (slashed (entry_name e)))"

primrec safe_members :: "zip_entry list \<Rightarrow> exn + zip_entry list" where
  "safe_members [] = Inr []"
| "safe_members (e # es) =
     (if unsafe_member e then Inl (RuntimeError ''unsafe path in vendor archive'')
      else sbind (safe_members es) (\<lambda>ms. Inr (e # ms)))"

primrec read_members :: "zip_entry list \<Rightarrow> exn + bytes list" where
  "read_members [] = Inr []"
| "read_members (e # es) = sbind (entry_data e) (\<lambda>d. sbind (read_members es) (\<lambda>ds. Inr (d # ds)))"

definition unique_payload :: "(pystr \<Rightarrow> bool) \<Rightarrow> string \<Rightarrow> zip_entry list \<Rightarrow> exn + bytes" where
  "unique_payload wanted name es =
     sbind (safe_members es) (\<lambda>ms.
     let candidates = filter (\<lambda>m. wanted (entry_name m)) ms in
     if candidates = [] then Inl (RuntimeError (name @ '' was not found in the official SDK''))
     else sbind (read_members candidates) (\<lambda>payloads.
       if length (remdups payloads) \<noteq> 1
       then Inl (RuntimeError (''official SDK contains non-identical '' @ name @ '' copies''))
       else Inr (hd payloads)))"

definition unique_aar_payload :: "string \<Rightarrow> zip_entry list \<Rightarrow> exn + bytes" where
  "unique_aar_payload name = unique_payload (\<lambda>n. path_name n = str name) name"

definition ends_in :: "pystr \<Rightarrow> pystr \<Rightarrow> bool" where
  "ends_in s suffix \<longleftrightarrow> drop (length s - length suffix) s = suffix"

definition unique_suffix_payload :: "string \<Rightarrow> zip_entry list \<Rightarrow> exn + bytes" where
  "unique_suffix_payload suffix = unique_payload (\<lambda>n. ends_in (slashed n) (str suffix)) suffix"

text \<open>\<open>aar.read(member)\<close> reads the last member of the name.\<close>

definition aar_member :: "unzip \<Rightarrow> bytes \<Rightarrow> string \<Rightarrow> exn + bytes" where
  "aar_member unzip aar member =
     sbind (unzip aar) (\<lambda>es.
     sbind (safe_members es) (\<lambda>_.
     case filter (\<lambda>e. entry_name e = str member) (rev es) of
       [] \<Rightarrow> Inl (RuntimeError (member @ '' is missing from the official AAR''))
     | e # _ \<Rightarrow> (case entry_data e of
         Inl x \<Rightarrow> Inl (if x = KeyError then RuntimeError (member @ '' is missing from the official AAR'') else x)
       | Inr d \<Rightarrow> Inr d)))"

text \<open>The files of each extraction, in the order they are written.\<close>

definition arm64_files :: "unzip \<Rightarrow> bytes \<Rightarrow> exn + (string \<times> bytes) list" where
  "arm64_files unzip archive =
     sbind (sbind (unzip archive) (\<lambda>es.
        sbind (unique_aar_payload AAR_NAME es) (\<lambda>p2p.
        sbind (unique_aar_payload LOG_AAR_NAME es) (\<lambda>log.
        sbind (unique_suffix_payload WAKE_SOURCE_SUFFIX es) (\<lambda>wake. Inr (p2p, log, wake)))))) (\<lambda>(p2p, log, wake).
     sbind (aar_member unzip p2p SO_MEMBER) (\<lambda>library.
     sbind (aar_member unzip log LOG_SO_MEMBER) (\<lambda>log_library.
     Inr [(''libOKSMARTPPCS.so'', library), (''libvp_log.so'', log_library), (''device_wakeup_server.dart'', wake)])))"

definition wake_files :: "unzip \<Rightarrow> bytes \<Rightarrow> exn + (string \<times> bytes) list" where
  "wake_files unzip archive =
     sbind (unzip archive) (\<lambda>es.
     sbind (unique_suffix_payload WAKE_SOURCE_SUFFIX es) (\<lambda>wake. Inr [(''device_wakeup_server.dart'', wake)]))"

section \<open>The run\<close>

record sdk_site =
  downloads :: "(exn + bytes) list"
  fetched_urls :: "pystr list"
  temp_present :: bool
  unlink_fault :: "exn option"
  file_faults :: "exn option list"
  written :: "(pystr \<times> bytes) list"
  reported :: "json list"

record sdk_artifact =
  artifact_url :: pystr
  artifact_sha256 :: pystr

text \<open>Making the directory or writing a file may fail; beyond the script both succeed.\<close>

definition file_step :: "(sdk_site \<Rightarrow> sdk_site) \<Rightarrow> (sdk_site, unit) eff" where
  "file_step f = (\<lambda>s. case file_faults s of
      Some e # r \<Rightarrow> (Raise e, s\<lparr>file_faults := r\<rparr>)
    | None # r \<Rightarrow> (Ret (), f (s\<lparr>file_faults := r\<rparr>))
    | [] \<Rightarrow> (Ret (), f s))"

definition file_path :: "pystr \<Rightarrow> string \<Rightarrow> pystr" where
  "file_path destination name = destination @ 47 # str name"

definition write_files :: "pystr \<Rightarrow> (string \<times> bytes) list \<Rightarrow> (sdk_site, unit) eff" where
  "write_files destination files =
     seq (file_step (\<lambda>s. s))
       (for_each files (\<lambda>(name, content). file_step (written_update (\<lambda>w. w @ [(file_path destination name, content)]))))"

definition download :: "pystr \<Rightarrow> (sdk_site, bytes) eff" where
  "download link = (\<lambda>s. case downloads s of
      [] \<Rightarrow> (Halt, s)
    | d # r \<Rightarrow> lift_sum d (s\<lparr>downloads := r, fetched_urls := fetched_urls s @ [link]\<rparr>))"

definition unlink_temporary :: "(sdk_site, unit) eff" where
  "unlink_temporary = (\<lambda>s. if \<not> temp_present s then (Ret (), s) else case unlink_fault s of
      Some e \<Rightarrow> (Raise e, s) | None \<Rightarrow> (Ret (), s\<lparr>temp_present := False\<rparr>))"

definition get_archive :: "(exn + bytes) option \<Rightarrow> sdk_artifact \<Rightarrow> (sdk_site, bytes) eff" where
  "get_archive given artifact = (case given of
      Some content \<Rightarrow> lift_sum content
    | None \<Rightarrow> seq (modify (temp_present_update (\<lambda>_. True))) (download (artifact_url artifact)))"

definition result_json :: "bool \<Rightarrow> pystr \<Rightarrow> (string \<times> bytes) list \<Rightarrow> json" where
  "result_json wake_only destination files =
     JObj [(str ''libraries'', JList (if wake_only then [] else
              map (\<lambda>(name, content). JObj [(str ''path'', JStr (file_path destination name)),
                (str ''sha256'', JStr (hexdigest (sha256 content)))]) (take 2 files))),
           (str ''wake_source'', JStr (file_path destination ''device_wakeup_server.dart''))]"

definition wanted_files :: "unzip \<Rightarrow> bool \<Rightarrow> bytes \<Rightarrow> exn + (string \<times> bytes) list" where
  "wanted_files unzip wake_only archive = (if wake_only then wake_files unzip archive else arm64_files unzip archive)"

definition fetch_main ::
    "unzip \<Rightarrow> (pystr \<Rightarrow> pystr) \<Rightarrow> sdk_artifact \<Rightarrow> (exn + bytes) option \<Rightarrow> bool \<Rightarrow> pystr \<Rightarrow> (sdk_site, int) eff" where
  "fetch_main unzip lower artifact given wake_only destination =
     try_finally
       (bind (get_archive given artifact) (\<lambda>archive.
        if lower (hexdigest (sha256 archive)) \<noteq> lower (artifact_sha256 artifact)
        then raise (RuntimeError ''SDK checksum mismatch'')
        else
          bind (lift_sum (wanted_files unzip wake_only archive)) (\<lambda>files.
          seq (write_files destination files)
          (seq (modify (reported_update (\<lambda>r. r @ [result_json wake_only destination files])))
            (ret 0)))))
       unlink_temporary"

section \<open>What is taken from an archive\<close>

lemma safe_members_Inr: "safe_members es = Inr ms \<Longrightarrow> ms = es \<and> list_all (\<lambda>e. \<not> unsafe_member e) es"
  by (induction es arbitrary: ms) (auto simp: sbind_eq_Inr split: if_splits)

lemma read_members_Inr: "read_members es = Inr ds \<Longrightarrow> map entry_data es = map Inr ds"
  by (induction es arbitrary: ds) (auto simp: sbind_eq_Inr)

lemma unique_payload_Inr:
  assumes "unique_payload wanted name es = Inr d"
  shows "list_all (\<lambda>e. \<not> unsafe_member e) es" "\<exists>e \<in> set es. wanted (entry_name e)"
    "\<And>e. e \<in> set es \<Longrightarrow> wanted (entry_name e) \<Longrightarrow> entry_data e = Inr d"
proof -
  let ?c = "filter (\<lambda>m. wanted (entry_name m)) es"
  from assms obtain ds where safe: "list_all (\<lambda>e. \<not> unsafe_member e) es" and c: "?c \<noteq> []" "read_members ?c = Inr ds"
    and one: "length (remdups ds) = 1" "d = hd ds"
    by (auto simp: unique_payload_def sbind_eq_Inr Let_def split: if_splits dest!: safe_members_Inr)
  from one(1) obtain x where "remdups ds = [x]" by (auto simp: length_Suc_conv)
  then have x: "set ds = {x}" by (metis set_remdups list.set(1,2))
  then have "d = x" using one(2) by (cases ds) auto
  with x have all: "\<forall>y \<in> set (map Inr ds). y = (Inr d :: exn + bytes)" by auto
  have m: "map entry_data ?c = map Inr ds" by (rule read_members_Inr [OF c(2)])
  show "list_all (\<lambda>e. \<not> unsafe_member e) es" by (rule safe)
  show "\<exists>e \<in> set es. wanted (entry_name e)" using c(1) by (auto simp: filter_empty_conv)
  fix e assume "e \<in> set es" "wanted (entry_name e)"
  then have "entry_data e \<in> set (map entry_data ?c)" by simp
  with all show "entry_data e = Inr d" unfolding m by blast
qed

section \<open>What is written\<close>

lemma file_step_cases:
  "file_step f s = (Ret (), f (s\<lparr>file_faults := tl (file_faults s)\<rparr>)) \<or>
   (\<exists>e. file_step f s = (Raise e, s\<lparr>file_faults := tl (file_faults s)\<rparr>))"
proof (cases "file_faults s")
  case Nil
  then have "s\<lparr>file_faults := tl (file_faults s)\<rparr> = s" by (cases s) simp
  then have "f (s\<lparr>file_faults := tl (file_faults s)\<rparr>) = f s" by simp
  then show ?thesis by (simp only: file_step_def Nil list.case) simp
qed (auto simp: file_step_def split: option.split)

lemma put_files_written:
  assumes "for_each files (\<lambda>(name, content). file_step (written_update (\<lambda>w. w @ [(file_path destination name, content)]))) s = (r, t)"
  shows "\<exists>k. written t = written s @ map (\<lambda>(name, content). (file_path destination name, content)) (take k files) \<and>
    unlink_fault t = unlink_fault s \<and> temp_present t = temp_present s \<and> r \<noteq> Halt \<and> (r = Ret () \<longrightarrow> length files \<le> k)"
  using assms
proof (induction files arbitrary: s)
  case (Cons x files)
  obtain n c where x: "x = (n, c)" by (cases x)
  let ?f = "written_update (\<lambda>w. w @ [(file_path destination n, c)])"
  let ?u = "s\<lparr>file_faults := tl (file_faults s)\<rparr>"
  from file_step_cases [of ?f s] show ?case
  proof
    assume "file_step ?f s = (Ret (), ?f ?u)"
    with Cons.prems x have "for_each files (\<lambda>(name, content). file_step (written_update (\<lambda>w. w @ [(file_path destination name, content)])))
        (?f ?u) = (r, t)" by (simp add: seq_def bind_def)
    from Cons.IH [OF this] obtain k where "written t = written (?f ?u) @ map (\<lambda>(name, content). (file_path destination name, content)) (take k files)"
      "unlink_fault t = unlink_fault s" "temp_present t = temp_present s" "r \<noteq> Halt" "r = Ret () \<longrightarrow> length files \<le> k" by auto
    then show ?case by (intro exI [where x = "Suc k"]) (simp add: x)
  next
    assume "\<exists>e. file_step ?f s = (Raise e, ?u)"
    with Cons.prems x have "r \<noteq> Halt \<and> r \<noteq> Ret () \<and> t = ?u" by (auto simp: seq_def bind_def)
    then show ?case by (intro exI [where x = 0]) auto
  qed
qed (intro exI [where x = 0]; auto)

lemma write_files_written:
  assumes "write_files destination files s = (r, t)"
  shows "\<exists>k. written t = written s @ map (\<lambda>(name, content). (file_path destination name, content)) (take k files) \<and>
    unlink_fault t = unlink_fault s \<and> temp_present t = temp_present s \<and> r \<noteq> Halt \<and> (r = Ret () \<longrightarrow> length files \<le> k)"
proof -
  let ?u = "s\<lparr>file_faults := tl (file_faults s)\<rparr>"
  from file_step_cases [of "\<lambda>s. s" s] show ?thesis
  proof
    assume "file_step (\<lambda>s. s) s = (Ret (), ?u)"
    with assms have "for_each files (\<lambda>(name, content). file_step (written_update (\<lambda>w. w @ [(file_path destination name, content)]))) ?u = (r, t)"
      by (simp add: write_files_def seq_def bind_def)
    from put_files_written [OF this] show ?thesis by simp
  next
    assume "\<exists>e. file_step (\<lambda>s. s) s = (Raise e, ?u)"
    with assms have "r \<noteq> Halt \<and> r \<noteq> Ret () \<and> t = ?u" by (auto simp: write_files_def seq_def bind_def)
    then show ?thesis by (intro exI [where x = 0]) auto
  qed
qed

text \<open>The run before its clean-up.\<close>

definition fetch_body ::
    "unzip \<Rightarrow> (pystr \<Rightarrow> pystr) \<Rightarrow> sdk_artifact \<Rightarrow> (exn + bytes) option \<Rightarrow> bool \<Rightarrow> pystr \<Rightarrow> (sdk_site, int) eff" where
  "fetch_body unzip lower artifact given wake_only destination =
       (bind (get_archive given artifact) (\<lambda>archive.
        if lower (hexdigest (sha256 archive)) \<noteq> lower (artifact_sha256 artifact)
        then raise (RuntimeError ''SDK checksum mismatch'')
        else
          bind (lift_sum (wanted_files unzip wake_only archive)) (\<lambda>files.
          seq (write_files destination files)
          (seq (modify (reported_update (\<lambda>r. r @ [result_json wake_only destination files])))
            (ret 0)))))"

text \<open>The files left behind are the first of those that the archive of the checksum holds.\<close>

definition verified_files ::
    "unzip \<Rightarrow> (pystr \<Rightarrow> pystr) \<Rightarrow> sdk_artifact \<Rightarrow> bool \<Rightarrow> pystr \<Rightarrow> sdk_site \<Rightarrow> bool \<Rightarrow> sdk_site \<Rightarrow> bool" where
  "verified_files unzip lower artifact wake_only destination s done t \<longleftrightarrow>
     written t = written s \<and> \<not> done \<or>
     (\<exists>archive files k. lower (hexdigest (sha256 archive)) = lower (artifact_sha256 artifact) \<and>
        wanted_files unzip wake_only archive = Inr files \<and>
        written t = written s @ map (\<lambda>(name, content). (file_path destination name, content)) (take k files) \<and>
        (done \<longrightarrow> length files \<le> k))"

lemma get_archive_cases:
  "get_archive given artifact s = (r, t) \<Longrightarrow> written t = written s \<and> unlink_fault t = unlink_fault s"
  by (auto simp: get_archive_def lift_sum_def seq_def bind_def download_def split: option.splits list.splits sum.splits)

lemma fetch_body_written:
  assumes "fetch_body unzip lower artifact given wake_only destination s = (r, t)"
  shows "verified_files unzip lower artifact wake_only destination s (r = Ret 0) t \<and> unlink_fault t = unlink_fault s \<and>
    (\<forall>c. r = Ret c \<longrightarrow> c = 0)"
  using assms unfolding fetch_body_def
proof (cases rule: bind_cases)
  case (Ret archive u)
  note u = get_archive_cases [OF Ret(1)]
  show ?thesis
  proof (cases "lower (hexdigest (sha256 archive)) = lower (artifact_sha256 artifact)")
    case False
    with Ret(2) u show ?thesis by (auto simp: verified_files_def)
  next
    case True
    show ?thesis
    proof (cases "wanted_files unzip wake_only archive")
      case (Inl e)
      with Ret(2) True u show ?thesis by (auto simp: verified_files_def lift_sum_def)
    next
      case (Inr files)
      obtain q v where q: "write_files destination files u = (q, v)" by (cases "write_files destination files u")
      from write_files_written [OF q] obtain k where k: "written v = written u @ map (\<lambda>(name, content). (file_path destination name, content)) (take k files)"
        "unlink_fault v = unlink_fault u" "q \<noteq> Halt" "q = Ret () \<longrightarrow> length files \<le> k" by blast
      have "(q = Ret () \<and> r = Ret 0 \<or> (\<exists>e. q = Raise e \<and> r = Raise e)) \<and> written t = written v \<and> unlink_fault t = unlink_fault v"
        using Ret(2) True Inr q k(3) by (cases q) (auto simp: lift_sum_def seq_def bind_def)
      with k u True Inr show ?thesis
        unfolding verified_files_def by auto
    qed
  qed
qed (auto simp: verified_files_def dest: get_archive_cases)

lemma fetch_main_verified:
  assumes "fetch_main unzip lower artifact given wake_only destination s = (r, t)" "r \<noteq> Halt" "unlink_fault s = None"
  shows "verified_files unzip lower artifact wake_only destination s (r = Ret 0) t \<and> \<not> temp_present t"
proof -
  obtain q u where q: "fetch_body unzip lower artifact given wake_only destination s = (q, u)"
    by (cases "fetch_body unzip lower artifact given wake_only destination s")
  have m: "fetch_main unzip lower artifact given wake_only destination = try_finally (fetch_body unzip lower artifact given wake_only destination) unlink_temporary"
    by (simp add: fetch_main_def fetch_body_def)
  from fetch_body_written [OF q] assms(3) have b: "verified_files unzip lower artifact wake_only destination s (q = Ret 0) u"
    "unlink_fault u = None" by auto
  have "r = q \<and> t = (if temp_present u then u\<lparr>temp_present := False\<rparr> else u)"
    using assms(1,2) q b(2) by (cases q) (auto simp: m try_finally_def unlink_temporary_def split: if_splits)
  with b show ?thesis by (auto simp: verified_files_def)
qed


definition empty_site :: sdk_site where
  "empty_site = \<lparr>downloads = [], fetched_urls = [], temp_present = False, unlink_fault = None, file_faults = [], written = [], reported = []\<rparr>"

definition one_member :: unzip where
  "one_member archive = Inr [\<lparr>entry_name = str (''sdk/'' @ WAKE_SOURCE_SUFFIX), entry_data = Inr [1, 2]\<rparr>]"


end
