(* ===== verification/Spec2Isabelle.thy ===== *)
theory Spec2Isabelle
  imports CS2_Delivery CS2_Reliable Helper Bridge Account Wakeup App Capture Placeholder Integration VendorSdk
begin

text \<open>
  Verification development of the native O-KAM camera bridge for Home Assistant.

  \<^bold>\<open>The program.\<close> A battery camera sleeps until it is woken through the vendor's cloud, and is then reached
  over the CS2 peer-to-peer protocol. The app (\<open>okam_native_app/app_entrypoint.py\<close>) prepares the vendor
  runtime, enumerates the account (\<open>account.py\<close>), optionally probes the camera and publishes an HTTP bridge
  (\<open>bridge.py\<close>). A viewer of the bridge makes the shared stream session (\<open>session.py\<close>) wake the camera
  (\<open>wakeup.py\<close>) and start a helper process (\<open>p2p.py\<close>). On amd64 the helper is \<open>amd64_helper.py\<close>, which
  runs the camera commands and the protocol of \<open>cs2.py\<close>. The Home Assistant integration
  (\<open>custom_components/okam\<close>) is a client of the bridge; \<open>tools\<close> fetch the vendor's SDK and summarise captures.

  \<^bold>\<open>Theories and the code they model\<close> (files of the package are under \<open>src/src/okam_native\<close>).
  \<^item> \<open>Prelude\<close>, \<open>PyText\<close>, \<open>JSON\<close>, \<open>Digest\<close>, \<open>Http\<close>: values of Python and what the code uses of its standard
    library: bytes, text as code points, UTF-8, exceptions, dictionaries, \<open>inet_aton\<close>, the JSON decoder and
    printer, MD5, SHA-1, SHA-256, HMAC, base64, URL splitting and percent-encoding.
  \<^item> \<open>Effects\<close>: effectful code as state transformers that return, raise or halt, with exceptions, clean-up
    and loops; the locale \<open>two_state\<close> for everything that a run preserves.
  \<^item> \<open>CS2_Codec\<close>, \<open>CS2_Channel\<close>, \<open>CS2_Reliable\<close>, \<open>CS2_Delivery\<close>, \<open>CS2_Connect\<close>, \<open>CS2_Command\<close>: \<open>cs2.py\<close>. The
    record \<open>cs2\<close> is the object \<open>CS2Session\<close>, one definition per method; the network and the clock are scripts
    in it. \<open>CS2_Delivery\<close> has the abstract receiver that the channels refine.
  \<^item> \<open>P2P\<close>, \<open>Process\<close>: \<open>p2p.py\<close>: directory lookups, secrets, diagnostics, results of the probes, and the
    processes behind them over the record of what the operating system answers.
  \<^item> \<open>Media\<close>, \<open>Stream_Session\<close>: \<open>session.py\<close>. The record \<open>world\<close> is the state under the session's lock with the
    positions of its threads; every locked block is one operation, and \<open>step\<close> interleaves them.
  \<^item> \<open>Helper\<close>: \<open>amd64_helper.py\<close>, written against a record of the device's operations, which
    is instantiated by those of the camera session.
  \<^item> \<open>Bridge\<close>: \<open>bridge.py\<close>, one definition per handler, over the session and a site.
  \<^item> \<open>Account\<close>, \<open>Wakeup\<close>: \<open>account.py\<close> and \<open>wakeup.py\<close> over scripted connections.
  \<^item> \<open>App\<close>: \<open>app_entrypoint.py\<close> over a record of the platform.
  \<^item> \<open>Integration\<close>, \<open>Placeholder\<close>: the API client, form steps, coordinator and camera entity of
    \<open>custom_components/okam\<close>, and \<open>placeholders.py\<close>.
  \<^item> \<open>VendorSdk\<close>, \<open>Capture\<close>: \<open>tools/fetch_official_sdk.py\<close> and \<open>tools/pcap_summary.py\<close>.

  \<^bold>\<open>What is proved.\<close> The channels refine a reference receiver that delivers each stream in order and once; a
  write that returns was acknowledged, a read conserves the stream; connecting adopts only a peer that
  identified itself, and every wait ends with the clock. Packets, service parameters, messages and summaries
  read back as what was written. In every reachable state of the stream session its invariant holds, and every
  viewer can be brought to its end; streams, helper runs and snapshots release what they took. Without
  the token the bridge serves nothing; the idle timeout stays within its bounds; a stream URL
  opens its stream. The account client sends three requests and the password only as a digest; a
  reported wake-up was commanded. The start-up never raises, a published bridge is guarded and ready,
  the acceptance wakes at most three times. An idle camera is left asleep end to end, from the bridge's session
  to the picture in Home Assistant, which always is one. The fetcher leaves nothing of an
  unverified archive behind, the capture summary prints neither addresses nor ports.

  \<^bold>\<open>Scripts and fuel.\<close> What the environment does (packets, clock readings, replies, outcomes of system calls, steps
  of other threads) is a list in the state, arbitrary in the theorems; \<open>Halt\<close> means that a run outlived its
  list. A loop that reads the clock or waits for another thread in each round gets one round more than its list has
  entries, so the fuel ends no run before the list does; the theorems on termination show that the loops
  come back once the clock passes their deadline. The loops over data recurse on it, with a measure where needed.

  \<^bold>\<open>Interfaces.\<close> \<open>two_state\<close> (\<open>Effects\<close>) is interpreted on the clock, the frames and the invariants of the
  components, and extended by \<open>negotiation_frame\<close> and \<open>connect_frame\<close> for what connecting preserves;
  \<open>packet_cipher\<close> is what the session needs of the cipher, \<open>channel_transport\<close> what the camera commands need of
  the channels, \<open>closing_device\<close> what the helper needs of the camera session, and \<open>bounded_queue\<close> what the
  stream session needs of its queues; each is interpreted on the model of the code that provides it. The facts a
  group of proofs shares are bundles named \<open>_rules\<close> or collected in \<open>slice_simps\<close>, \<open>codec_simps\<close> and \<open>dict_simps\<close>.

  \<^bold>\<open>Parameters.\<close> The Unicode tables, the directory service's opener, the check of a bracketed host, the deflate compressor,
  the view of a ZIP archive, the HTTP library of Home Assistant, process and file operations; hypotheses on them
  are named in the theorems. Times are exact rationals, except in \<open>Capture\<close>, which rounds them to doubles.

  \<^bold>\<open>Not modelled.\<close> The logging of \<open>QuietThreadingHTTPServer\<close> and the recursion limit on deeply nested JSON; the Home
  Assistant framework around the integration (\<open>__init__.py\<close>, \<open>entity.py\<close>, schemas, registries), which is not part of
  the repository; \<open>redaction.py\<close> and \<open>acceptance.py\<close>, used by development tools only; the tools around
  ssh, tcpdump, debuggers and ELF libraries; the C sources under \<open>native\<close>, tests, documents and build files.
\<close>

end
